(* ===== verification/Dvb_Prelude.thy ===== *)
theory Dvb_Prelude
  imports Main "HOL-Library.Word" "HOL-Library.Monad_Syntax"
begin

text \<open>
  What every component of the development shares: the machine integers of the C code, the
  error numbers it returns, byte memory with bounds-checked access, and the generic list and
  word lemmas the component proofs rest on.

  A C operation that can run into undefined behaviour (an access outside an object, a NULL
  dereference, a division by zero) or that may not return at all is a function into \<open>option\<close>:
  \<open>None\<close> is the fault, \<open>Some r\<close> the defined result. An error the code reports (\<open>-EINVAL\<close>
  and its like) is an ordinary negative value inside \<open>Some\<close>.
\<close>

unbundle bit_operations_syntax

type_synonym u8 = "8 word"
type_synonym u16 = "16 word"
type_synonym u32 = "32 word"
type_synonym u64 = "64 word"

named_theorems mem_simps "bounds-checked memory access"

section \<open>Conversions between C integer types\<close>

text \<open>\<open>size_t\<close> and \<open>u64\<close> hold 64 bits: conversion is reduction modulo \<open>2 ^ 64\<close>. A conversion to
  a 32-bit \<open>int\<close> keeps the low 32 bits and reads them as two's complement.\<close>

definition to_u64 :: "int \<Rightarrow> int" where
  "to_u64 x = x mod 2 ^ 64"

definition to_s32 :: "int \<Rightarrow> int" where
  "to_s32 x = (x + 2 ^ 31) mod 2 ^ 32 - 2 ^ 31"

lemma to_u64_id [simp]: "0 \<le> x \<Longrightarrow> x < 2 ^ 64 \<Longrightarrow> to_u64 x = x"
  by (simp add: to_u64_def)

lemma to_s32_id [simp]: "- (2 ^ 31) \<le> x \<Longrightarrow> x < 2 ^ 31 \<Longrightarrow> to_s32 x = x"
  by (simp add: to_s32_def)

section \<open>Error numbers\<close>

abbreviation (input) EINTR :: int where "EINTR \<equiv> 4"
abbreviation (input) ENOMEM :: int where "ENOMEM \<equiv> 12"
abbreviation (input) EFAULT :: int where "EFAULT \<equiv> 14"
abbreviation (input) EBUSY :: int where "EBUSY \<equiv> 16"
abbreviation (input) ENODEV :: int where "ENODEV \<equiv> 19"
abbreviation (input) EINVAL :: int where "EINVAL \<equiv> 22"
abbreviation (input) EUSERS :: int where "EUSERS \<equiv> 87"
abbreviation (input) ERESTARTSYS :: int where "ERESTARTSYS \<equiv> 512"

section \<open>Bounds-checked memory\<close>

text \<open>An object in memory is the list of its elements. Reading or writing outside it is the
  fault \<open>None\<close>.\<close>

definition rd :: "'a list \<Rightarrow> nat \<Rightarrow> 'a option" where
  "rd m i = (if i < length m then Some (m ! i) else None)"

definition wr :: "'a list \<Rightarrow> nat \<Rightarrow> 'a \<Rightarrow> 'a list option" where
  "wr m i x = (if i < length m then Some (m[i := x]) else None)"

text \<open>\<open>memrd m i n\<close> reads the \<open>n\<close> elements from \<open>i\<close> (the source of a \<open>memcpy\<close>), \<open>memwr m i xs\<close>
  overwrites the elements from \<open>i\<close> with \<open>xs\<close> (its destination).\<close>

definition memrd :: "'a list \<Rightarrow> nat \<Rightarrow> nat \<Rightarrow> 'a list option" where
  "memrd m i n = (if i + n \<le> length m then Some (take n (drop i m)) else None)"

definition memwr :: "'a list \<Rightarrow> nat \<Rightarrow> 'a list \<Rightarrow> 'a list option" where
  "memwr m i xs =
     (if i + length xs \<le> length m then Some (take i m @ xs @ drop (i + length xs) m) else None)"

lemma rd_Some [mem_simps]: "i < length m \<Longrightarrow> rd m i = Some (m ! i)"
  by (simp add: rd_def)

lemma wr_Some [mem_simps]: "i < length m \<Longrightarrow> wr m i x = Some (m[i := x])"
  by (simp add: wr_def)

lemma memrd_Some [mem_simps]: "i + n \<le> length m \<Longrightarrow> memrd m i n = Some (take n (drop i m))"
  by (simp add: memrd_def)

lemma memwr_Some [mem_simps]:
  "i + length xs \<le> length m \<Longrightarrow>
     memwr m i xs = Some (take i m @ xs @ drop (i + length xs) m)"
  by (simp add: memwr_def)

lemma rd_eq_Some_iff: "rd m i = Some x \<longleftrightarrow> i < length m \<and> m ! i = x"
  by (auto simp: rd_def)

lemma wr_eq_Some_iff: "wr m i x = Some m' \<longleftrightarrow> i < length m \<and> m' = m[i := x]"
  by (auto simp: wr_def)

lemma memwr_length: "memwr m i xs = Some m' \<Longrightarrow> length m' = length m"
  by (auto simp: memwr_def split: if_splits)

lemma memwr_nth:
  assumes "memwr m i xs = Some m'" and "j < length m"
  shows "m' ! j = (if i \<le> j \<and> j < i + length xs then xs ! (j - i) else m ! j)"
  using assms by (auto simp: memwr_def nth_append min_def not_le split: if_splits)

section \<open>Generic lemmas\<close>

lemma map_nth_eqI:
  "length ys = n \<Longrightarrow> (\<And>i. i < n \<Longrightarrow> f i = ys ! i) \<Longrightarrow> map f [0..<n] = ys"
  by (auto intro: nth_equalityI)

text \<open>An index of a circular array of \<open>n\<close> elements is reduced once.\<close>

lemma mod_once: "(a :: nat) < 2 * n \<Longrightarrow> a mod n = (if a < n then a else a - n)"
  by (auto simp: mod_if)

lemma mod_add_inj:
  fixes a i j n :: nat
  assumes "(a + i) mod n = (a + j) mod n" and "i < n" and "j < n"
  shows "i = j"
proof -
  define b where "b = a mod n"
  have "(b + i) mod n = (b + j) mod n"
    using assms(1) by (simp add: b_def mod_add_left_eq)
  moreover have "b < n" using assms(2) by (simp add: b_def)
  ultimately show ?thesis
    using assms(2,3) by (simp add: mod_once split: if_splits)
qed

text \<open>Joining a high and a low part with a bitwise or is addition when the parts do not overlap.\<close>

lemma push_bit_or_nat:
  fixes a b :: nat
  assumes "b < 2 ^ n"
  shows "push_bit n a OR b = a * 2 ^ n + b"
proof -
  have "\<not> bit b k" if "n \<le> k" for k
    using bit_take_bit_iff [of n b k] take_bit_nat_eq_self [OF assms] that by simp
  then have "push_bit n a AND b = 0"
    by (intro bit_eqI) (auto simp: bit_and_iff bit_push_bit_iff)
  then have "push_bit n a OR b = push_bit n a + b"
    by (simp add: disjunctive_add_eq_or)
  then show ?thesis by (simp add: push_bit_eq_mult)
qed

end
