(* ===== verification/Dvb_Ringbuffer.thy ===== *)
theory Dvb_Ringbuffer
  imports Dvb_Prelude
begin

text \<open>
  \<open>dvb-core/dvb_ringbuffer.c\<close> and \<open>dvb_ringbuffer.h\<close>: the circular byte buffer behind the demux,
  DVR and CI devices, and the packet layer on top of it.

  The record \<open>dvb_ringbuffer\<close> is the C structure without its wait queue and spinlock, which
  carry no data. \<open>size\<close>, \<open>pread\<close> and \<open>pwrite\<close> are \<open>ssize_t\<close> in the code and are only ever set to
  0, to a \<open>size_t\<close> length or to a remainder, so they are naturals here; every signed
  subtraction of them is written out on \<open>int\<close>. The length of an object in memory is below
  \<open>2 ^ 63\<close>, so a sum of two lengths does not wrap in \<open>size_t\<close>; the one place where an unsigned
  subtraction does wrap, in \<open>dvb_ringbuffer_pkt_next\<close>, is kept with its width.

  The second half gives the abstract views: a buffer is the list of the bytes between the two
  pointers (\<open>rb_bytes\<close>), a packet buffer a list of packets (\<open>pkt_rep\<close>).
\<close>

section \<open>State\<close>

record dvb_ringbuffer =
  rb_data :: "u8 list"
  rb_size :: nat
  pread :: nat
  pwrite :: nat
  rb_error :: int

abbreviation (input) PKT_READY :: u8 where "PKT_READY \<equiv> 0"
abbreviation (input) PKT_DISPOSED :: u8 where "PKT_DISPOSED \<equiv> 1"
abbreviation (input) DVB_RINGBUFFER_PKTHDRSIZE :: nat where "DVB_RINGBUFFER_PKTHDRSIZE \<equiv> 3"

section \<open>The byte buffer\<close>

definition dvb_ringbuffer_init :: "u8 list \<Rightarrow> nat \<Rightarrow> dvb_ringbuffer" where
  "dvb_ringbuffer_init data len =
     \<lparr>rb_data = data, rb_size = len, pread = 0, pwrite = 0, rb_error = 0\<rparr>"

definition dvb_ringbuffer_empty :: "dvb_ringbuffer \<Rightarrow> bool" where
  "dvb_ringbuffer_empty rb \<longleftrightarrow> pread rb = pwrite rb"

definition dvb_ringbuffer_free :: "dvb_ringbuffer \<Rightarrow> int" where
  "dvb_ringbuffer_free rb =
     (let free = int (pread rb) - int (pwrite rb);
          free = (if free \<le> 0 then free + int (rb_size rb) else free)
      in free - 1)"

definition dvb_ringbuffer_avail :: "dvb_ringbuffer \<Rightarrow> int" where
  "dvb_ringbuffer_avail rb =
     (let avail = int (pwrite rb) - int (pread rb)
      in if avail < 0 then avail + int (rb_size rb) else avail)"

definition dvb_ringbuffer_flush :: "dvb_ringbuffer \<Rightarrow> dvb_ringbuffer" where
  "dvb_ringbuffer_flush rb = rb\<lparr>pread := pwrite rb, rb_error := 0\<rparr>"

definition dvb_ringbuffer_reset :: "dvb_ringbuffer \<Rightarrow> dvb_ringbuffer" where
  "dvb_ringbuffer_reset rb = rb\<lparr>pwrite := 0, pread := 0, rb_error := 0\<rparr>"

text \<open>Taking the spinlock and waking the readers change nothing in the structure.\<close>

definition dvb_ringbuffer_flush_spinlock_wakeup :: "dvb_ringbuffer \<Rightarrow> dvb_ringbuffer" where
  "dvb_ringbuffer_flush_spinlock_wakeup rb = dvb_ringbuffer_flush rb"

text \<open>\<open>% size\<close> with a zero size is a fault.\<close>

definition modsize :: "nat \<Rightarrow> dvb_ringbuffer \<Rightarrow> nat option" where
  "modsize i rb = (if rb_size rb = 0 then None else Some (i mod rb_size rb))"

definition DVB_RINGBUFFER_PEEK :: "dvb_ringbuffer \<Rightarrow> nat \<Rightarrow> u8 option" where
  "DVB_RINGBUFFER_PEEK rb offs = do { i \<leftarrow> modsize (pread rb + offs) rb; rd (rb_data rb) i }"

definition DVB_RINGBUFFER_SKIP :: "dvb_ringbuffer \<Rightarrow> nat \<Rightarrow> dvb_ringbuffer option" where
  "DVB_RINGBUFFER_SKIP rb num = do { i \<leftarrow> modsize (pread rb + num) rb; Some (rb\<lparr>pread := i\<rparr>) }"

definition DVB_RINGBUFFER_WRITE_BYTE :: "dvb_ringbuffer \<Rightarrow> u8 \<Rightarrow> dvb_ringbuffer option" where
  "DVB_RINGBUFFER_WRITE_BYTE rb byte = do {
     d \<leftarrow> wr (rb_data rb) (pwrite rb) byte;
     i \<leftarrow> modsize (pwrite rb + 1) rb;
     Some (rb\<lparr>rb_data := d, pwrite := i\<rparr>) }"

text \<open>The number of bytes before the end of the array when a transfer of \<open>len\<close> bytes at \<open>p\<close> goes
  past it, 0 otherwise: the local \<open>split\<close> of the transfer routines.\<close>

definition rb_split :: "dvb_ringbuffer \<Rightarrow> nat \<Rightarrow> nat \<Rightarrow> nat" where
  "rb_split rb p len = (if p + len > rb_size rb then rb_size rb - p else 0)"

text \<open>\<open>uok off n\<close> says whether \<open>copy_to_user\<close> of \<open>n\<close> bytes to offset \<open>off\<close> of the caller's buffer
  succeeds. The result holds the return value, the bytes that reached the caller and the
  buffer.\<close>

definition dvb_ringbuffer_read_user ::
  "(nat \<Rightarrow> nat \<Rightarrow> bool) \<Rightarrow> dvb_ringbuffer \<Rightarrow> nat \<Rightarrow> (int \<times> u8 list \<times> dvb_ringbuffer) option" where
  "dvb_ringbuffer_read_user uok rb len =
     (let split = rb_split rb (pread rb) len in
      if split > 0 then do {
        b1 \<leftarrow> memrd (rb_data rb) (pread rb) split;
        if \<not> uok 0 split then Some (- EFAULT, [], rb)
        else do {
          let rb = rb\<lparr>pread := 0\<rparr>;
          b2 \<leftarrow> memrd (rb_data rb) (pread rb) (len - split);
          if \<not> uok split (len - split) then Some (- EFAULT, b1, rb)
          else do {
            p \<leftarrow> modsize (pread rb + (len - split)) rb;
            Some (int len, b1 @ b2, rb\<lparr>pread := p\<rparr>) } } }
      else do {
        b2 \<leftarrow> memrd (rb_data rb) (pread rb) len;
        if \<not> uok 0 len then Some (- EFAULT, [], rb)
        else do {
          p \<leftarrow> modsize (pread rb + len) rb;
          Some (int len, b2, rb\<lparr>pread := p\<rparr>) } })"

definition dvb_ringbuffer_read :: "dvb_ringbuffer \<Rightarrow> nat \<Rightarrow> (u8 list \<times> dvb_ringbuffer) option" where
  "dvb_ringbuffer_read rb len =
     (let split = rb_split rb (pread rb) len in do {
        (b1, rb, todo) \<leftarrow>
          (if split > 0 then do {
             b1 \<leftarrow> memrd (rb_data rb) (pread rb) split;
             Some (b1, rb\<lparr>pread := 0\<rparr>, len - split) }
           else Some ([], rb, len));
        b2 \<leftarrow> memrd (rb_data rb) (pread rb) todo;
        p \<leftarrow> modsize (pread rb + todo) rb;
        Some (b1 @ b2, rb\<lparr>pread := p\<rparr>) })"

definition dvb_ringbuffer_write ::
  "dvb_ringbuffer \<Rightarrow> u8 list \<Rightarrow> nat \<Rightarrow> (int \<times> dvb_ringbuffer) option" where
  "dvb_ringbuffer_write rb buf len =
     (let split = rb_split rb (pwrite rb) len in do {
        (rb, off, todo) \<leftarrow>
          (if split > 0 then do {
             b1 \<leftarrow> memrd buf 0 split;
             d \<leftarrow> memwr (rb_data rb) (pwrite rb) b1;
             Some (rb\<lparr>rb_data := d, pwrite := 0\<rparr>, split, len - split) }
           else Some (rb, 0, len));
        b2 \<leftarrow> memrd buf off todo;
        d \<leftarrow> memwr (rb_data rb) (pwrite rb) b2;
        p \<leftarrow> modsize (pwrite rb + todo) rb;
        Some (int len, rb\<lparr>rb_data := d, pwrite := p\<rparr>) })"

section \<open>The packet layer\<close>

text \<open>A packet is a header of three bytes (length high, length low, status) and its payload. A
  status other than \<open>PKT_READY\<close> means the packet has been disposed of.\<close>

definition pkt_len :: "u8 \<Rightarrow> u8 \<Rightarrow> nat" where
  "pkt_len h l = (push_bit 8 (unat h)) OR unat l"

definition dvb_ringbuffer_pkt_write ::
  "dvb_ringbuffer \<Rightarrow> u8 list \<Rightarrow> nat \<Rightarrow> (int \<times> dvb_ringbuffer) option" where
  "dvb_ringbuffer_pkt_write rb buf len = do {
     let oldpwrite = pwrite rb;
     rb \<leftarrow> DVB_RINGBUFFER_WRITE_BYTE rb (word_of_nat (drop_bit 8 len));
     rb \<leftarrow> DVB_RINGBUFFER_WRITE_BYTE rb (word_of_nat (len AND 0xff));
     rb \<leftarrow> DVB_RINGBUFFER_WRITE_BYTE rb PKT_READY;
     (n, rb) \<leftarrow> dvb_ringbuffer_write rb buf len;
     let status = to_s32 n;
     Some (status, if status < 0 then rb\<lparr>pwrite := oldpwrite\<rparr> else rb) }"

text \<open>\<open>offset\<close> is an \<open>int\<close> compared with a \<open>size_t\<close>: a negative one is taken modulo \<open>2 ^ 64\<close>.\<close>

definition dvb_ringbuffer_pkt_read_user ::
  "(nat \<Rightarrow> nat \<Rightarrow> bool) \<Rightarrow> dvb_ringbuffer \<Rightarrow> nat \<Rightarrow> int \<Rightarrow> nat \<Rightarrow> (int \<times> u8 list) option" where
  "dvb_ringbuffer_pkt_read_user uok rb idx offset len = do {
     h \<leftarrow> rd (rb_data rb) idx;
     i1 \<leftarrow> modsize (idx + 1) rb;
     l \<leftarrow> rd (rb_data rb) i1;
     let pktlen = pkt_len h l;
     let off = nat (to_u64 offset);
     if off > pktlen then Some (- EINVAL, [])
     else do {
       let len = (if off + len > pktlen then pktlen - off else len);
       idx \<leftarrow> modsize (idx + DVB_RINGBUFFER_PKTHDRSIZE + off) rb;
       let split = rb_split rb idx len;
       if split > 0 then do {
         b1 \<leftarrow> memrd (rb_data rb) idx split;
         if \<not> uok 0 split then Some (- EFAULT, [])
         else do {
           b2 \<leftarrow> memrd (rb_data rb) 0 (len - split);
           if \<not> uok split (len - split) then Some (- EFAULT, b1)
           else Some (int len, b1 @ b2) } }
       else do {
         b2 \<leftarrow> memrd (rb_data rb) idx len;
         if \<not> uok 0 len then Some (- EFAULT, [])
         else Some (int len, b2) } } }"

definition dvb_ringbuffer_pkt_read ::
  "dvb_ringbuffer \<Rightarrow> nat \<Rightarrow> int \<Rightarrow> nat \<Rightarrow> (int \<times> u8 list) option" where
  "dvb_ringbuffer_pkt_read rb idx offset len = do {
     h \<leftarrow> rd (rb_data rb) idx;
     i1 \<leftarrow> modsize (idx + 1) rb;
     l \<leftarrow> rd (rb_data rb) i1;
     let pktlen = pkt_len h l;
     let off = nat (to_u64 offset);
     if off > pktlen then Some (- EINVAL, [])
     else do {
       let len = (if off + len > pktlen then pktlen - off else len);
       idx \<leftarrow> modsize (idx + DVB_RINGBUFFER_PKTHDRSIZE + off) rb;
       let split = rb_split rb idx len;
       (b1, idx, todo) \<leftarrow>
         (if split > 0 then do {
            b1 \<leftarrow> memrd (rb_data rb) idx split;
            Some (b1, 0, len - split) }
          else Some ([], idx, len));
       b2 \<leftarrow> memrd (rb_data rb) idx todo;
       Some (int len, b1 @ b2) } }"

text \<open>The clean-up loop of \<open>dvb_ringbuffer_pkt_dispose\<close> and the search loop of
  \<open>dvb_ringbuffer_pkt_next\<close> follow the lengths stored in the buffer, so on arbitrary contents
  they need not end: \<open>None\<close> is also the value of a loop that does not.\<close>

partial_function (option) pkt_clean :: "dvb_ringbuffer \<Rightarrow> dvb_ringbuffer option" where
  "pkt_clean rb =
     (if dvb_ringbuffer_avail rb > int DVB_RINGBUFFER_PKTHDRSIZE then do {
        st \<leftarrow> DVB_RINGBUFFER_PEEK rb 2;
        if st = PKT_DISPOSED then do {
          h \<leftarrow> DVB_RINGBUFFER_PEEK rb 0;
          l \<leftarrow> DVB_RINGBUFFER_PEEK rb 1;
          rb' \<leftarrow> DVB_RINGBUFFER_SKIP rb (pkt_len h l + DVB_RINGBUFFER_PKTHDRSIZE);
          pkt_clean rb' }
        else Some rb }
      else Some rb)"

definition dvb_ringbuffer_pkt_dispose :: "dvb_ringbuffer \<Rightarrow> nat \<Rightarrow> dvb_ringbuffer option" where
  "dvb_ringbuffer_pkt_dispose rb idx = do {
     i \<leftarrow> modsize (idx + 2) rb;
     d \<leftarrow> wr (rb_data rb) i PKT_DISPOSED;
     pkt_clean (rb\<lparr>rb_data := d\<rparr>) }"

partial_function (option) pkt_search ::
  "dvb_ringbuffer \<Rightarrow> nat \<Rightarrow> int \<Rightarrow> (int \<times> nat) option" where
  "pkt_search rb idx consumed =
     (if dvb_ringbuffer_avail rb - consumed > int DVB_RINGBUFFER_PKTHDRSIZE then do {
        h \<leftarrow> rd (rb_data rb) idx;
        i1 \<leftarrow> modsize (idx + 1) rb;
        l \<leftarrow> rd (rb_data rb) i1;
        i2 \<leftarrow> modsize (idx + 2) rb;
        st \<leftarrow> rd (rb_data rb) i2;
        if st = PKT_READY then Some (int idx, pkt_len h l)
        else do {
          idx' \<leftarrow> modsize (idx + pkt_len h l + DVB_RINGBUFFER_PKTHDRSIZE) rb;
          pkt_search rb idx' (consumed + int (pkt_len h l + DVB_RINGBUFFER_PKTHDRSIZE)) } }
      else Some (- 1, 0))"

text \<open>The result is the returned index (or -1) and the packet length stored through \<open>pktlen\<close>.
  \<open>idx\<close> is a \<open>size_t\<close>, so the \<open>-1\<close> that asks for the first packet is \<open>2 ^ 64 - 1\<close>, and the
  difference \<open>idx - pread\<close> is taken modulo \<open>2 ^ 64\<close> before the remainder.\<close>

definition dvb_ringbuffer_pkt_next :: "dvb_ringbuffer \<Rightarrow> nat \<Rightarrow> (int \<times> nat) option" where
  "dvb_ringbuffer_pkt_next rb idx = do {
     idx \<leftarrow>
       (if idx = 2 ^ 64 - 1 then Some (pread rb)
        else do {
          h \<leftarrow> rd (rb_data rb) idx;
          i1 \<leftarrow> modsize (idx + 1) rb;
          l \<leftarrow> rd (rb_data rb) i1;
          modsize (idx + pkt_len h l + DVB_RINGBUFFER_PKTHDRSIZE) rb });
     if rb_size rb = 0 then None
     else pkt_search rb idx
       (to_s32 (to_u64 (int idx - int (pread rb)) mod int (rb_size rb))) }"

section \<open>Well-formedness and the abstract views\<close>

definition rb_wf :: "dvb_ringbuffer \<Rightarrow> bool" where
  "rb_wf rb \<longleftrightarrow> length (rb_data rb) = rb_size rb \<and> pread rb < rb_size rb \<and> pwrite rb < rb_size rb"

definition rb_count :: "dvb_ringbuffer \<Rightarrow> nat" where
  "rb_count rb = (pwrite rb + rb_size rb - pread rb) mod rb_size rb"

text \<open>The \<open>n\<close> bytes from position \<open>p\<close> on, going round the end of the array.\<close>

definition rb_slice :: "dvb_ringbuffer \<Rightarrow> nat \<Rightarrow> nat \<Rightarrow> u8 list" where
  "rb_slice rb p n = map (\<lambda>i. rb_data rb ! ((p + i) mod rb_size rb)) [0..<n]"

definition rb_bytes :: "dvb_ringbuffer \<Rightarrow> u8 list" where
  "rb_bytes rb = rb_slice rb (pread rb) (rb_count rb)"

lemma rb_wfD:
  assumes "rb_wf rb"
  shows "length (rb_data rb) = rb_size rb" "pread rb < rb_size rb" "pwrite rb < rb_size rb"
    "0 < rb_size rb"
  using assms by (auto simp: rb_wf_def)

lemma rb_count_less: "rb_wf rb \<Longrightarrow> rb_count rb < rb_size rb"
  by (simp add: rb_count_def rb_wf_def)

lemma rb_count_cases:
  assumes "rb_wf rb"
  shows "rb_count rb = (if pread rb \<le> pwrite rb then pwrite rb - pread rb
                        else pwrite rb + rb_size rb - pread rb)"
  using rb_wfD [OF assms] by (auto simp: rb_count_def mod_if)

lemma avail_count: "rb_wf rb \<Longrightarrow> dvb_ringbuffer_avail rb = int (rb_count rb)"
  by (auto simp: dvb_ringbuffer_avail_def rb_count_cases Let_def dest: rb_wfD)

lemma free_count: "rb_wf rb \<Longrightarrow> dvb_ringbuffer_free rb = int (rb_size rb) - 1 - int (rb_count rb)"
  by (auto simp: dvb_ringbuffer_free_def rb_count_cases Let_def dest: rb_wfD)

lemma pwrite_count: "rb_wf rb \<Longrightarrow> pwrite rb = (pread rb + rb_count rb) mod rb_size rb"
  using rb_wfD [of rb] by (auto simp: rb_count_cases mod_once)

lemma pwrite_count_add:
  assumes "rb_wf rb"
  shows "(pwrite rb + i) mod rb_size rb = (pread rb + rb_count rb + i) mod rb_size rb"
  by (subst pwrite_count [OF assms]) (rule mod_add_left_eq)

lemma length_rb_slice [simp]: "length (rb_slice rb p n) = n"
  by (simp add: rb_slice_def)

lemma nth_rb_slice [simp]: "i < n \<Longrightarrow> rb_slice rb p n ! i = rb_data rb ! ((p + i) mod rb_size rb)"
  by (simp add: rb_slice_def)

lemma length_rb_bytes [simp]: "length (rb_bytes rb) = rb_count rb"
  by (simp add: rb_bytes_def)

lemma rb_slice_0 [simp]: "rb_slice rb p 0 = []"
  by (simp add: rb_slice_def)

lemma rb_slice_append: "rb_slice rb p (m + n) = rb_slice rb p m @ rb_slice rb (p + m) n"
  by (rule nth_equalityI) (auto simp: nth_append)

lemma rb_slice_mod [simp]: "rb_slice rb (p mod rb_size rb) n = rb_slice rb p n"
  by (rule nth_equalityI) (auto simp: mod_add_left_eq)

lemma rb_slice_linear:
  "p + n \<le> rb_size rb \<Longrightarrow> length (rb_data rb) = rb_size rb \<Longrightarrow>
     take n (drop p (rb_data rb)) = rb_slice rb p n"
  by (rule nth_equalityI) auto

lemma rb_slice_pread_upd [simp]: "rb_slice (rb\<lparr>pread := q\<rparr>) p n = rb_slice rb p n"
  by (simp add: rb_slice_def)

lemma rb_slice_pwrite_upd [simp]: "rb_slice (rb\<lparr>pwrite := q\<rparr>) p n = rb_slice rb p n"
  by (simp add: rb_slice_def)

lemma rb_slice_error_upd [simp]: "rb_slice (rb\<lparr>rb_error := q\<rparr>) p n = rb_slice rb p n"
  by (simp add: rb_slice_def)

lemma rb_slice_bytes:
  assumes "m + n \<le> rb_count rb"
  shows "rb_slice rb (pread rb + m) n = take n (drop m (rb_bytes rb))"
  using assms by (intro nth_equalityI) (auto simp: rb_bytes_def add.assoc)

subsection \<open>Reading\<close>

text \<open>Both halves of a split transfer together are the slice.\<close>

lemma split_slice:
  assumes "rb_wf rb" "p < rb_size rb" "n \<le> rb_size rb" "p + n > rb_size rb"
  shows "take (rb_size rb - p) (drop p (rb_data rb)) @ take (n - (rb_size rb - p)) (rb_data rb)
           = rb_slice rb p n"
proof -
  let ?k = "rb_size rb - p"
  have "rb_slice rb p n = rb_slice rb p ?k @ rb_slice rb (p + ?k) (n - ?k)"
    using rb_slice_append [of rb p ?k "n - ?k"] assms by simp
  also have "rb_slice rb (p + ?k) (n - ?k) = rb_slice rb 0 (n - ?k)"
    using assms rb_slice_mod [of rb "p + ?k"] by simp
  finally show ?thesis
    using assms rb_wfD(1) [OF assms(1)] rb_slice_linear [of p ?k rb]
      rb_slice_linear [of 0 "n - ?k" rb] by simp
qed

lemma read_eq:
  assumes wf: "rb_wf rb" and len: "len \<le> rb_size rb"
  shows "dvb_ringbuffer_read rb len =
    Some (rb_slice rb (pread rb) len, rb\<lparr>pread := (pread rb + len) mod rb_size rb\<rparr>)"
proof (cases "pread rb + len > rb_size rb")
  case True
  note w = rb_wfD [OF wf]
  have "(len - (rb_size rb - pread rb)) mod rb_size rb = (pread rb + len) mod rb_size rb"
    using True len w by (simp add: mod_once)
  then show ?thesis
    using True len w split_slice [OF wf w(2) len True]
    by (simp add: dvb_ringbuffer_read_def rb_split_def Let_def mem_simps modsize_def)
next
  case False
  note w = rb_wfD [OF wf]
  show ?thesis
    using False w rb_slice_linear [of "pread rb" len rb]
    by (simp add: dvb_ringbuffer_read_def rb_split_def Let_def mem_simps modsize_def)
qed

lemma rb_wf_pread: "rb_wf rb \<Longrightarrow> rb_wf (rb\<lparr>pread := p mod rb_size rb\<rparr>)"
  by (auto simp: rb_wf_def)

lemma rb_count_skip:
  assumes "rb_wf rb" and "len \<le> rb_count rb"
  shows "rb_count (rb\<lparr>pread := (pread rb + len) mod rb_size rb\<rparr>) = rb_count rb - len"
proof -
  note w = rb_wfD [OF assms(1)]
  have wf': "rb_wf (rb\<lparr>pread := (pread rb + len) mod rb_size rb\<rparr>)"
    using assms(1) by (rule rb_wf_pread)
  have "pread rb + len < 2 * rb_size rb"
    using assms(2) rb_count_less [OF assms(1)] w by simp
  then show ?thesis
    using assms w rb_count_less [OF assms(1)] rb_count_cases [OF wf'] rb_count_cases [OF assms(1)]
    by (auto simp: mod_once split: if_splits)
qed

lemma rb_bytes_skip:
  assumes "rb_wf rb" and "len \<le> rb_count rb"
  shows "rb_bytes (rb\<lparr>pread := (pread rb + len) mod rb_size rb\<rparr>) = drop len (rb_bytes rb)"
  using rb_slice_bytes [of len "rb_count rb - len" rb] assms
  by (simp add: rb_bytes_def [of "rb\<lparr>pread := _\<rparr>"] rb_count_skip)

subsection \<open>Writing\<close>

text \<open>The array after a write: the written positions hold the new bytes, the others are
  unchanged.\<close>

definition ring_upd :: "u8 list \<Rightarrow> nat \<Rightarrow> u8 list \<Rightarrow> u8 list" where
  "ring_upd d p bs = map (\<lambda>j. let i = (j + length d - p) mod length d
                              in if i < length bs then bs ! i else d ! j) [0..<length d]"

lemma length_ring_upd [simp]: "length (ring_upd d p bs) = length d"
  by (simp add: ring_upd_def)

lemma ring_upd_new:
  assumes "p < length d" "i < length bs" "length bs \<le> length d"
  shows "ring_upd d p bs ! ((p + i) mod length d) = bs ! i"
proof -
  let ?j = "(p + i) mod length d"
  have "?j < length d" by (rule mod_less_divisor) (use assms in linarith)
  moreover have "(?j + length d - p) mod length d = i"
    using assms by (auto simp: mod_once)
  ultimately show ?thesis using assms by (simp add: ring_upd_def Let_def)
qed

lemma ring_upd_old:
  assumes "p < length d" "length bs \<le> i" "i < length d"
  shows "ring_upd d p bs ! ((p + i) mod length d) = d ! ((p + i) mod length d)"
proof -
  let ?j = "(p + i) mod length d"
  have "?j < length d" by (rule mod_less_divisor) (use assms in linarith)
  moreover have "(?j + length d - p) mod length d = i"
    using assms by (auto simp: mod_once)
  ultimately show ?thesis using assms by (simp add: ring_upd_def Let_def)
qed

lemma ring_upd_linear:
  assumes "p + length bs \<le> length d" "p < length d"
  shows "take p d @ bs @ drop (p + length bs) d = ring_upd d p bs"
proof (rule nth_equalityI)
  fix j assume "j < length (take p d @ bs @ drop (p + length bs) d)"
  then have j: "j < length d" using assms by simp
  show "(take p d @ bs @ drop (p + length bs) d) ! j = ring_upd d p bs ! j"
    using assms j by (auto simp: ring_upd_def Let_def nth_append mod_once)
qed (use assms in simp)

lemma ring_upd_split:
  assumes "p < length d" "length bs \<le> length d" "p + length bs > length d"
  defines "k \<equiv> length d - p"
  shows "take 0 (take p d @ take k bs) @ drop k bs
           @ drop (length bs - k) (take p d @ take k bs) = ring_upd d p bs"
proof (rule nth_equalityI)
  have k: "k < length bs" "k \<le> length d" using assms by auto
  fix j assume "j < length (take 0 (take p d @ take k bs) @ drop k bs
           @ drop (length bs - k) (take p d @ take k bs))"
  then have j: "j < length d" using assms k by auto
  show "(take 0 (take p d @ take k bs) @ drop k bs
           @ drop (length bs - k) (take p d @ take k bs)) ! j = ring_upd d p bs ! j"
    using assms j by (auto simp: ring_upd_def Let_def nth_append mod_once add.commute)
qed (use assms in auto)

lemma write_eq:
  assumes wf: "rb_wf rb" and len: "len \<le> rb_size rb" "len \<le> length buf"
  shows "dvb_ringbuffer_write rb buf len =
    Some (int len, rb\<lparr>rb_data := ring_upd (rb_data rb) (pwrite rb) (take len buf),
                      pwrite := (pwrite rb + len) mod rb_size rb\<rparr>)"
proof (cases "pwrite rb + len > rb_size rb")
  case True
  note w = rb_wfD [OF wf]
  define k where "k = rb_size rb - pwrite rb"
  define m where "m = len - k"
  define d1 where "d1 = take (pwrite rb) (rb_data rb) @ take k buf"
  have k: "0 < k" "k \<le> len" "k + m = len" "pwrite rb + k = rb_size rb" "m < rb_size rb"
    using True len w by (auto simp: k_def m_def)
  have r1: "memrd buf 0 k = Some (take k buf)" using k len by (simp add: mem_simps)
  have w1: "memwr (rb_data rb) (pwrite rb) (take k buf) = Some d1"
    using k len w by (simp add: memwr_def d1_def min_absorb2)
  have r2: "memrd buf k m = Some (take m (drop k buf))" using k len by (simp add: mem_simps)
  have "length d1 = rb_size rb" using k len w by (simp add: d1_def min_absorb2)
  moreover have "length (take m (drop k buf)) = m" using k len by simp
  ultimately have w2: "memwr d1 0 (take m (drop k buf)) = Some (take m (drop k buf) @ drop m d1)"
    using k by (simp add: memwr_def)
  have "take k (take len buf) = take k buf" "drop k (take len buf) = take m (drop k buf)"
    using k by (simp_all add: take_take min_absorb1 drop_take m_def)
  then have u: "take m (drop k buf) @ drop m d1 = ring_upd (rb_data rb) (pwrite rb) (take len buf)"
    using ring_upd_split [of "pwrite rb" "rb_data rb" "take len buf"] True len w
    by (simp add: d1_def k_def [symmetric] m_def [symmetric] min_absorb2)
  have md: "m mod rb_size rb = (pwrite rb + len) mod rb_size rb"
    using k by (metis add.assoc mod_add_self1)
  have sp: "rb_split rb (pwrite rb) len = k" using True by (simp add: rb_split_def k_def)
  show ?thesis
    using k w by (simp add: dvb_ringbuffer_write_def Let_def sp r1 w1 m_def [symmetric] r2 w2 u
        modsize_def md)
next
  case False
  note w = rb_wfD [OF wf]
  show ?thesis
    using False len w ring_upd_linear [of "pwrite rb" "take len buf" "rb_data rb"]
    by (simp add: dvb_ringbuffer_write_def rb_split_def Let_def mem_simps modsize_def min_def)
qed

text \<open>What an accepted write does to the abstract buffer.\<close>

lemma rb_bytes_ring_upd:
  assumes wf: "rb_wf rb" and room: "rb_count rb + length bs < rb_size rb"
  defines "rb' \<equiv> rb\<lparr>rb_data := ring_upd (rb_data rb) (pwrite rb) bs,
                    pwrite := (pwrite rb + length bs) mod rb_size rb\<rparr>"
  shows "rb_wf rb'" and "rb_bytes rb' = rb_bytes rb @ bs"
proof -
  note w = rb_wfD [OF wf]
  show wf': "rb_wf rb'" using w by (simp add: rb'_def rb_wf_def)
  have cnt: "rb_count rb' = rb_count rb + length bs"
    using rb_count_cases [OF wf'] rb_count_cases [OF wf] w room
    by (auto simp: rb'_def mod_once split: if_splits)
  show "rb_bytes rb' = rb_bytes rb @ bs"
  proof (rule nth_equalityI)
    fix i assume "i < length (rb_bytes rb')"
    then have i: "i < rb_count rb + length bs" by (simp add: cnt)
    then have e: "rb_bytes rb' ! i
        = ring_upd (rb_data rb) (pwrite rb) bs ! ((pread rb + i) mod rb_size rb)"
      unfolding rb_bytes_def cnt by (simp add: rb'_def)
    show "rb_bytes rb' ! i = (rb_bytes rb @ bs) ! i"
    proof (cases "i < rb_count rb")
      case True
      have "(pwrite rb + (rb_size rb - rb_count rb + i)) mod rb_size rb = (pread rb + i) mod rb_size rb"
        using pwrite_count_add [OF wf, of "rb_size rb - rb_count rb + i"] rb_count_less [OF wf]
        by (simp add: add.left_commute [of "pread rb" "rb_size rb"])
      then have "ring_upd (rb_data rb) (pwrite rb) bs ! ((pread rb + i) mod rb_size rb)
          = rb_data rb ! ((pread rb + i) mod rb_size rb)"
        using ring_upd_old [of "pwrite rb" "rb_data rb" bs "rb_size rb - rb_count rb + i"]
          True room w rb_count_less [OF wf] by simp
      then show ?thesis using True e by (simp add: rb_bytes_def nth_append)
    next
      case False
      have "(pwrite rb + (i - rb_count rb)) mod rb_size rb = (pread rb + i) mod rb_size rb"
        using pwrite_count_add [OF wf, of "i - rb_count rb"] False by simp
      then have "ring_upd (rb_data rb) (pwrite rb) bs ! ((pread rb + i) mod rb_size rb)
          = bs ! (i - rb_count rb)"
        using ring_upd_new [of "pwrite rb" "rb_data rb" "i - rb_count rb" bs] False i room w
        by simp
      then show ?thesis using False e by (simp add: nth_append)
    qed
  qed (simp add: cnt)
qed

section \<open>The contract of a bounded byte queue\<close>

text \<open>What the clients of the buffer (the demux device, the DVR device, the CI link layer) rely
  on: a queue of bytes of a fixed capacity with the guards of the notes in
  \<open>dvb_ringbuffer.h\<close>. The specification is the list of the bytes in the queue: a write of bytes that fit appends
  them, a read of bytes that are there removes them from the front, and any other write or read is refused.\<close>

datatype rb_op = Put "u8 list" | Get nat | Flush

datatype rb_result = Wrote int | Read "u8 list" | Refused | Flushed

fun queue_run :: "nat \<Rightarrow> rb_op list \<Rightarrow> u8 list \<Rightarrow> rb_result list \<times> u8 list" where
  "queue_run cap [] xs = ([], xs)"
| "queue_run cap (Put bs # ops) xs =
     (if length xs + length bs \<le> cap
      then let (rs, ys) = queue_run cap ops (xs @ bs) in (Wrote (int (length bs)) # rs, ys)
      else let (rs, ys) = queue_run cap ops xs in (Refused # rs, ys))"
| "queue_run cap (Get n # ops) xs =
     (if n \<le> length xs
      then let (rs, ys) = queue_run cap ops (drop n xs) in (Read (take n xs) # rs, ys)
      else let (rs, ys) = queue_run cap ops xs in (Refused # rs, ys))"
| "queue_run cap (Flush # ops) xs = (let (rs, ys) = queue_run cap ops [] in (Flushed # rs, ys))"

text \<open>A reader and a writer that interleave in any order, each checking its guard first as those
  notes prescribe: what each call gives, and the queue at the end.\<close>

fun rb_run ::
  "('q \<Rightarrow> int) \<Rightarrow> ('q \<Rightarrow> int) \<Rightarrow> ('q \<Rightarrow> u8 list \<Rightarrow> nat \<Rightarrow> (int \<times> 'q) option) \<Rightarrow>
   ('q \<Rightarrow> nat \<Rightarrow> (u8 list \<times> 'q) option) \<Rightarrow> ('q \<Rightarrow> 'q) \<Rightarrow> rb_op list \<Rightarrow> 'q \<Rightarrow>
   (rb_result list \<times> 'q) option" where
  "rb_run free avail put get flush [] q = Some ([], q)"
| "rb_run free avail put get flush (Put bs # ops) q = do {
     (r, q) \<leftarrow> (if free q \<ge> int (length bs) then do { (n, q) \<leftarrow> put q bs (length bs); Some (Wrote n, q) } else Some (Refused, q));
     (rs, q) \<leftarrow> rb_run free avail put get flush ops q;
     Some (r # rs, q) }"
| "rb_run free avail put get flush (Get n # ops) q = do {
     (r, q) \<leftarrow> (if avail q \<ge> int n then do { (bs, q) \<leftarrow> get q n; Some (Read bs, q) } else Some (Refused, q));
     (rs, q) \<leftarrow> rb_run free avail put get flush ops q;
     Some (r # rs, q) }"
| "rb_run free avail put get flush (Flush # ops) q = do {
     (rs, q) \<leftarrow> rb_run free avail put get flush ops (flush q);
     Some (Flushed # rs, q) }"

locale byte_queue =
  fixes invar :: "'q \<Rightarrow> bool"
    and bytes :: "'q \<Rightarrow> u8 list"
    and cap :: "'q \<Rightarrow> nat"
    and free :: "'q \<Rightarrow> int"
    and avail :: "'q \<Rightarrow> int"
    and put :: "'q \<Rightarrow> u8 list \<Rightarrow> nat \<Rightarrow> (int \<times> 'q) option"
    and get :: "'q \<Rightarrow> nat \<Rightarrow> (u8 list \<times> 'q) option"
    and flush :: "'q \<Rightarrow> 'q"
  assumes avail_bytes: "invar q \<Longrightarrow> avail q = int (length (bytes q))"
    and free_bytes: "invar q \<Longrightarrow> free q = int (cap q) - int (length (bytes q))"
    and put_bytes: "invar q \<Longrightarrow> int n \<le> free q \<Longrightarrow> n \<le> length bs \<Longrightarrow>
      \<exists>q'. put q bs n = Some (int n, q') \<and> invar q' \<and> bytes q' = bytes q @ take n bs \<and> cap q' = cap q"
    and get_bytes: "invar q \<Longrightarrow> int n \<le> avail q \<Longrightarrow>
      \<exists>q'. get q n = Some (take n (bytes q), q') \<and> invar q' \<and> bytes q' = drop n (bytes q) \<and> cap q' = cap q"
    and flush_bytes: "invar q \<Longrightarrow> invar (flush q) \<and> bytes (flush q) = [] \<and> cap (flush q) = cap q"
begin

text \<open>Every interleaving runs to the end, each call gives what the specification gives, and so does
  the contents at the end.\<close>

lemma run_refines:
  "invar q \<Longrightarrow> \<exists>r. rb_run free avail put get flush ops q = Some (fst (queue_run (cap q) ops (bytes q)), r)
      \<and> invar r \<and> bytes r = snd (queue_run (cap q) ops (bytes q))"
proof (induction ops arbitrary: q)
  case Nil
  then show ?case by simp
next
  case (Cons x ops)
  show ?case
  proof (cases x)
    case (Put bs)
    show ?thesis
    proof (cases "length (bytes q) + length bs \<le> cap q")
      case True
      then obtain q' where q': "put q bs (length bs) = Some (int (length bs), q')" "invar q'" "bytes q' = bytes q @ bs" "cap q' = cap q"
        using put_bytes [OF Cons.prems, of "length bs" bs] free_bytes [OF Cons.prems] by auto
      then show ?thesis using Cons.IH [OF q'(2)] True Put free_bytes [OF Cons.prems] by (auto simp: case_prod_unfold Let_def)
    qed (use Cons.IH [OF Cons.prems] Put free_bytes [OF Cons.prems] in \<open>auto simp: case_prod_unfold Let_def\<close>)
  next
    case (Get n)
    show ?thesis
    proof (cases "n \<le> length (bytes q)")
      case True
      then obtain q' where q': "get q n = Some (take n (bytes q), q')" "invar q'" "bytes q' = drop n (bytes q)" "cap q' = cap q"
        using get_bytes [OF Cons.prems, of n] avail_bytes [OF Cons.prems] by auto
      then show ?thesis using Cons.IH [OF q'(2)] True Get avail_bytes [OF Cons.prems] by (auto simp: case_prod_unfold Let_def)
    qed (use Cons.IH [OF Cons.prems] Get avail_bytes [OF Cons.prems] in \<open>auto simp: case_prod_unfold Let_def\<close>)
  next
    case Flush
    then show ?thesis using Cons.IH [of "flush q"] flush_bytes [OF Cons.prems] by (auto simp: case_prod_unfold Let_def)
  qed
qed

end

lemma rb_write_law:
  assumes "rb_wf rb" "int n \<le> dvb_ringbuffer_free rb" "n \<le> length bs"
  shows "\<exists>rb'. dvb_ringbuffer_write rb bs n = Some (int n, rb') \<and> rb_wf rb'
     \<and> rb_bytes rb' = rb_bytes rb @ take n bs \<and> rb_size rb' = rb_size rb"
proof -
  let ?rb' = "rb\<lparr>rb_data := ring_upd (rb_data rb) (pwrite rb) (take n bs),
                 pwrite := (pwrite rb + n) mod rb_size rb\<rparr>"
  have room: "rb_count rb + n < rb_size rb"
    using assms(1,2) by (simp add: free_count)
  have new: "rb_wf ?rb'" "rb_bytes ?rb' = rb_bytes rb @ take n bs"
    using rb_bytes_ring_upd [OF assms(1), of "take n bs"] room assms(3) by simp_all
  show ?thesis using write_eq [OF assms(1), of n bs] room assms(3) new by simp
qed

lemma rb_read_law:
  assumes "rb_wf rb" "int n \<le> dvb_ringbuffer_avail rb"
  shows "\<exists>rb'. dvb_ringbuffer_read rb n = Some (take n (rb_bytes rb), rb') \<and> rb_wf rb'
     \<and> rb_bytes rb' = drop n (rb_bytes rb) \<and> rb_size rb' = rb_size rb"
proof -
  have n: "n \<le> rb_count rb" using assms by (simp add: avail_count)
  have wf': "rb_wf (rb\<lparr>pread := (pread rb + n) mod rb_size rb\<rparr>)"
    using assms(1) by (rule rb_wf_pread)
  have "rb_slice rb (pread rb) n = take n (rb_bytes rb)"
    using rb_slice_bytes [of 0 n rb] n by simp
  then show ?thesis
    using read_eq [OF assms(1), of n] rb_count_less [OF assms(1)] n rb_bytes_skip [OF assms(1) n] wf' by simp
qed

lemma rb_free_law: "rb_wf rb \<Longrightarrow> dvb_ringbuffer_free rb = int (rb_size rb - 1) - int (rb_count rb)"
  using rb_count_less [of rb] by (simp add: free_count)

lemma rb_flush_law:
  "rb_wf rb \<Longrightarrow> rb_wf (dvb_ringbuffer_flush rb) \<and> rb_bytes (dvb_ringbuffer_flush rb) = [] \<and> rb_size (dvb_ringbuffer_flush rb) = rb_size rb"
  by (simp add: dvb_ringbuffer_flush_def rb_wf_def rb_bytes_def rb_count_def)

interpretation ringbuffer: byte_queue rb_wf rb_bytes "\<lambda>rb. rb_size rb - 1" dvb_ringbuffer_free dvb_ringbuffer_avail
  dvb_ringbuffer_write dvb_ringbuffer_read dvb_ringbuffer_flush
proof
  fix rb and bs :: "u8 list" and n
  assume "rb_wf rb" "int n \<le> dvb_ringbuffer_free rb" "n \<le> length bs"
  then show "\<exists>rb'. dvb_ringbuffer_write rb bs n = Some (int n, rb') \<and> rb_wf rb' \<and> rb_bytes rb' = rb_bytes rb @ take n bs
      \<and> rb_size rb' - 1 = rb_size rb - 1"
    using rb_write_law [of rb n bs] by auto
next
  fix rb n
  assume "rb_wf rb" "int n \<le> dvb_ringbuffer_avail rb"
  then show "\<exists>rb'. dvb_ringbuffer_read rb n = Some (take n (rb_bytes rb), rb') \<and> rb_wf rb' \<and> rb_bytes rb' = drop n (rb_bytes rb)
      \<and> rb_size rb' - 1 = rb_size rb - 1"
    using rb_read_law [of rb n] by auto
qed (simp_all add: avail_count rb_free_law rb_flush_law)

section \<open>Packets\<close>

text \<open>The bytes of a packet with status \<open>fst\<close> and payload \<open>snd\<close>, and the view of a buffer as a
  sequence of such packets. A payload is not empty and its length fits the header.\<close>

definition enc_pkt :: "u8 \<times> u8 list \<Rightarrow> u8 list" where
  "enc_pkt pk = [word_of_nat (length (snd pk) div 256), word_of_nat (length (snd pk) mod 256), fst pk]
                @ snd pk"

definition pkt_ok :: "u8 \<times> u8 list \<Rightarrow> bool" where
  "pkt_ok pk \<longleftrightarrow> snd pk \<noteq> [] \<and> length (snd pk) < 65536 \<and> fst pk \<in> {PKT_READY, PKT_DISPOSED}"

definition enc_pkts :: "(u8 \<times> u8 list) list \<Rightarrow> u8 list" where
  "enc_pkts ps = concat (map enc_pkt ps)"

definition pkt_rep :: "dvb_ringbuffer \<Rightarrow> (u8 \<times> u8 list) list \<Rightarrow> bool" where
  "pkt_rep rb ps \<longleftrightarrow> rb_wf rb \<and> rb_bytes rb = enc_pkts ps \<and> list_all pkt_ok ps"

text \<open>Where the \<open>k\<close>-th packet starts, as an index of the array.\<close>

definition pkt_idx :: "dvb_ringbuffer \<Rightarrow> (u8 \<times> u8 list) list \<Rightarrow> nat \<Rightarrow> nat" where
  "pkt_idx rb ps k = (pread rb + length (enc_pkts (take k ps))) mod rb_size rb"

text \<open>The first packet from the \<open>k\<close>-th on that has not been disposed of.\<close>

definition next_ready :: "(u8 \<times> u8 list) list \<Rightarrow> nat \<Rightarrow> nat option" where
  "next_ready ps k = find (\<lambda>j. fst (ps ! j) = PKT_READY) [k..<length ps]"

lemma length_enc_pkt [simp]: "length (enc_pkt pk) = 3 + length (snd pk)"
  by (simp add: enc_pkt_def)

lemma enc_pkts_simps [simp]:
  "enc_pkts [] = []" "enc_pkts (pk # ps) = enc_pkt pk @ enc_pkts ps"
  "enc_pkts (ps @ qs) = enc_pkts ps @ enc_pkts qs"
  by (simp_all add: enc_pkts_def)

lemma pkt_len_eq: "pkt_len h l = unat h * 256 + unat l"
  using push_bit_or_nat [of "unat l" 8 "unat h"] unsigned_less [of l] by (simp add: pkt_len_def)

lemma pkt_len_enc:
  assumes "n < 65536"
  shows "pkt_len (word_of_nat (n div 256)) (word_of_nat (n mod 256)) = n"
proof -
  have "n div 256 < 256" using assms by (simp add: div_less_iff_less_mult)
  then have "unat (word_of_nat (n div 256) :: u8) = n div 256"
    by (simp add: unat_of_nat)
  moreover have "unat (word_of_nat (n mod 256) :: u8) = n mod 256"
    by (simp add: unat_of_nat)
  ultimately show ?thesis by (simp add: pkt_len_eq)
qed

lemma pkt_repD:
  assumes "pkt_rep rb ps"
  shows "rb_wf rb" "rb_bytes rb = enc_pkts ps" "rb_count rb = length (enc_pkts ps)"
    "\<And>k. k < length ps \<Longrightarrow> pkt_ok (ps ! k)"
  using assms length_rb_bytes [of rb] by (auto simp: pkt_rep_def list_all_length)

lemma peek_bytes:
  assumes "rb_wf rb" "i < rb_count rb"
  shows "rd (rb_data rb) ((pread rb + i) mod rb_size rb) = Some (rb_bytes rb ! i)"
  using assms rb_wfD [OF assms(1)] by (simp add: rb_bytes_def mem_simps)

text \<open>The byte at offset \<open>j\<close> of the \<open>k\<close>-th packet.\<close>

lemma enc_pkts_split:
  assumes "k < length ps"
  shows "enc_pkts ps = enc_pkts (take k ps) @ enc_pkt (ps ! k) @ enc_pkts (drop (Suc k) ps)"
  by (subst id_take_nth_drop [OF assms]) simp

lemma pkt_byte:
  assumes "pkt_rep rb ps" "k < length ps" "j < 3 + length (snd (ps ! k))"
  shows "rd (rb_data rb) ((pkt_idx rb ps k + j) mod rb_size rb) = Some (enc_pkt (ps ! k) ! j)"
proof -
  let ?o = "length (enc_pkts (take k ps))"
  note r = pkt_repD [OF assms(1)]
  have c: "?o + j < rb_count rb"
    using r(3) enc_pkts_split [OF assms(2)] assms(3) by simp
  have "rb_bytes rb ! (?o + j) = enc_pkt (ps ! k) ! j"
    using r(2) enc_pkts_split [OF assms(2)] assms(3) by (simp add: nth_append)
  moreover have "(pkt_idx rb ps k + j) mod rb_size rb = (pread rb + (?o + j)) mod rb_size rb"
    by (simp add: pkt_idx_def mod_add_left_eq add.assoc)
  ultimately show ?thesis using peek_bytes [OF r(1) c] by simp
qed

lemma pkt_header:
  assumes "pkt_rep rb ps" "k < length ps"
  defines "i \<equiv> pkt_idx rb ps k" and "n \<equiv> length (snd (ps ! k))"
  shows "rd (rb_data rb) i = Some (word_of_nat (n div 256))"
    and "modsize (i + 1) rb = Some ((i + 1) mod rb_size rb)"
    and "rd (rb_data rb) ((i + 1) mod rb_size rb) = Some (word_of_nat (n mod 256))"
    and "modsize (i + 2) rb = Some ((i + 2) mod rb_size rb)"
    and "rd (rb_data rb) ((i + 2) mod rb_size rb) = Some (fst (ps ! k))"
    and "pkt_len (word_of_nat (n div 256)) (word_of_nat (n mod 256)) = n"
proof -
  have wf: "rb_wf rb" using assms(1) by (simp add: pkt_rep_def)
  have "i mod rb_size rb = i" by (simp add: i_def pkt_idx_def)
  then show "rd (rb_data rb) i = Some (word_of_nat (n div 256))"
    using pkt_byte [OF assms(1,2), of 0] by (simp add: i_def n_def enc_pkt_def)
  show "rd (rb_data rb) ((i + 1) mod rb_size rb) = Some (word_of_nat (n mod 256))"
    using pkt_byte [OF assms(1,2), of 1] by (simp add: i_def n_def enc_pkt_def)
  show "rd (rb_data rb) ((i + 2) mod rb_size rb) = Some (fst (ps ! k))"
    using pkt_byte [OF assms(1,2), of 2] by (simp add: i_def n_def enc_pkt_def)
  show "pkt_len (word_of_nat (n div 256)) (word_of_nat (n mod 256)) = n"
    using pkt_repD(4) [OF assms(1,2)] by (intro pkt_len_enc) (simp add: pkt_ok_def n_def)
qed (use rb_wfD [of rb] assms(1) in \<open>simp_all add: modsize_def pkt_rep_def\<close>)

subsection \<open>Reading a packet\<close>

lemma split_read:
  assumes "rb_wf rb" "p < rb_size rb" "n \<le> rb_size rb"
  shows "(do { (b1, idx, todo) \<leftarrow>
                 (if rb_split rb p n > 0 then do {
                    b1 \<leftarrow> memrd (rb_data rb) p (rb_split rb p n);
                    Some (b1, 0, n - rb_split rb p n) }
                  else Some ([], p, n));
               b2 \<leftarrow> memrd (rb_data rb) idx todo;
               Some (int n, b1 @ b2) }) = Some (int n, rb_slice rb p n)"
proof (cases "p + n > rb_size rb")
  case True
  then show ?thesis
    using assms rb_wfD(1) [OF assms(1)] split_slice [OF assms True]
    by (simp add: rb_split_def mem_simps)
next
  case False
  then show ?thesis
    using assms rb_wfD(1) [OF assms(1)] rb_slice_linear [of p n rb]
    by (simp add: rb_split_def mem_simps)
qed

lemma pkt_payload_slice:
  assumes "pkt_rep rb ps" "k < length ps" "off + n \<le> length (snd (ps ! k))"
  shows "rb_slice rb (pkt_idx rb ps k + 3 + off) n = take n (drop off (snd (ps ! k)))"
proof (rule nth_equalityI)
  fix j assume "j < length (rb_slice rb (pkt_idx rb ps k + 3 + off) n)"
  then have j: "j < n" by simp
  have wf: "rb_wf rb" using assms(1) by (simp add: pkt_rep_def)
  have "rd (rb_data rb) ((pkt_idx rb ps k + (3 + off + j)) mod rb_size rb)
      = Some (enc_pkt (ps ! k) ! (3 + off + j))"
    using assms j by (intro pkt_byte) auto
  then have "rb_data rb ! ((pkt_idx rb ps k + (3 + off + j)) mod rb_size rb) = snd (ps ! k) ! (off + j)"
    by (simp add: rd_eq_Some_iff enc_pkt_def nth_append)
  then show "rb_slice rb (pkt_idx rb ps k + 3 + off) n ! j = take n (drop off (snd (ps ! k))) ! j"
    using assms(3) j by (simp add: add.assoc)
qed (use assms in simp)

lemma pkt_fits:
  assumes "pkt_rep rb ps" "k < length ps"
  shows "3 + length (snd (ps ! k)) < rb_size rb"
  using pkt_repD [OF assms(1)] rb_count_less [of rb] enc_pkts_split [OF assms(2)] by simp

lemma pkt_read_eq:
  assumes rep: "pkt_rep rb ps" and k: "k < length ps" and off: "0 \<le> offset" "offset < 2 ^ 31"
  defines "p \<equiv> snd (ps ! k)"
  shows "dvb_ringbuffer_pkt_read rb (pkt_idx rb ps k) offset len =
    Some (if nat offset > length p then (- EINVAL, [])
          else (int (min len (length p - nat offset)), take len (drop (nat offset) p)))"
proof -
  note h = pkt_header [OF rep k, folded p_def] and wf = pkt_repD(1) [OF rep]
  have off': "nat (to_u64 offset) = nat offset" using off by simp
  show ?thesis
  proof (cases "nat offset > length p")
    case True
    then show ?thesis using h by (simp add: dvb_ringbuffer_pkt_read_def off')
  next
    case False
    define n where "n = min len (length p - nat offset)"
    define i where "i = (pkt_idx rb ps k + 3 + nat offset) mod rb_size rb"
    have n: "(if nat offset + len > length p then length p - nat offset else len) = n"
      using False by (auto simp: n_def)
    have i: "i < rb_size rb" "n \<le> rb_size rb"
      using rb_wfD [OF wf] pkt_fits [OF rep k] by (auto simp: i_def p_def n_def)
    have "rb_slice rb i n = take n (drop (nat offset) p)"
      unfolding i_def rb_slice_mod p_def
      by (rule pkt_payload_slice [OF rep k]) (use False in \<open>auto simp: p_def n_def\<close>)
    also have "\<dots> = take len (drop (nat offset) p)"
      by (simp add: n_def min_def)
    finally have "rb_slice rb i n = take len (drop (nat offset) p)" .
    moreover have "modsize (pkt_idx rb ps k + 3 + nat offset) rb = Some i"
      using rb_wfD [OF wf] by (simp add: modsize_def i_def)
    ultimately show ?thesis
      using False split_read [OF wf i]
      by (simp only: dvb_ringbuffer_pkt_read_def Let_def off' h n n_def [symmetric] if_False
          Option.bind.simps)
  qed
qed

subsection \<open>Looking for a packet\<close>

lemma pkt_idx_Suc:
  assumes "pkt_rep rb ps" "k < length ps"
  shows "modsize (pkt_idx rb ps k + length (snd (ps ! k)) + 3) rb = Some (pkt_idx rb ps (Suc k))"
  using assms rb_wfD [of rb]
  by (simp add: modsize_def pkt_idx_def pkt_rep_def mod_add_left_eq take_Suc_conv_app_nth add.assoc
      add.commute [of "length (snd _)"])

lemma pkt_remaining:
  assumes "pkt_rep rb ps" "k \<le> length ps"
  shows "dvb_ringbuffer_avail rb - int (length (enc_pkts (take k ps))) > 3 \<longleftrightarrow> k < length ps"
proof -
  have "int (rb_count rb) = int (length (enc_pkts (take k ps))) + int (length (enc_pkts (drop k ps)))"
    using pkt_repD(3) [OF assms(1)] append_take_drop_id [of k ps]
    by (metis enc_pkts_simps(3) length_append of_nat_add)
  moreover have "length (enc_pkts (drop k ps)) > 3 \<longleftrightarrow> k < length ps"
  proof (cases "k < length ps")
    case True
    then show ?thesis
      using pkt_repD(4) [OF assms(1) True] by (simp add: Cons_nth_drop_Suc [symmetric] pkt_ok_def)
  qed simp
  ultimately show ?thesis using avail_count [of rb] assms(1) by (auto simp: pkt_rep_def)
qed

lemma next_ready_step:
  "k < length ps \<Longrightarrow> next_ready ps k = (if fst (ps ! k) = PKT_READY then Some k else next_ready ps (Suc k))"
  by (simp add: next_ready_def upt_conv_Cons)

definition pkt_found :: "dvb_ringbuffer \<Rightarrow> (u8 \<times> u8 list) list \<Rightarrow> nat option \<Rightarrow> int \<times> nat" where
  "pkt_found rb ps r =
     (case r of None \<Rightarrow> (- 1, 0) | Some j \<Rightarrow> (int (pkt_idx rb ps j), length (snd (ps ! j))))"

lemma pkt_search_eq:
  assumes "pkt_rep rb ps" "k \<le> length ps"
  shows "pkt_search rb (pkt_idx rb ps k) (int (length (enc_pkts (take k ps))))
           = Some (pkt_found rb ps (next_ready ps k))"
  using assms(2)
proof (induction "length ps - k" arbitrary: k)
  case 0
  then have "k = length ps" by simp
  then show ?case
    using pkt_remaining [OF assms(1), of k]
    by (subst pkt_search.simps) (simp add: pkt_found_def next_ready_def)
next
  case (Suc m)
  then have k: "k < length ps" by simp
  note h = pkt_header [OF assms(1) k]
  show ?case
  proof (cases "fst (ps ! k) = PKT_READY")
    case True
    then show ?thesis
      using pkt_remaining [OF assms(1), of k] h k
      by (subst pkt_search.simps) (simp add: pkt_found_def next_ready_step)
  next
    case False
    have "pkt_search rb (pkt_idx rb ps (Suc k)) (int (length (enc_pkts (take (Suc k) ps))))
        = Some (pkt_found rb ps (next_ready ps (Suc k)))"
      using Suc by (intro Suc.hyps(1)) auto
    then show ?thesis
      using False pkt_remaining [OF assms(1), of k] h k pkt_idx_Suc [OF assms(1) k]
      by (subst pkt_search.simps) (simp add: next_ready_step take_Suc_conv_app_nth algebra_simps)
  qed
qed

text \<open>The distance from the read pointer, as \<open>dvb_ringbuffer_pkt_next\<close> computes it, is the true one
  when the position has not gone round the end of the array, or when the size divides
  \<open>2 ^ 64\<close>.\<close>

lemma pkt_next_consumed:
  assumes "rb_wf rb" "m < rb_size rb" "rb_size rb \<le> 2 ^ 31"
    and "i = (pread rb + m) mod rb_size rb" "pread rb \<le> i \<or> rb_size rb dvd 2 ^ 64"
  shows "to_s32 (to_u64 (int i - int (pread rb)) mod int (rb_size rb)) = int m"
proof -
  note w = rb_wfD [OF assms(1)]
  have "to_u64 (int i - int (pread rb)) mod int (rb_size rb) = int m"
  proof (cases "pread rb \<le> i")
    case True
    then have "int i - int (pread rb) = int m"
      using assms(2,4) w by (auto simp: mod_once split: if_splits)
    then show ?thesis using assms(2,3) by (simp add: to_u64_def)
  next
    case False
    then have "int (rb_size rb) dvd 2 ^ 64"
      using assms(5) int_dvd_int_iff [of "rb_size rb" "2 ^ 64"] by simp
    then have "to_u64 (int i - int (pread rb)) mod int (rb_size rb)
        = (int i - int (pread rb)) mod int (rb_size rb)"
      by (simp add: to_u64_def mod_mod_cancel)
    moreover have "int i - int (pread rb) = int m - int (rb_size rb)"
      using False assms(2,4) w by (auto simp: mod_once split: if_splits)
    moreover have "(int m - int (rb_size rb)) mod int (rb_size rb) = int m"
      using assms(2) minus_mod_self2 [of "int m" "int (rb_size rb)"] by simp
    ultimately show ?thesis by simp
  qed
  then show ?thesis using assms(2,3) by simp
qed

lemma enc_pkts_take_less:
  assumes "pkt_rep rb ps"
  shows "length (enc_pkts (take k ps)) < rb_size rb"
proof -
  have "length (enc_pkts (take k ps)) \<le> length (enc_pkts ps)"
    by (metis append_take_drop_id enc_pkts_simps(3) le_add1 length_append)
  then show ?thesis using pkt_repD(1,3) [OF assms] rb_count_less [of rb] by simp
qed

subsection \<open>Disposing of a packet\<close>

lemma rb_bytes_upd:
  assumes "rb_wf rb" "j < rb_count rb"
  shows "rb_bytes (rb\<lparr>rb_data := (rb_data rb)[(pread rb + j) mod rb_size rb := x]\<rparr>) = (rb_bytes rb)[j := x]"
proof (rule nth_equalityI)
  let ?rb' = "rb\<lparr>rb_data := (rb_data rb)[(pread rb + j) mod rb_size rb := x]\<rparr>"
  have cnt: "rb_count ?rb' = rb_count rb" by (simp add: rb_count_def)
  then show "length (rb_bytes ?rb') = length ((rb_bytes rb)[j := x])" by simp
  fix i assume "i < length (rb_bytes ?rb')"
  then have i: "i < rb_count rb" by (simp add: cnt)
  note w = rb_wfD [OF assms(1)] and c = rb_count_less [OF assms(1)]
  show "rb_bytes ?rb' ! i = (rb_bytes rb)[j := x] ! i"
  proof (cases "i = j")
    case True
    then show ?thesis using i w unfolding rb_bytes_def cnt by simp
  next
    case False
    then have "(pread rb + j) mod rb_size rb \<noteq> (pread rb + i) mod rb_size rb"
      using mod_add_inj [of "pread rb" j "rb_size rb" i] i assms(2) c by auto
    then show ?thesis using False i w unfolding rb_bytes_def cnt by simp
  qed
qed

lemma pkt_mark_disposed:
  assumes rep: "pkt_rep rb ps" and k: "k < length ps"
  shows "pkt_rep (rb\<lparr>rb_data := (rb_data rb)[(pkt_idx rb ps k + 2) mod rb_size rb := PKT_DISPOSED]\<rparr>)
           (ps[k := (PKT_DISPOSED, snd (ps ! k))])"
proof -
  let ?o = "length (enc_pkts (take k ps))"
  note r = pkt_repD [OF rep]
  have idx: "(pkt_idx rb ps k + 2) mod rb_size rb = (pread rb + (?o + 2)) mod rb_size rb"
    unfolding pkt_idx_def by (simp only: mod_add_left_eq add.assoc)
  have "?o + 2 < rb_count rb" using r(3) enc_pkts_split [OF k] by simp
  then have "rb_bytes (rb\<lparr>rb_data := (rb_data rb)[(pkt_idx rb ps k + 2) mod rb_size rb := PKT_DISPOSED]\<rparr>)
      = (enc_pkts ps)[?o + 2 := PKT_DISPOSED]"
    unfolding idx using rb_bytes_upd [OF r(1), of "?o + 2" PKT_DISPOSED] r(2) by simp
  also have "\<dots> = enc_pkts (ps[k := (PKT_DISPOSED, snd (ps ! k))])"
    unfolding upd_conv_take_nth_drop [OF k]
    by (subst enc_pkts_split [OF k]) (simp add: list_update_append enc_pkt_def numeral_2_eq_2)
  finally show ?thesis
    using r(1,4) k by (auto simp: pkt_rep_def rb_wf_def list_all_length nth_list_update pkt_ok_def)
qed

lemma pkt_rep_skip:
  assumes "pkt_rep rb (pk # ps)"
  shows "DVB_RINGBUFFER_SKIP rb (length (snd pk) + 3)
      = Some (rb\<lparr>pread := (pread rb + (3 + length (snd pk))) mod rb_size rb\<rparr>)"
    and "pkt_rep (rb\<lparr>pread := (pread rb + (3 + length (snd pk))) mod rb_size rb\<rparr>) ps"
proof -
  note r = pkt_repD [OF assms]
  have n: "3 + length (snd pk) \<le> rb_count rb" using r(3) by simp
  show "DVB_RINGBUFFER_SKIP rb (length (snd pk) + 3)
      = Some (rb\<lparr>pread := (pread rb + (3 + length (snd pk))) mod rb_size rb\<rparr>)"
    using rb_wfD [OF r(1)] by (simp add: DVB_RINGBUFFER_SKIP_def modsize_def add.commute)
  show "pkt_rep (rb\<lparr>pread := (pread rb + (3 + length (snd pk))) mod rb_size rb\<rparr>) ps"
    using assms rb_bytes_skip [OF r(1) n] rb_wf_pread [OF r(1)] r(2)
    by (simp add: pkt_rep_def)
qed

lemma peek_header:
  assumes "pkt_rep rb (pk # ps)"
  shows "DVB_RINGBUFFER_PEEK rb 0 = Some (word_of_nat (length (snd pk) div 256))"
    and "DVB_RINGBUFFER_PEEK rb 1 = Some (word_of_nat (length (snd pk) mod 256))"
    and "DVB_RINGBUFFER_PEEK rb 2 = Some (fst pk)"
  using pkt_byte [OF assms, of 0 0] pkt_byte [OF assms, of 0 1] pkt_byte [OF assms, of 0 2]
    rb_wfD [of rb] pkt_repD(1) [OF assms]
  by (simp_all add: DVB_RINGBUFFER_PEEK_def modsize_def pkt_idx_def enc_pkt_def)

text \<open>The clean-up loop ends and removes exactly the leading disposed packets.\<close>

lemma pkt_clean_eq:
  "pkt_rep rb ps \<Longrightarrow>
     \<exists>rb'. pkt_clean rb = Some rb' \<and> pkt_rep rb' (dropWhile (\<lambda>pk. fst pk = PKT_DISPOSED) ps)
         \<and> rb_size rb' = rb_size rb \<and> rb_data rb' = rb_data rb \<and> pwrite rb' = pwrite rb"
proof (induction ps arbitrary: rb)
  case Nil
  then show ?case
    using pkt_remaining [OF Nil, of 0] by (subst pkt_clean.simps) simp
next
  case (Cons pk ps)
  have av: "dvb_ringbuffer_avail rb > 3" using pkt_remaining [OF Cons.prems, of 0] by simp
  have len: "length (snd pk) < 65536" using pkt_repD(4) [OF Cons.prems, of 0] by (simp add: pkt_ok_def)
  show ?case
  proof (cases "fst pk = PKT_DISPOSED")
    case True
    obtain rb' where "pkt_clean (rb\<lparr>pread := (pread rb + (3 + length (snd pk))) mod rb_size rb\<rparr>) = Some rb'"
        "pkt_rep rb' (dropWhile (\<lambda>pk. fst pk = PKT_DISPOSED) ps)"
        "rb_size rb' = rb_size rb \<and> rb_data rb' = rb_data rb \<and> pwrite rb' = pwrite rb"
      using Cons.IH [OF pkt_rep_skip(2) [OF Cons.prems]] by auto
    then show ?thesis
      using True av peek_header [OF Cons.prems] pkt_rep_skip(1) [OF Cons.prems] pkt_len_enc [OF len]
      by (subst pkt_clean.simps) simp
  next
    case False
    then show ?thesis
      using av peek_header [OF Cons.prems] Cons.prems by (subst pkt_clean.simps) simp
  qed
qed

subsection \<open>Writing a packet\<close>

lemma write_byte_law:
  assumes wf: "rb_wf rb" and room: "rb_count rb + 1 < rb_size rb"
  shows "\<exists>rb'. DVB_RINGBUFFER_WRITE_BYTE rb b = Some rb' \<and> rb_wf rb' \<and> rb_bytes rb' = rb_bytes rb @ [b]
           \<and> rb_size rb' = rb_size rb \<and> pread rb' = pread rb"
proof -
  note w = rb_wfD [OF wf]
  have "(rb_data rb)[pwrite rb := b] = ring_upd (rb_data rb) (pwrite rb) [b]"
    using ring_upd_linear [of "pwrite rb" "[b]" "rb_data rb"] w by (simp add: upd_conv_take_nth_drop)
  then have "DVB_RINGBUFFER_WRITE_BYTE rb b =
      Some (rb\<lparr>rb_data := ring_upd (rb_data rb) (pwrite rb) [b],
               pwrite := (pwrite rb + length [b]) mod rb_size rb\<rparr>)"
    using w by (simp add: DVB_RINGBUFFER_WRITE_BYTE_def mem_simps modsize_def)
  then show ?thesis using rb_bytes_ring_upd [OF wf, of "[b]"] room by auto
qed

lemma write_law_frame:
  assumes "rb_wf rb" "rb_count rb + length bs < rb_size rb"
  shows "\<exists>rb'. dvb_ringbuffer_write rb bs (length bs) = Some (int (length bs), rb') \<and> rb_wf rb'
           \<and> rb_bytes rb' = rb_bytes rb @ bs \<and> rb_size rb' = rb_size rb \<and> pread rb' = pread rb"
  using write_eq [OF assms(1), of "length bs" bs] rb_bytes_ring_upd [OF assms] assms(2) by auto

lemma pkt_write_eq:
  assumes rep: "pkt_rep rb ps" and p: "p \<noteq> []" "length p < 65536"
    and room: "int (length p) + 3 \<le> dvb_ringbuffer_free rb"
  shows "\<exists>rb'. dvb_ringbuffer_pkt_write rb p (length p) = Some (int (length p), rb')
           \<and> pkt_rep rb' (ps @ [(PKT_READY, p)]) \<and> rb_size rb' = rb_size rb \<and> pread rb' = pread rb"
proof -
  let ?h = "word_of_nat (length p div 256) :: u8" and ?l = "word_of_nat (length p mod 256) :: u8"
  note r = pkt_repD [OF rep]
  have room': "rb_count rb + (3 + length p) < rb_size rb" using room r(1) by (simp add: free_count)
  obtain rb1 where 1: "DVB_RINGBUFFER_WRITE_BYTE rb ?h = Some rb1" "rb_wf rb1"
      "rb_bytes rb1 = rb_bytes rb @ [?h]" "rb_size rb1 = rb_size rb" "pread rb1 = pread rb"
    using write_byte_law [OF r(1), of ?h] room' by auto
  then have c1: "rb_count rb1 = rb_count rb + 1" using length_rb_bytes [of rb1] by simp
  obtain rb2 where 2: "DVB_RINGBUFFER_WRITE_BYTE rb1 ?l = Some rb2" "rb_wf rb2"
      "rb_bytes rb2 = rb_bytes rb1 @ [?l]" "rb_size rb2 = rb_size rb1" "pread rb2 = pread rb1"
    using write_byte_law [OF 1(2), of ?l] room' c1 1(4) by auto
  then have c2: "rb_count rb2 = rb_count rb + 2" using length_rb_bytes [of rb2] c1 by simp
  obtain rb3 where 3: "DVB_RINGBUFFER_WRITE_BYTE rb2 PKT_READY = Some rb3" "rb_wf rb3"
      "rb_bytes rb3 = rb_bytes rb2 @ [PKT_READY]" "rb_size rb3 = rb_size rb2" "pread rb3 = pread rb2"
    using write_byte_law [OF 2(2), of PKT_READY] room' c2 1(4) 2(4) by auto
  then have c3: "rb_count rb3 = rb_count rb + 3" using length_rb_bytes [of rb3] c2 by simp
  obtain rb4 where 4: "dvb_ringbuffer_write rb3 p (length p) = Some (int (length p), rb4)" "rb_wf rb4"
      "rb_bytes rb4 = rb_bytes rb3 @ p" "rb_size rb4 = rb_size rb3" "pread rb4 = pread rb3"
    using write_law_frame [OF 3(2), of p] room' c3 1(4) 2(4) 3(4) by auto
  have "length p AND 255 = length p mod 256"
    using take_bit_eq_mask [of 8 "length p"] by (simp add: take_bit_eq_mod mask_eq_exp_minus_1)
  moreover have "drop_bit 8 (length p) = length p div 256" by (simp add: drop_bit_eq_div)
  moreover have "\<not> to_s32 (int (length p)) < 0" "to_s32 (int (length p)) = int (length p)"
    using p(2) by simp_all
  ultimately have "dvb_ringbuffer_pkt_write rb p (length p) = Some (int (length p), rb4)"
    using 1(1) 2(1) 3(1) 4(1) by (simp add: dvb_ringbuffer_pkt_write_def)
  moreover have "pkt_rep rb4 (ps @ [(PKT_READY, p)])"
    using rep 1(3) 2(3) 3(3) 4(2,3) p by (simp add: pkt_rep_def enc_pkt_def pkt_ok_def)
  ultimately show ?thesis using 1(4,5) 2(4,5) 3(4,5) 4(4,5) by auto
qed

lemma pkt_idx_append: "k \<le> length ps \<Longrightarrow> pkt_idx rb (ps @ qs) k = pkt_idx rb ps k"
  by (simp add: pkt_idx_def)

lemma pkt_idx_frame: "rb_size rb' = rb_size rb \<Longrightarrow> pread rb' = pread rb \<Longrightarrow> pkt_idx rb' ps k = pkt_idx rb ps k"
  by (simp add: pkt_idx_def)

subsection \<open>Reading to user space\<close>

definition rb_adv :: "dvb_ringbuffer \<Rightarrow> nat \<Rightarrow> dvb_ringbuffer" where
  "rb_adv rb n = rb\<lparr>pread := (pread rb + n) mod rb_size rb\<rparr>"

lemma rb_adv_bytes:
  "rb_wf rb \<Longrightarrow> n \<le> rb_count rb \<Longrightarrow> rb_wf (rb_adv rb n) \<and> rb_bytes (rb_adv rb n) = drop n (rb_bytes rb)"
  by (simp add: rb_adv_def rb_wf_pread rb_bytes_skip)

lemma rb_split_le: "rb_wf rb \<Longrightarrow> rb_split rb (pread rb) len \<le> len"
  by (auto simp: rb_split_def)

lemma read_user_eq:
  assumes wf: "rb_wf rb" and len: "len \<le> rb_size rb"
  defines "s \<equiv> rb_split rb (pread rb) len"
  shows "dvb_ringbuffer_read_user uok rb len = Some
      (if s = 0 then
         if uok 0 len then (int len, rb_slice rb (pread rb) len, rb_adv rb len) else (- EFAULT, [], rb)
       else if \<not> uok 0 s then (- EFAULT, [], rb)
       else if \<not> uok s (len - s) then (- EFAULT, rb_slice rb (pread rb) s, rb_adv rb s)
       else (int len, rb_slice rb (pread rb) len, rb_adv rb len))"
proof (cases "pread rb + len > rb_size rb")
  case True
  note w = rb_wfD [OF wf]
  have s: "s = rb_size rb - pread rb" "0 < s" using True w by (auto simp: s_def rb_split_def)
  have "(len - s) mod rb_size rb = (pread rb + len) mod rb_size rb"
    using True len w s by (simp add: mod_once)
  moreover have "take s (drop (pread rb) (rb_data rb)) = rb_slice rb (pread rb) s"
    using s w by (intro rb_slice_linear) auto
  ultimately show ?thesis
    using True len w s split_slice [OF wf w(2) len True]
    by (simp add: dvb_ringbuffer_read_user_def s_def [symmetric] mem_simps modsize_def rb_adv_def)
next
  case False
  note w = rb_wfD [OF wf]
  have "s = 0" using False by (simp add: s_def rb_split_def)
  then show ?thesis
    using False w rb_slice_linear [of "pread rb" len rb]
    by (simp add: dvb_ringbuffer_read_user_def s_def [symmetric] mem_simps modsize_def rb_adv_def)
qed

section \<open>Properties\<close>

text \<open>C2: a well-formed ring buffer of \<open>n\<close> bytes is a queue for \<open>n - 1\<close> bytes. Whatever the interleaving of writes and reads, each
  with its guard, and of flushes, no operation leaves the array, and every call gives what the queue gives: a write is accepted
  exactly if its bytes fit and then returns their number, a read is accepted exactly if the bytes are there and then delivers the oldest
  ones, and at the end the buffer holds what the queue holds.\<close>

theorem ringbuffer_fifo:
  assumes "rb_wf rb"
  shows "\<exists>rb'. rb_run dvb_ringbuffer_free dvb_ringbuffer_avail dvb_ringbuffer_write dvb_ringbuffer_read dvb_ringbuffer_flush ops rb
        = Some (fst (queue_run (rb_size rb - 1) ops (rb_bytes rb)), rb')
      \<and> rb_wf rb' \<and> rb_bytes rb' = snd (queue_run (rb_size rb - 1) ops (rb_bytes rb))"
  using assms by (rule ringbuffer.run_refines)

theorem ringbuffer_fifo_witness:
  "\<exists>rb'. rb_run dvb_ringbuffer_free dvb_ringbuffer_avail dvb_ringbuffer_write dvb_ringbuffer_read dvb_ringbuffer_flush
        [Put [1, 2, 3], Get 2, Put [4, 5, 6], Put [7], Get 3, Get 2] (dvb_ringbuffer_init (replicate 5 0) 5)
        = Some ([Wrote 3, Read [1, 2], Wrote 3, Refused, Read [3, 4, 5], Refused], rb')
      \<and> rb_wf rb' \<and> rb_bytes rb' = [6]"
proof -
  let ?rb = "dvb_ringbuffer_init (replicate 5 0) 5"
  have "rb_wf ?rb" "rb_bytes ?rb = []" "rb_size ?rb = 5"
    by (simp_all add: rb_wf_def dvb_ringbuffer_init_def rb_bytes_def rb_count_def)
  then show ?thesis
    using ringbuffer_fifo [of ?rb "[Put [1, 2, 3], Get 2, Put [4, 5, 6], Put [7], Get 3, Get 2]"] by simp
qed

text \<open>C32: \<open>dvb_ringbuffer_read_user\<close> on every branch. With both copies successful it delivers the
  first \<open>len\<close> bytes and removes them. If the first copy faults the buffer is unchanged. If only
  the second copy of a transfer that goes round the end faults, \<open>-EFAULT\<close> is returned although
  the bytes of the first copy have already been removed from the buffer.\<close>

theorem ringbuffer_read_user_cases:
  assumes wf: "rb_wf rb" and len: "int len \<le> dvb_ringbuffer_avail rb"
  defines "s \<equiv> rb_split rb (pread rb) len"
  shows "dvb_ringbuffer_read_user uok rb len = Some
      (if s = 0 then
         if uok 0 len then (int len, take len (rb_bytes rb), rb_adv rb len) else (- EFAULT, [], rb)
       else if \<not> uok 0 s then (- EFAULT, [], rb)
       else if \<not> uok s (len - s) then (- EFAULT, take s (rb_bytes rb), rb_adv rb s)
       else (int len, take len (rb_bytes rb), rb_adv rb len))
    \<and> (\<forall>n\<le>len. rb_wf (rb_adv rb n) \<and> rb_bytes (rb_adv rb n) = drop n (rb_bytes rb))"
proof -
  have n: "len \<le> rb_count rb" using wf len by (simp add: avail_count)
  then have "len \<le> rb_size rb" using rb_count_less [OF wf] by simp
  then show ?thesis
    using read_user_eq [OF wf, of len uok] rb_adv_bytes [OF wf] n
      rb_slice_bytes [of 0 len rb] rb_slice_bytes [of 0 s rb] rb_split_le [OF wf, of len]
    by (simp add: s_def)
qed

theorem ringbuffer_read_user_cases_witness:
  "let rb = \<lparr>rb_data = [3, 9, 9, 1, 2], rb_size = 5, pread = 3, pwrite = 1, rb_error = 0\<rparr>
   in rb_wf rb \<and> int 3 \<le> dvb_ringbuffer_avail rb \<and> rb_split rb (pread rb) 3 = 2
      \<and> dvb_ringbuffer_read_user (\<lambda>off n. off = 0) rb 3 = Some (- EFAULT, [1, 2], rb_adv rb 2)"
proof -
  let ?rb = "\<lparr>rb_data = [3, 9, 9, 1, 2], rb_size = 5, pread = 3, pwrite = 1, rb_error = 0\<rparr>"
  have "rb_wf ?rb" "int 3 \<le> dvb_ringbuffer_avail ?rb" "rb_split ?rb 3 3 = 2"
    "take 2 (rb_bytes ?rb) = [1, 2]"
    by (simp_all add: rb_wf_def dvb_ringbuffer_avail_def rb_split_def rb_bytes_def rb_slice_def
        rb_count_def upt_rec)
  then show ?thesis
    using ringbuffer_read_user_cases [of ?rb 3 "\<lambda>off n. off = 0"] by simp
qed

text \<open>C11: a packet written with \<open>dvb_ringbuffer_pkt_write\<close> is appended to the packets of the buffer,
  and \<open>dvb_ringbuffer_pkt_read\<close> at its index returns any part of its payload from any offset
  within it (cut at the end of the payload) without touching the buffer, while an offset past
  the end is refused with \<open>-EINVAL\<close>.\<close>

theorem pkt_write_read_roundtrip:
  assumes "pkt_rep rb ps" "p \<noteq> []" "length p < 65536"
    and "int (length p) + 3 \<le> dvb_ringbuffer_free rb" and "0 \<le> offset" "offset < 2 ^ 31"
  shows "\<exists>rb'. dvb_ringbuffer_pkt_write rb p (length p) = Some (int (length p), rb')
    \<and> pkt_rep rb' (ps @ [(PKT_READY, p)])
    \<and> dvb_ringbuffer_pkt_read rb' (pkt_idx rb ps (length ps)) offset len =
        Some (if nat offset > length p then (- EINVAL, [])
              else (int (min len (length p - nat offset)), take len (drop (nat offset) p)))"
proof -
  obtain rb' where rb': "dvb_ringbuffer_pkt_write rb p (length p) = Some (int (length p), rb')"
      "pkt_rep rb' (ps @ [(PKT_READY, p)])" "rb_size rb' = rb_size rb" "pread rb' = pread rb"
    using pkt_write_eq [OF assms(1-4)] by auto
  have "pkt_idx rb' (ps @ [(PKT_READY, p)]) (length ps) = pkt_idx rb ps (length ps)"
    using pkt_idx_append [of "length ps" ps] pkt_idx_frame [OF rb'(3,4)] by simp
  then have "dvb_ringbuffer_pkt_read rb' (pkt_idx rb ps (length ps)) offset len =
        Some (if nat offset > length p then (- EINVAL, [])
              else (int (min len (length p - nat offset)), take len (drop (nat offset) p)))"
    using pkt_read_eq [OF rb'(2) _ assms(5,6), of "length ps" len] by (simp del: min_def)
  then show ?thesis using rb'(1,2) by blast
qed

lemma pkt_rep_init: "0 < n \<Longrightarrow> pkt_rep (dvb_ringbuffer_init (replicate n 0) n) []"
  by (simp add: pkt_rep_def rb_wf_def dvb_ringbuffer_init_def rb_bytes_def rb_count_def)

theorem pkt_write_read_roundtrip_witness:
  "\<exists>rb'. dvb_ringbuffer_pkt_write (dvb_ringbuffer_init (replicate 16 0) 16) [10, 20, 30] 3 = Some (3, rb')
     \<and> pkt_rep rb' [(PKT_READY, [10, 20, 30])]
     \<and> dvb_ringbuffer_pkt_read rb' 0 1 8 = Some (2, [20, 30])"
proof -
  let ?rb = "dvb_ringbuffer_init (replicate 16 0) 16"
  have rep: "pkt_rep ?rb []" by (rule pkt_rep_init) simp
  have free: "dvb_ringbuffer_free ?rb = 15" and idx: "pkt_idx ?rb [] 0 = 0"
    by (simp_all add: dvb_ringbuffer_free_def dvb_ringbuffer_init_def pkt_idx_def)
  show ?thesis
    using pkt_write_read_roundtrip [OF rep, of "[10, 20, 30]" 1 8] free idx
    by (simp add: numeral_3_eq_3)
qed

text \<open>C28: \<open>dvb_ringbuffer_pkt_next\<close> returns, and finds the first packet that is ready: from the start
  when asked with -1, else the first after the given packet, as long as the position after that
  packet has not gone round the end of the array or the size of the buffer divides \<open>2 ^ 64\<close>. It
  returns -1 exactly when there is none.\<close>

theorem pkt_next_correct:
  assumes rep: "pkt_rep rb ps" and size: "rb_size rb \<le> 2 ^ 31"
  shows "dvb_ringbuffer_pkt_next rb (2 ^ 64 - 1) = Some (pkt_found rb ps (next_ready ps 0))
    \<and> (k < length ps \<and> (pread rb \<le> pkt_idx rb ps (Suc k) \<or> rb_size rb dvd 2 ^ 64) \<longrightarrow>
        dvb_ringbuffer_pkt_next rb (pkt_idx rb ps k) = Some (pkt_found rb ps (next_ready ps (Suc k))))"
proof (intro conjI impI)
  note wf = pkt_repD(1) [OF rep]
  have first: "pkt_idx rb ps 0 = pread rb" using rb_wfD [OF wf] by (simp add: pkt_idx_def)
  show "dvb_ringbuffer_pkt_next rb (2 ^ 64 - 1) = Some (pkt_found rb ps (next_ready ps 0))"
    using pkt_search_eq [OF rep, of 0] rb_wfD [OF wf] first
    by (simp add: dvb_ringbuffer_pkt_next_def)
  assume k: "k < length ps \<and> (pread rb \<le> pkt_idx rb ps (Suc k) \<or> rb_size rb dvd 2 ^ 64)"
  have "pkt_idx rb ps k < 2 ^ 31"
    using rb_wfD [OF wf] size by (auto simp: pkt_idx_def intro: less_le_trans [OF mod_less_divisor])
  then have "pkt_idx rb ps k \<noteq> 2 ^ 64 - 1" by simp
  moreover have "to_s32 (to_u64 (int (pkt_idx rb ps (Suc k)) - int (pread rb)) mod int (rb_size rb))
      = int (length (enc_pkts (take (Suc k) ps)))"
    using k size by (intro pkt_next_consumed [OF wf enc_pkts_take_less [OF rep]]) (auto simp: pkt_idx_def)
  ultimately show "dvb_ringbuffer_pkt_next rb (pkt_idx rb ps k)
      = Some (pkt_found rb ps (next_ready ps (Suc k)))"
    using pkt_search_eq [OF rep, of "Suc k"] k rb_wfD [OF wf] pkt_header [OF rep, of k]
      pkt_idx_Suc [OF rep, of k]
    by (simp add: dvb_ringbuffer_pkt_next_def)
qed

theorem pkt_next_correct_witness:
  "let rb = \<lparr>rb_data = [0, 1, 0, 7, 0, 1, 1, 8, 0, 1, 0, 9, 0], rb_size = 13, pread = 0, pwrite = 12,
             rb_error = 0\<rparr>
   in dvb_ringbuffer_pkt_next rb (2 ^ 64 - 1) = Some (0, 1) \<and> dvb_ringbuffer_pkt_next rb 0 = Some (8, 1)"
proof -
  let ?rb = "\<lparr>rb_data = [0, 1, 0, 7, 0, 1, 1, 8, 0, 1, 0, 9, 0], rb_size = 13, pread = 0, pwrite = 12,
              rb_error = 0\<rparr>"
  let ?ps = "[(0, [7]), (1, [8]), (0, [9])] :: (u8 \<times> u8 list) list"
  have rep: "pkt_rep ?rb ?ps"
    by (simp add: pkt_rep_def rb_wf_def rb_bytes_def rb_slice_def rb_count_def upt_rec enc_pkt_def
        pkt_ok_def)
  have "next_ready ?ps 0 = Some 0" "next_ready ?ps (Suc 0) = Some 2"
    by (simp_all add: next_ready_def upt_rec numeral_2_eq_2)
  moreover have "pkt_idx ?rb ?ps 0 = 0" "pkt_idx ?rb ?ps (Suc 0) = 4" "pkt_idx ?rb ?ps 2 = 8"
    by (simp_all add: pkt_idx_def numeral_2_eq_2)
  ultimately show ?thesis
    using pkt_next_correct [OF rep, of 0] by (simp add: pkt_found_def)
qed

text \<open>Outside that condition \<open>dvb_ringbuffer_pkt_next\<close> can miss a packet. In a buffer of 12 bytes
  whose second packet starts again at index 0, the unsigned difference \<open>idx - pread\<close> wraps modulo
  \<open>2 ^ 64\<close>, its remainder is not the distance from the read pointer, and the ready second packet
  is not found.\<close>

theorem pkt_next_misses_packet:
  "\<exists>rb ps k. pkt_rep rb ps \<and> rb_size rb \<le> 2 ^ 31 \<and> k < length ps \<and> next_ready ps (Suc k) = Some (Suc k)
     \<and> dvb_ringbuffer_pkt_next rb (pkt_idx rb ps k) = Some (- 1, 0)"
proof -
  let ?rb = "\<lparr>rb_data = [0, 1, 0, 9, 0, 0, 0, 0, 0, 1, 0, 7], rb_size = 12, pread = 8, pwrite = 4,
              rb_error = 0\<rparr>"
  let ?ps = "[(0, [7]), (0, [9])] :: (u8 \<times> u8 list) list"
  have "pkt_rep ?rb ?ps"
    by (simp add: pkt_rep_def rb_wf_def rb_bytes_def rb_slice_def rb_count_def upt_rec enc_pkt_def
        pkt_ok_def)
  moreover have "next_ready ?ps (Suc 0) = Some (Suc 0)" by (simp add: next_ready_def upt_rec)
  moreover have "dvb_ringbuffer_pkt_next ?rb (pkt_idx ?rb ?ps 0) = Some (- 1, 0)"
    by (simp add: dvb_ringbuffer_pkt_next_def pkt_idx_def rd_def modsize_def pkt_len_eq to_u64_def
        to_s32_def dvb_ringbuffer_avail_def pkt_search.simps)
  ultimately show ?thesis by (intro exI [of _ ?rb] exI [of _ ?ps] exI [of _ 0]) simp
qed

text \<open>C12: \<open>dvb_ringbuffer_pkt_dispose\<close> of any packet returns; it marks that packet and removes exactly
  the disposed packets at the head of the buffer, keeping all the others.\<close>

theorem pkt_dispose_correct:
  assumes "pkt_rep rb ps" "k < length ps"
  shows "\<exists>rb'. dvb_ringbuffer_pkt_dispose rb (pkt_idx rb ps k) = Some rb'
    \<and> pkt_rep rb' (dropWhile (\<lambda>pk. fst pk = PKT_DISPOSED) (ps[k := (PKT_DISPOSED, snd (ps ! k))]))"
proof -
  have "(pkt_idx rb ps k + 2) mod rb_size rb < length (rb_data rb)"
    using rb_wfD [OF pkt_repD(1) [OF assms(1)]] by simp
  then show ?thesis
    using pkt_clean_eq [OF pkt_mark_disposed [OF assms]] pkt_header(4) [OF assms]
    by (auto simp: dvb_ringbuffer_pkt_dispose_def mem_simps)
qed

theorem pkt_dispose_correct_witness:
  "let rb = \<lparr>rb_data = [0, 1, 0, 7, 0, 1, 1, 8, 0, 1, 0, 9, 0], rb_size = 13, pread = 0, pwrite = 12,
             rb_error = 0\<rparr>
   in \<exists>rb'. dvb_ringbuffer_pkt_dispose rb 0 = Some rb' \<and> pkt_rep rb' [(0, [9])]"
proof -
  let ?rb = "\<lparr>rb_data = [0, 1, 0, 7, 0, 1, 1, 8, 0, 1, 0, 9, 0], rb_size = 13, pread = 0, pwrite = 12,
              rb_error = 0\<rparr>"
  let ?ps = "[(0, [7]), (1, [8]), (0, [9])] :: (u8 \<times> u8 list) list"
  have rep: "pkt_rep ?rb ?ps"
    by (simp add: pkt_rep_def rb_wf_def rb_bytes_def rb_slice_def rb_count_def upt_rec enc_pkt_def
        pkt_ok_def)
  moreover have "pkt_idx ?rb ?ps 0 = 0" by (simp add: pkt_idx_def)
  ultimately show ?thesis using pkt_dispose_correct [OF rep, of 0] by simp
qed

end
