(* ===== verification/Dvb_Demux.thy ===== *)
theory Dvb_Demux
  imports Dvb_Prelude
begin

text \<open>
  The data path of the software demultiplexer, \<open>dvb-core/dvb_demux.c\<close> with the structures of
  \<open>dvb_demux.h\<close> and \<open>demux.h\<close>: from the byte stream of a tuner to transport stream packets, and
  from packets to the payloads, packets and sections handed to the clients.

  A pointer to a feed or to a filter is its index in the array of the demux, a NULL pointer is
  \<open>None\<close>; the pointer \<open>secbuf\<close> into \<open>secbuf_base\<close> is its offset. The union \<open>feed\<close> keeps
  \<open>is_filtering\<close> as the common first member of both variants, and the members of the section
  variant. A transport stream packet is passed as the list of its 188 bytes, taken out of the
  caller's buffer with a bounds check. Spinlocks, which the single-threaded model does not need,
  are left out; so are messages.

  The outside world has type \<open>'w\<close>. What the clients and the driver do is the record \<open>dmx_env\<close>:
  the callbacks of a feed, the optional decoder, start and stop functions of the driver, the
  kernel's \<open>crc32_be\<close> and clock, and the two module parameters.
\<close>

section \<open>Data\<close>

datatype dmx_state = DMX_STATE_FREE | DMX_STATE_ALLOCATED | DMX_STATE_SET | DMX_STATE_READY
  | DMX_STATE_GO

datatype dmx_type = DMX_TYPE_TS | DMX_TYPE_SEC | DMX_TYPE_PES

text \<open>The states are numbered in this order in the code, which compares them with \<open><\<close>.\<close>

instantiation dmx_state :: linorder
begin

primrec dmx_state_num :: "dmx_state \<Rightarrow> nat" where
  "dmx_state_num DMX_STATE_FREE = 0"
| "dmx_state_num DMX_STATE_ALLOCATED = 1"
| "dmx_state_num DMX_STATE_SET = 2"
| "dmx_state_num DMX_STATE_READY = 3"
| "dmx_state_num DMX_STATE_GO = 4"

definition less_eq_dmx_state :: "dmx_state \<Rightarrow> dmx_state \<Rightarrow> bool" where
  "less_eq_dmx_state a b \<longleftrightarrow> dmx_state_num a \<le> dmx_state_num b"

definition less_dmx_state :: "dmx_state \<Rightarrow> dmx_state \<Rightarrow> bool" where
  "less_dmx_state a b \<longleftrightarrow> dmx_state_num a < dmx_state_num b"

instance
proof
  fix x y :: dmx_state
  show "x \<le> y \<Longrightarrow> y \<le> x \<Longrightarrow> x = y"
    by (cases x; cases y) (simp_all add: less_eq_dmx_state_def)
qed (auto simp: less_eq_dmx_state_def less_dmx_state_def)

end

abbreviation (input) DVB_DEMUX_MASK_MAX :: nat where "DVB_DEMUX_MASK_MAX \<equiv> 18"
abbreviation (input) DMX_MAX_SECTION_SIZE :: nat where "DMX_MAX_SECTION_SIZE \<equiv> 4096"
abbreviation (input) DMX_MAX_SECFEED_SIZE :: nat where "DMX_MAX_SECFEED_SIZE \<equiv> 4284"
abbreviation (input) MAX_PID :: nat where "MAX_PID \<equiv> 0x1fff"
abbreviation (input) DMX_MAX_PID :: nat where "DMX_MAX_PID \<equiv> 0x2000"
abbreviation (input) SPEED_PKTS_INTERVAL :: u32 where "SPEED_PKTS_INTERVAL \<equiv> 50000"
abbreviation (input) TS_PACKET :: u32 where "TS_PACKET \<equiv> 1"
abbreviation (input) TS_PAYLOAD_ONLY :: u32 where "TS_PAYLOAD_ONLY \<equiv> 2"
abbreviation (input) TS_DECODER :: u32 where "TS_DECODER \<equiv> 4"
abbreviation (input) TS_DEMUX :: u32 where "TS_DEMUX \<equiv> 8"
abbreviation (input) DMX_TS_PES_OTHER :: nat where "DMX_TS_PES_OTHER \<equiv> 20"

record dmx_section_filter =
  filter_value :: "u8 list"
  filter_mask :: "u8 list"
  filter_mode :: "u8 list"

record dvb_demux_filter = dmx_section_filter +
  maskandmode :: "u8 list"
  maskandnotmode :: "u8 list"
  doneq :: bool
  flt_next :: "nat option"
  flt_feed :: "nat option"
  flt_state :: dmx_state
  flt_type :: dmx_type

record dmx_section_feed =
  is_filtering :: bool
  check_crc :: bool
  crc_val :: u32
  secbuf :: nat
  secbuf_base :: "u8 list"
  secbufp :: nat
  seclen :: nat
  tsfeedp :: nat

record dvb_demux_feed = dmx_section_feed +
  fd_type :: dmx_type
  fd_state :: dmx_state
  pid :: nat
  buffer_size :: int
  fd_filter :: "nat option"
  ts_type :: u32
  pes_type :: nat
  cc :: int
  pusi_seen :: bool
  peslen :: u16

record dvb_demux =
  dmx_filter :: "dvb_demux_filter list"
  dmx_feed :: "dvb_demux_feed list"
  users :: int
  frontend_list :: "nat list"
  frontend :: "nat option"
  pesfilter :: "nat option list"
  pids :: "nat list"
  feed_list :: "nat list"
  tsbuf :: "u8 list"
  tsbufp :: nat
  mutex :: bool
  cnt_storage :: "u8 list option"
  speed_last_time :: "int \<times> int"
  speed_pkts_cnt :: u32

record 'w dmx_env =
  crc32_be :: "u32 \<Rightarrow> u8 list \<Rightarrow> u32"
  cb_ts :: "nat \<Rightarrow> u8 list \<Rightarrow> 'w \<Rightarrow> int \<times> 'w"
  cb_sec :: "nat \<Rightarrow> u8 list \<Rightarrow> 'w \<Rightarrow> int \<times> 'w"
  write_to_decoder :: "(nat \<Rightarrow> u8 list \<Rightarrow> 'w \<Rightarrow> 'w) option"
  start_feed :: "(nat \<Rightarrow> 'w \<Rightarrow> int \<times> 'w) option"
  stop_feed :: "(nat \<Rightarrow> 'w \<Rightarrow> int \<times> 'w) option"
  dvb_demux_tscheck :: bool
  dvb_demux_speedcheck :: bool
  current_kernel_time :: "'w \<Rightarrow> int \<times> int"

section \<open>Packet and section headers\<close>

definition section_length :: "u8 \<Rightarrow> u8 \<Rightarrow> nat" where
  "section_length b1 b2 = 3 + push_bit 8 (unat (b1 AND 0x0f)) + unat b2"

definition ts_pid :: "u8 list \<Rightarrow> nat" where
  "ts_pid buf = push_bit 8 (unat (buf ! 1 AND 0x1f)) + unat (buf ! 2)"

definition payload :: "u8 list \<Rightarrow> nat" where
  "payload tsp =
     (if tsp ! 3 AND 0x10 = 0 then 0
      else if tsp ! 3 AND 0x20 \<noteq> 0 then
        if tsp ! 4 > 183 then 0 else 184 - 1 - unat (tsp ! 4)
      else 184)"

definition dvb_dmx_crc32 ::
  "'w dmx_env \<Rightarrow> dvb_demux_feed \<Rightarrow> u8 list \<Rightarrow> u32 \<times> dvb_demux_feed" where
  "dvb_dmx_crc32 env f src =
     (let c = crc32_be env (crc_val f) src in (c, f\<lparr>crc_val := c\<rparr>))"

section \<open>Section filters\<close>

text \<open>The comparison loop of \<open>dvb_dmx_swfilter_sectionfilter\<close> from index \<open>i\<close> on, with \<open>neq\<close>
  accumulated so far: \<open>Some None\<close> is the early return 0. It reads \<open>DVB_DEMUX_MASK_MAX\<close> bytes from
  \<open>secbuf\<close> whatever the length of the section.\<close>

function sectionfilter_loop ::
  "dvb_demux_feed \<Rightarrow> dvb_demux_filter \<Rightarrow> nat \<Rightarrow> u8 \<Rightarrow> u8 option option" where
  "sectionfilter_loop feed f i neq =
     (if i < DVB_DEMUX_MASK_MAX then do {
        v \<leftarrow> rd (filter_value f) i;
        s \<leftarrow> rd (secbuf_base feed) (secbuf feed + i);
        m \<leftarrow> rd (maskandmode f) i;
        if m AND (v XOR s) \<noteq> 0 then Some None
        else do {
          n \<leftarrow> rd (maskandnotmode f) i;
          sectionfilter_loop feed f (Suc i) (neq OR (n AND (v XOR s))) } }
      else Some (Some neq))"
  by pat_completeness auto
termination
  by (relation "measure (\<lambda>(feed, f, i, neq). DVB_DEMUX_MASK_MAX - i)") auto

declare sectionfilter_loop.simps [simp del]

definition dvb_dmx_swfilter_sectionfilter ::
  "'w dmx_env \<Rightarrow> dvb_demux_filter list \<Rightarrow> dvb_demux_feed \<Rightarrow> nat \<Rightarrow> 'w \<Rightarrow> (int \<times> 'w) option" where
  "dvb_dmx_swfilter_sectionfilter env flts feed fi w = do {
     f \<leftarrow> rd flts fi;
     r \<leftarrow> sectionfilter_loop feed f 0 0;
     case r of
       None \<Rightarrow> Some (0, w)
     | Some neq \<Rightarrow>
         if doneq f \<and> neq = 0 then Some (0, w)
         else do {
           sec \<leftarrow> memrd (secbuf_base feed) (secbuf feed) (seclen feed);
           Some (cb_sec env fi sec w) } }"

text \<open>The loop over the filters of a feed follows the \<open>next\<close> pointers: it need not end.\<close>

partial_function (option) section_filters ::
  "'w dmx_env \<Rightarrow> dvb_demux_filter list \<Rightarrow> dvb_demux_feed \<Rightarrow> nat \<Rightarrow> 'w \<Rightarrow> (int \<times> 'w) option" where
  "section_filters env flts feed fi w = do {
     (r, w) \<leftarrow> dvb_dmx_swfilter_sectionfilter env flts feed fi w;
     if r < 0 then Some (- 1, w)
     else do {
       f \<leftarrow> rd flts fi;
       case flt_next f of
         Some fi' \<Rightarrow> if is_filtering feed then section_filters env flts feed fi' w else Some (0, w)
       | None \<Rightarrow> Some (0, w) } }"

text \<open>The check of a section with the long syntax: the first component is the verdict "bad".\<close>

definition section_crc_bad ::
  "'w dmx_env \<Rightarrow> dvb_demux_feed \<Rightarrow> (bool \<times> dvb_demux_feed) option" where
  "section_crc_bad env feed =
     (if check_crc feed then do {
        b1 \<leftarrow> rd (secbuf_base feed) (secbuf feed + 1);
        if b1 AND 0x80 \<noteq> 0 then do {
          sec \<leftarrow> memrd (secbuf_base feed) (secbuf feed) (seclen feed);
          case dvb_dmx_crc32 env feed sec of (c, feed) \<Rightarrow> Some (c \<noteq> 0, feed) }
        else Some (False, feed) }
      else Some (False, feed))"

definition dvb_dmx_swfilter_section_feed ::
  "'w dmx_env \<Rightarrow> dvb_demux_filter list \<Rightarrow> dvb_demux_feed \<Rightarrow> 'w
     \<Rightarrow> (int \<times> dvb_demux_feed \<times> 'w) option" where
  "dvb_dmx_swfilter_section_feed env flts feed w =
     (if \<not> is_filtering feed then Some (0, feed, w)
      else case fd_filter feed of
        None \<Rightarrow> Some (0, feed, w)
      | Some fi \<Rightarrow> do {
          (bad, feed) \<leftarrow> section_crc_bad env feed;
          if bad then Some (- 1, feed, w)
          else do {
            (r, w) \<leftarrow> section_filters env flts feed fi w;
            if r < 0 then Some (- 1, feed, w)
            else Some (0, feed\<lparr>seclen := 0\<rparr>, w) } })"

definition dvb_dmx_swfilter_section_new :: "dvb_demux_feed \<Rightarrow> dvb_demux_feed" where
  "dvb_dmx_swfilter_section_new feed =
     feed\<lparr>tsfeedp := 0, secbufp := 0, seclen := 0, secbuf := 0\<rparr>"

section \<open>Section assembly\<close>

text \<open>Handing a section to the filters changes \<open>crc_val\<close> and \<open>seclen\<close> only.\<close>

lemma section_crc_frame:
  "section_crc_bad env feed = Some (bad, feed') \<Longrightarrow> \<exists>c. feed' = feed\<lparr>crc_val := c\<rparr>"
  by (cases "check_crc feed")
    (auto simp: section_crc_bad_def dvb_dmx_crc32_def Let_def bind_eq_Some_conv split: if_splits
      intro: exI [of _ "crc_val feed"])

lemma section_feed_frame:
  assumes "dvb_dmx_swfilter_section_feed env flts feed w = Some (r, feed', w')"
  shows "\<exists>c n. feed' = feed\<lparr>crc_val := c, seclen := n\<rparr>"
proof (cases "is_filtering feed \<and> fd_filter feed \<noteq> None")
  case False
  then have "feed' = feed\<lparr>crc_val := crc_val feed, seclen := seclen feed\<rparr>"
    using assms by (auto simp: dvb_dmx_swfilter_section_feed_def split: if_splits)
  then show ?thesis by blast
next
  case True
  then obtain fi where fi: "is_filtering feed" "fd_filter feed = Some fi" by auto
  then obtain bad feed1 where crc: "section_crc_bad env feed = Some (bad, feed1)"
    using assms by (auto simp: dvb_dmx_swfilter_section_feed_def bind_eq_Some_conv)
  then obtain c where c: "feed1 = feed\<lparr>crc_val := c\<rparr>" by (auto dest: section_crc_frame)
  have "feed' = feed1 \<or> feed' = feed1\<lparr>seclen := 0\<rparr>"
    using assms fi crc
    by (auto simp: dvb_dmx_swfilter_section_feed_def bind_eq_Some_conv split: if_splits)
  then have "feed' = feed\<lparr>crc_val := c, seclen := seclen feed\<rparr> \<or> feed' = feed\<lparr>crc_val := c, seclen := 0\<rparr>"
    using c by auto
  then show ?thesis by blast
qed

lemma section_feed_secbufp:
  "dvb_dmx_swfilter_section_feed env flts feed w = Some (r, feed', w') \<Longrightarrow> secbufp feed' = secbufp feed"
  by (auto dest: section_feed_frame)

text \<open>The loop of \<open>dvb_dmx_swfilter_section_copy_dump\<close> that hands out every complete section found in
  the buffer. Each round moves \<open>secbufp\<close> forward by at least the three header bytes.\<close>

function section_dump ::
  "'w dmx_env \<Rightarrow> dvb_demux_filter list \<Rightarrow> nat \<Rightarrow> dvb_demux_feed \<Rightarrow> 'w
     \<Rightarrow> (dvb_demux_feed \<times> 'w) option" where
  "section_dump env flts limit feed w =
     (if secbufp feed + 2 < limit then do {
        b1 \<leftarrow> rd (secbuf_base feed) (secbuf feed + 1);
        b2 \<leftarrow> rd (secbuf_base feed) (secbuf feed + 2);
        let sl = section_length b1 b2;
        if sl \<le> 0 \<or> sl > DMX_MAX_SECTION_SIZE \<or> sl + secbufp feed > limit then Some (feed, w)
        else do {
          (r, feed', w') \<leftarrow>
            (if pusi_seen feed
             then dvb_dmx_swfilter_section_feed env flts (feed\<lparr>seclen := sl, crc_val := NOT 0\<rparr>) w
             else Some (0, feed\<lparr>seclen := sl, crc_val := NOT 0\<rparr>, w));
          section_dump env flts limit
            (feed'\<lparr>secbufp := secbufp feed' + sl, secbuf := secbuf feed' + sl\<rparr>) w' } }
      else Some (feed, w))"
  by pat_completeness auto
termination
  by (relation "measure (\<lambda>(env, flts, limit, feed, w). limit - secbufp feed)")
    (auto split: if_splits dest!: section_feed_secbufp simp: section_length_def)

declare section_dump.simps [simp del]

text \<open>\<open>buf\<close> holds the bytes from the C pointer on, \<open>len\<close> of which are to be copied.\<close>

definition dvb_dmx_swfilter_section_copy_dump ::
  "'w dmx_env \<Rightarrow> dvb_demux_filter list \<Rightarrow> dvb_demux_feed \<Rightarrow> u8 list \<Rightarrow> nat \<Rightarrow> 'w
     \<Rightarrow> (int \<times> dvb_demux_feed \<times> 'w) option" where
  "dvb_dmx_swfilter_section_copy_dump env flts feed buf len w =
     (if tsfeedp feed \<ge> DMX_MAX_SECFEED_SIZE then Some (0, feed, w)
      else
        let len = (if tsfeedp feed + len > DMX_MAX_SECFEED_SIZE
                   then DMX_MAX_SECFEED_SIZE - tsfeedp feed else len) in
        if len \<le> 0 then Some (0, feed, w)
        else do {
          bs \<leftarrow> memrd buf 0 len;
          base \<leftarrow> memwr (secbuf_base feed) (tsfeedp feed) bs;
          let feed = feed\<lparr>secbuf_base := base, tsfeedp := tsfeedp feed + len\<rparr>;
          let limit = tsfeedp feed;
          if limit > DMX_MAX_SECFEED_SIZE then Some (- 1, feed, w)
          else do {
            (feed, w) \<leftarrow> section_dump env flts limit (feed\<lparr>secbuf := secbufp feed\<rparr>) w;
            Some (0, feed, w) } })"

definition dvb_dmx_swfilter_section_packet ::
  "'w dmx_env \<Rightarrow> dvb_demux_filter list \<Rightarrow> dvb_demux_feed \<Rightarrow> u8 list \<Rightarrow> 'w
     \<Rightarrow> (int \<times> dvb_demux_feed \<times> 'w) option" where
  "dvb_dmx_swfilter_section_packet env flts feed buf w =
     (let count = payload buf in
      if count = 0 then Some (- 1, feed, w)
      else
        let p = 188 - count;
            c = int (unat (buf ! 3 AND 0x0f));
            ccok = (cc feed + 1) AND 0x0f = c;
            feed = feed\<lparr>cc := c\<rparr>;
            dc_i = (buf ! 3 AND 0x20 \<noteq> 0 \<and> buf ! 4 > 0 \<and> buf ! 5 AND 0x80 \<noteq> 0);
            feed = (if \<not> ccok \<or> dc_i
                    then dvb_dmx_swfilter_section_new (feed\<lparr>pusi_seen := False\<rparr>) else feed)
        in if buf ! 1 AND 0x40 \<noteq> 0 then
             if count > 1 \<and> unat (buf ! p) < count then do {
               let before = drop (p + 1) buf;
               let before_len = unat (buf ! p);
               let after = drop before_len before;
               let after_len = count - 1 - before_len;
               (_, feed, w) \<leftarrow> dvb_dmx_swfilter_section_copy_dump env flts feed before before_len w;
               let feed = dvb_dmx_swfilter_section_new (feed\<lparr>pusi_seen := True\<rparr>);
               (_, feed, w) \<leftarrow> dvb_dmx_swfilter_section_copy_dump env flts feed after after_len w;
               Some (0, feed, w) }
             else Some (0, feed, w)
           else do {
             (_, feed, w) \<leftarrow> dvb_dmx_swfilter_section_copy_dump env flts feed (drop p buf) count w;
             Some (0, feed, w) })"

section \<open>Packets\<close>

definition dvb_dmx_swfilter_payload ::
  "'w dmx_env \<Rightarrow> nat \<Rightarrow> dvb_demux_feed \<Rightarrow> u8 list \<Rightarrow> 'w \<Rightarrow> int \<times> dvb_demux_feed \<times> 'w" where
  "dvb_dmx_swfilter_payload env fd feed buf w =
     (let count = payload buf in
      if count = 0 then (- 1, feed, w)
      else
        let p = 188 - count;
            feed = (if buf ! 1 AND 0x40 \<noteq> 0 then feed\<lparr>peslen := 0xfffa\<rparr> else feed);
            feed = feed\<lparr>peslen := peslen feed + word_of_nat count\<rparr>;
            (r, w) = cb_ts env fd (take count (drop p buf)) w
        in (r, feed, w))"

definition dvb_dmx_swfilter_packet_type ::
  "'w dmx_env \<Rightarrow> dvb_demux_filter list \<Rightarrow> nat \<Rightarrow> dvb_demux_feed \<Rightarrow> u8 list \<Rightarrow> 'w
     \<Rightarrow> (dvb_demux_feed \<times> 'w) option" where
  "dvb_dmx_swfilter_packet_type env flts fd feed buf w =
     (case fd_type feed of
        DMX_TYPE_TS \<Rightarrow>
          if \<not> is_filtering feed then Some (feed, w)
          else
            let (feed, w) =
                  (if ts_type feed AND TS_PACKET \<noteq> 0 then
                     if ts_type feed AND TS_PAYLOAD_ONLY \<noteq> 0
                     then snd (dvb_dmx_swfilter_payload env fd feed buf w)
                     else (feed, snd (cb_ts env fd buf w))
                   else (feed, w));
                w = (if ts_type feed AND TS_DECODER \<noteq> 0 then
                       case write_to_decoder env of Some dec \<Rightarrow> dec fd buf w | None \<Rightarrow> w
                     else w)
            in Some (feed, w)
      | DMX_TYPE_SEC \<Rightarrow>
          if \<not> is_filtering feed then Some (feed, w)
          else do {
            (r, feed, w) \<leftarrow> dvb_dmx_swfilter_section_packet env flts feed buf w;
            Some (if r < 0 then feed\<lparr>seclen := 0, secbufp := 0\<rparr> else feed, w) }
      | DMX_TYPE_PES \<Rightarrow> Some (feed, w))"

definition DVR_FEED :: "dvb_demux_feed \<Rightarrow> bool" where
  "DVR_FEED f \<longleftrightarrow> fd_type f = DMX_TYPE_TS \<and> is_filtering f
     \<and> ts_type f AND (TS_PACKET OR TS_DEMUX) = TS_PACKET"

text \<open>The optional speed report: every 50000 packets the clock is read and the rate is computed; a
  rate over less than a millisecond divides by zero.\<close>

definition speed_report :: "'w dmx_env \<Rightarrow> dvb_demux \<Rightarrow> 'w \<Rightarrow> dvb_demux option" where
  "speed_report env demux w =
     (if \<not> dvb_demux_speedcheck env then Some demux
      else
        let demux = demux\<lparr>speed_pkts_cnt := speed_pkts_cnt demux + 1\<rparr> in
        if speed_pkts_cnt demux mod SPEED_PKTS_INTERVAL = 0 then
          let cur = current_kernel_time env w;
              last = speed_last_time demux;
              delta = (fst cur * 10 ^ 9 + snd cur) - (fst last * 10 ^ 9 + snd last)
          in if fst last \<noteq> 0 \<and> snd last \<noteq> 0 \<and> to_u64 delta div 1000000 = 0 then None
             else Some (demux\<lparr>speed_last_time := cur, speed_pkts_cnt := 0\<rparr>)
        else Some demux)"

definition continuity_check :: "'w dmx_env \<Rightarrow> dvb_demux \<Rightarrow> u8 list \<Rightarrow> dvb_demux option" where
  "continuity_check env demux buf =
     (case cnt_storage demux of
        Some cnt \<Rightarrow>
          if dvb_demux_tscheck env \<and> ts_pid buf < MAX_PID then do {
            cnt' \<leftarrow> wr cnt (ts_pid buf) (((buf ! 3 AND 0xf) + 1) AND 0xf);
            Some (demux\<lparr>cnt_storage := Some cnt'\<rparr>) }
          else Some demux
      | None \<Rightarrow> Some demux)"

text \<open>The loop over the feed list: \<open>dvr_done\<close> tells whether the packet has been given to the DVR
  device already.\<close>

fun feed_packet ::
  "'w dmx_env \<Rightarrow> u8 list \<Rightarrow> nat list \<Rightarrow> bool \<Rightarrow> dvb_demux \<Rightarrow> 'w \<Rightarrow> (dvb_demux \<times> 'w) option" where
  "feed_packet env buf [] dvr_done demux w = Some (demux, w)"
| "feed_packet env buf (fd # fds) dvr_done demux w = do {
     feed \<leftarrow> rd (dmx_feed demux) fd;
     if pid feed \<noteq> ts_pid buf \<and> pid feed \<noteq> 0x2000 then feed_packet env buf fds dvr_done demux w
     else if DVR_FEED feed \<and> dvr_done then feed_packet env buf fds dvr_done demux w
     else
       let dvr_done = (dvr_done \<or> DVR_FEED feed) in
       if pid feed = ts_pid buf then do {
         (feed, w) \<leftarrow> dvb_dmx_swfilter_packet_type env (dmx_filter demux) fd feed buf w;
         feed_packet env buf fds dvr_done (demux\<lparr>dmx_feed := (dmx_feed demux)[fd := feed]\<rparr>) w }
       else feed_packet env buf fds dvr_done demux (snd (cb_ts env fd buf w)) }"

definition dvb_dmx_swfilter_packet ::
  "'w dmx_env \<Rightarrow> dvb_demux \<Rightarrow> u8 list \<Rightarrow> 'w \<Rightarrow> (dvb_demux \<times> 'w) option" where
  "dvb_dmx_swfilter_packet env demux buf w = do {
     demux \<leftarrow> speed_report env demux w;
     demux \<leftarrow> continuity_check env demux buf;
     feed_packet env buf (feed_list demux) False demux w }"

section \<open>The byte stream\<close>

fun swfilter_packets_loop ::
  "'w dmx_env \<Rightarrow> dvb_demux \<Rightarrow> u8 list \<Rightarrow> nat \<Rightarrow> 'w \<Rightarrow> (dvb_demux \<times> 'w) option" where
  "swfilter_packets_loop env demux buf 0 w = Some (demux, w)"
| "swfilter_packets_loop env demux buf (Suc count) w = do {
     pkt \<leftarrow> memrd buf 0 188;
     (demux, w) \<leftarrow> (if pkt ! 0 = 0x47 then dvb_dmx_swfilter_packet env demux pkt w else Some (demux, w));
     swfilter_packets_loop env demux (drop 188 buf) count w }"

definition dvb_dmx_swfilter_packets ::
  "'w dmx_env \<Rightarrow> dvb_demux \<Rightarrow> u8 list \<Rightarrow> nat \<Rightarrow> 'w \<Rightarrow> (dvb_demux \<times> 'w) option" where
  "dvb_dmx_swfilter_packets env demux buf count w = swfilter_packets_loop env demux buf count w"

definition sync_byte :: "nat \<Rightarrow> u8 \<Rightarrow> bool" where
  "sync_byte pktsize b \<longleftrightarrow> b = 0x47 \<or> (pktsize = 204 \<and> b = 0xB8)"

function sync_scan :: "u8 list \<Rightarrow> nat \<Rightarrow> nat \<Rightarrow> nat \<Rightarrow> nat option" where
  "sync_scan buf pos count pktsize =
     (if pos < count then do {
        b \<leftarrow> rd buf pos;
        if sync_byte pktsize b then Some pos else sync_scan buf (pos + 1) count pktsize }
      else Some pos)"
  by pat_completeness auto
termination
  by (relation "measure (\<lambda>(buf, pos, count, pktsize). count - pos)") auto

declare sync_scan.simps [simp del]

definition find_next_packet :: "u8 list \<Rightarrow> nat \<Rightarrow> nat \<Rightarrow> nat \<Rightarrow> nat option" where
  "find_next_packet buf start count pktsize = do {
     pos \<leftarrow> sync_scan buf start count pktsize;
     if pos - start \<noteq> 0 \<and> pos \<ge> pktsize then do {
       b \<leftarrow> rd buf (pos - pktsize);
       Some (if sync_byte pktsize b then pos - pktsize else pos) }
     else Some pos }"

lemma sync_scan_bounds:
  "sync_scan buf pos count pktsize = Some r \<Longrightarrow> pos \<le> r \<and> (pos \<le> count \<longrightarrow> r \<le> count)"
proof (induction buf pos count pktsize rule: sync_scan.induct)
  case (1 buf pos count pktsize)
  show ?case
  proof (cases "pos < count")
    case True
    then obtain b where b: "rd buf pos = Some b"
      using "1.prems" by (auto simp: sync_scan.simps [of buf pos] bind_eq_Some_conv)
    show ?thesis
    proof (cases "sync_byte pktsize b")
      case True
      with "1.prems" b \<open>pos < count\<close> show ?thesis by (simp add: sync_scan.simps [of buf pos])
    next
      case False
      with "1.prems" b \<open>pos < count\<close> have "sync_scan buf (pos + 1) count pktsize = Some r"
        by (simp add: sync_scan.simps [of buf pos])
      with "1.IH" [OF \<open>pos < count\<close> b False] \<open>pos < count\<close> show ?thesis by simp
    qed
  next
    case False
    with "1.prems" show ?thesis by (simp add: sync_scan.simps [of buf pos])
  qed
qed

lemma find_next_packet_progress:
  "find_next_packet buf p count pktsize = Some q \<Longrightarrow> 0 < pktsize \<Longrightarrow>
     p < q + pktsize \<and> (p \<le> count \<longrightarrow> q \<le> count)"
  by (auto simp: find_next_packet_def bind_eq_Some_conv split: if_splits dest!: sync_scan_bounds)

text \<open>The \<open>while (1)\<close> loop of \<open>_dvb_dmx_swfilter\<close>. It returns the position it stopped at. Although a
  packet may start before the position of the search, each round ends past it.\<close>

function swfilter_loop ::
  "'w dmx_env \<Rightarrow> dvb_demux \<Rightarrow> u8 list \<Rightarrow> nat \<Rightarrow> nat \<Rightarrow> nat \<Rightarrow> 'w \<Rightarrow> (nat \<times> dvb_demux \<times> 'w) option" where
  "swfilter_loop env demux buf p count pktsize w =
     (if pktsize = 0 then None
      else do {
        q \<leftarrow> find_next_packet buf p count pktsize;
        if q \<ge> count then Some (q, demux, w)
        else if count - q < pktsize then Some (q, demux, w)
        else do {
          pkt \<leftarrow> memrd buf q 188;
          (demux, pkt) \<leftarrow>
            (if pktsize = 204 \<and> pkt ! 0 = 0xB8 then do {
               tb \<leftarrow> memwr (tsbuf demux) 0 (pkt[0 := 0x47]);
               Some (demux\<lparr>tsbuf := tb\<rparr>, pkt[0 := 0x47]) }
             else Some (demux, pkt));
          (demux, w) \<leftarrow> dvb_dmx_swfilter_packet env demux pkt w;
          swfilter_loop env demux buf (q + pktsize) count pktsize w } })"
  by pat_completeness auto
termination
  by (relation "measure (\<lambda>(env, demux, buf, p, count, pktsize, w). count - p)")
    (auto dest!: find_next_packet_progress)

declare swfilter_loop.simps [simp del]

text \<open>The end of \<open>_dvb_dmx_swfilter\<close>: the bytes from \<open>p\<close> on are kept in \<open>tsbuf\<close> for the next call.\<close>

definition keep_rest :: "dvb_demux \<Rightarrow> u8 list \<Rightarrow> nat \<Rightarrow> nat \<Rightarrow> nat \<Rightarrow> dvb_demux option" where
  "keep_rest demux buf p count pktsize =
     (if count - p \<noteq> 0 then do {
        bs \<leftarrow> memrd buf p (count - p);
        tb \<leftarrow> memwr (tsbuf demux) 0 bs;
        let tb = (if pktsize = 204 \<and> tb ! 0 = 0xB8 then tb[0 := 0x47] else tb);
        Some (demux\<lparr>tsbuf := tb, tsbufp := count - p\<rparr>) }
      else Some demux)"

text \<open>\<open>buf\<close> holds \<open>count\<close> bytes at least.\<close>

definition dvb_dmx_swfilter_pktsize ::
  "'w dmx_env \<Rightarrow> dvb_demux \<Rightarrow> u8 list \<Rightarrow> nat \<Rightarrow> nat \<Rightarrow> 'w \<Rightarrow> (dvb_demux \<times> 'w) option" where
  "dvb_dmx_swfilter_pktsize env demux buf count pktsize w =
     (let i = tsbufp demux; j = to_u64 (int pktsize - int i) in
      if i \<noteq> 0 \<and> int count < j then do {
        bs \<leftarrow> memrd buf 0 count;
        tb \<leftarrow> memwr (tsbuf demux) i bs;
        Some (demux\<lparr>tsbuf := tb, tsbufp := tsbufp demux + count\<rparr>, w) }
      else do {
        (p, demux, w) \<leftarrow>
          (if i \<noteq> 0 then do {
             bs \<leftarrow> memrd buf 0 (nat j);
             tb \<leftarrow> memwr (tsbuf demux) i bs;
             let demux = demux\<lparr>tsbuf := tb\<rparr>;
             pkt \<leftarrow> memrd tb 0 188;
             (demux, w) \<leftarrow>
               (if pkt ! 0 = 0x47 then dvb_dmx_swfilter_packet env demux pkt w else Some (demux, w));
             Some (nat j, demux\<lparr>tsbufp := 0\<rparr>, w) }
           else Some (0, demux, w));
        (p, demux, w) \<leftarrow> swfilter_loop env demux buf p count pktsize w;
        demux \<leftarrow> keep_rest demux buf p count pktsize;
        Some (demux, w) })"

definition dvb_dmx_swfilter ::
  "'w dmx_env \<Rightarrow> dvb_demux \<Rightarrow> u8 list \<Rightarrow> nat \<Rightarrow> 'w \<Rightarrow> (dvb_demux \<times> 'w) option" where
  "dvb_dmx_swfilter env demux buf count w = dvb_dmx_swfilter_pktsize env demux buf count 188 w"

definition dvb_dmx_swfilter_204 ::
  "'w dmx_env \<Rightarrow> dvb_demux \<Rightarrow> u8 list \<Rightarrow> nat \<Rightarrow> 'w \<Rightarrow> (dvb_demux \<times> 'w) option" where
  "dvb_dmx_swfilter_204 env demux buf count w = dvb_dmx_swfilter_pktsize env demux buf count 204 w"

end
