(* ===== verification/Dvb_Demux_Sections.thy ===== *)
theory Dvb_Demux_Sections
  imports Dvb_Demux
begin

text \<open>
  Correctness of the section path of \<open>dvb_demux.c\<close>: what a filter accepts, what a feed delivers for
  one section, and that the sections of a stream come out complete and in order however they
  are cut into payloads. The reference for one section is \<open>deliver\<close>, the reference for a stream is
  its list of sections.
\<close>

section \<open>One filter\<close>

text \<open>The bytes \<open>s\<close> pass a prepared filter when every positive bit agrees and, if the filter has
  negative bits, some negative bit differs.\<close>

definition flt_match :: "dvb_demux_filter \<Rightarrow> u8 list \<Rightarrow> bool" where
  "flt_match f s \<longleftrightarrow>
     (\<forall>j<DVB_DEMUX_MASK_MAX. maskandmode f ! j AND (filter_value f ! j XOR s ! j) = 0)
     \<and> (doneq f \<longrightarrow> (\<exists>j<DVB_DEMUX_MASK_MAX. maskandnotmode f ! j AND (filter_value f ! j XOR s ! j) \<noteq> 0))"

definition flt_wf :: "dvb_demux_filter \<Rightarrow> bool" where
  "flt_wf f \<longleftrightarrow> length (filter_value f) = 18 \<and> length (filter_mask f) = 18 \<and> length (filter_mode f) = 18
     \<and> length (maskandmode f) = 18 \<and> length (maskandnotmode f) = 18"

lemma sectionfilter_loop_eq:
  fixes f :: dvb_demux_filter and feed :: dvb_demux_feed
  assumes wf: "flt_wf f" and buf: "secbuf feed + 18 \<le> length (secbuf_base feed)" and i: "i \<le> 18"
  defines "x \<equiv> \<lambda>j. filter_value f ! j XOR drop (secbuf feed) (secbuf_base feed) ! j"
  shows "\<exists>r. sectionfilter_loop feed f i neq = Some r
     \<and> (r = None \<longleftrightarrow> (\<exists>j. i \<le> j \<and> j < 18 \<and> maskandmode f ! j AND x j \<noteq> 0))
     \<and> (\<forall>n. r = Some n \<longrightarrow> (n = 0 \<longleftrightarrow> neq = 0 \<and> (\<forall>j. i \<le> j \<and> j < 18 \<longrightarrow> maskandnotmode f ! j AND x j = 0)))"
  using i
proof (induction "18 - i" arbitrary: i neq)
  case 0
  then show ?case by (subst sectionfilter_loop.simps) auto
next
  case (Suc k)
  then have i: "i < 18" and k: "k = 18 - Suc i" "Suc i \<le> 18" by simp_all
  have rds: "rd (filter_value f) i = Some (filter_value f ! i)"
    "rd (secbuf_base feed) (secbuf feed + i) = Some (drop (secbuf feed) (secbuf_base feed) ! i)"
    "rd (maskandmode f) i = Some (maskandmode f ! i)"
    "rd (maskandnotmode f) i = Some (maskandnotmode f ! i)"
    using wf i buf by (simp_all add: mem_simps flt_wf_def)
  have ex: "(\<exists>j. i \<le> j \<and> j < 18 \<and> P j) \<longleftrightarrow> P i \<or> (\<exists>j. Suc i \<le> j \<and> j < 18 \<and> P j)"
    and all: "(\<forall>j. i \<le> j \<and> j < 18 \<longrightarrow> P j) \<longleftrightarrow> P i \<and> (\<forall>j. Suc i \<le> j \<and> j < 18 \<longrightarrow> P j)" for P
    using i by (metis Suc_leD le_neq_implies_less less_eq_Suc_le order_refl)+
  show ?case
  proof (cases "maskandmode f ! i AND x i = 0")
    case False
    then have "sectionfilter_loop feed f i neq = Some None"
      using i rds by (subst sectionfilter_loop.simps) (simp add: x_def)
    then show ?thesis using False i by auto
  next
    case True
    have "sectionfilter_loop feed f i neq
        = sectionfilter_loop feed f (Suc i) (neq OR (maskandnotmode f ! i AND x i))"
      using True i rds by (subst sectionfilter_loop.simps) (simp add: x_def)
    moreover obtain r where "sectionfilter_loop feed f (Suc i) (neq OR (maskandnotmode f ! i AND x i)) = Some r"
      "r = None \<longleftrightarrow> (\<exists>j. Suc i \<le> j \<and> j < 18 \<and> maskandmode f ! j AND x j \<noteq> 0)"
      "\<forall>n. r = Some n \<longrightarrow> (n = 0 \<longleftrightarrow> neq OR (maskandnotmode f ! i AND x i) = 0
          \<and> (\<forall>j. Suc i \<le> j \<and> j < 18 \<longrightarrow> maskandnotmode f ! j AND x j = 0))"
      using Suc.hyps(1) [OF k, of "neq OR (maskandnotmode f ! i AND x i)"] by blast
    ultimately show ?thesis
      using True by (auto simp: or_eq_0_iff ex [of "\<lambda>j. maskandmode f ! j AND x j \<noteq> 0"]
          all [of "\<lambda>j. maskandnotmode f ! j AND x j = 0"])
  qed
qed

lemma sectionfilter_eq:
  assumes "fi < length flts" "flt_wf (flts ! fi)" "secbuf feed + 18 \<le> length (secbuf_base feed)"
    and "secbuf feed + seclen feed \<le> length (secbuf_base feed)"
  shows "dvb_dmx_swfilter_sectionfilter env flts feed fi w =
    Some (if flt_match (flts ! fi) (drop (secbuf feed) (secbuf_base feed))
          then cb_sec env fi (take (seclen feed) (drop (secbuf feed) (secbuf_base feed))) w else (0, w))"
proof -
  obtain r where r: "sectionfilter_loop feed (flts ! fi) 0 0 = Some r"
    "r = None \<longleftrightarrow> (\<exists>j<18. maskandmode (flts ! fi) ! j AND
        (filter_value (flts ! fi) ! j XOR drop (secbuf feed) (secbuf_base feed) ! j) \<noteq> 0)"
    "\<forall>n. r = Some n \<longrightarrow> (n = 0 \<longleftrightarrow> (\<forall>j<18. maskandnotmode (flts ! fi) ! j AND
        (filter_value (flts ! fi) ! j XOR drop (secbuf feed) (secbuf_base feed) ! j) = 0))"
    using sectionfilter_loop_eq [OF assms(2,3), of 0 0] by auto
  show ?thesis
  proof (cases r)
    case None
    then show ?thesis
      using r(1,2) assms(1)
      by (auto simp: dvb_dmx_swfilter_sectionfilter_def mem_simps flt_match_def)
  next
    case (Some n)
    then have pos: "\<forall>j<18. maskandmode (flts ! fi) ! j AND
        (filter_value (flts ! fi) ! j XOR drop (secbuf feed) (secbuf_base feed) ! j) = 0"
      using r(2) by auto
    have "n = 0 \<longleftrightarrow> (\<forall>j<18. maskandnotmode (flts ! fi) ! j AND
        (filter_value (flts ! fi) ! j XOR drop (secbuf feed) (secbuf_base feed) ! j) = 0)"
      using r(3) Some by simp
    then have "flt_match (flts ! fi) (drop (secbuf feed) (secbuf_base feed))
        \<longleftrightarrow> \<not> (doneq (flts ! fi) \<and> n = 0)"
      using pos by (auto simp: flt_match_def)
    then show ?thesis
      using r(1) Some assms(1,4)
      by (simp add: dvb_dmx_swfilter_sectionfilter_def mem_simps)
  qed
qed

section \<open>One section\<close>

text \<open>The filters of a feed, in the order of the \<open>next\<close> pointers.\<close>

fun flt_chain :: "dvb_demux_filter list \<Rightarrow> nat option \<Rightarrow> nat list \<Rightarrow> bool" where
  "flt_chain flts None fs \<longleftrightarrow> fs = []"
| "flt_chain flts (Some i) fs \<longleftrightarrow>
     (case fs of [] \<Rightarrow> False
      | j # js \<Rightarrow> i = j \<and> i < length flts \<and> flt_wf (flts ! i) \<and> flt_chain flts (flt_next (flts ! i)) js)"

text \<open>No section callback reports an error. This holds of the demux device, whose callback always
  returns 0.\<close>

definition sec_cb_ok :: "'w dmx_env \<Rightarrow> bool" where
  "sec_cb_ok env \<longleftrightarrow> (\<forall>fi sec w. 0 \<le> fst (cb_sec env fi sec w))"

text \<open>What a section \<open>sec\<close> does to the world: nothing when its checksum is checked and wrong, else
  one callback for each filter it passes, in the order of the chain.\<close>

definition run_filters :: "'w dmx_env \<Rightarrow> dvb_demux_filter list \<Rightarrow> nat list \<Rightarrow> u8 list \<Rightarrow> u8 list \<Rightarrow> 'w \<Rightarrow> 'w" where
  "run_filters env flts fs hdr sec =
     fold (\<lambda>fi w. if flt_match (flts ! fi) hdr then snd (cb_sec env fi sec w) else w) fs"

definition deliver :: "'w dmx_env \<Rightarrow> dvb_demux_filter list \<Rightarrow> nat list \<Rightarrow> bool \<Rightarrow> u8 list \<Rightarrow> 'w \<Rightarrow> 'w" where
  "deliver env flts fs chk sec w =
     (if chk \<and> sec ! 1 AND 0x80 \<noteq> 0 \<and> crc32_be env (NOT 0) sec \<noteq> 0 then w
      else run_filters env flts fs sec sec w)"

lemma section_filters_eq:
  assumes cb: "sec_cb_ok env" and filt: "is_filtering feed"
    and buf: "secbuf feed + 18 \<le> length (secbuf_base feed)"
      "secbuf feed + seclen feed \<le> length (secbuf_base feed)"
    and chain: "flt_chain flts (Some fi) fs"
  shows "section_filters env flts feed fi w = Some (0,
     run_filters env flts fs (drop (secbuf feed) (secbuf_base feed))
       (take (seclen feed) (drop (secbuf feed) (secbuf_base feed))) w)"
  using chain
proof (induction fs arbitrary: fi w)
  case Nil
  then show ?case by simp
next
  case (Cons g gs)
  let ?h = "drop (secbuf feed) (secbuf_base feed)" and ?s = "take (seclen feed) (drop (secbuf feed) (secbuf_base feed))"
  define w' where "w' = (if flt_match (flts ! fi) ?h then snd (cb_sec env fi ?s w) else w)"
  have g: "g = fi" "fi < length flts" "flt_wf (flts ! fi)" "flt_chain flts (flt_next (flts ! fi)) gs"
    using Cons.prems by auto
  then have f: "rd flts fi = Some (flts ! fi)" by (simp add: mem_simps)
  define r where "r = (if flt_match (flts ! fi) ?h then fst (cb_sec env fi ?s w) else 0)"
  have r: "dvb_dmx_swfilter_sectionfilter env flts feed fi w = Some (r, w')" "0 \<le> r"
    using sectionfilter_eq [OF g(2,3) buf, of env w] cb by (simp_all add: w'_def r_def sec_cb_ok_def)
  show ?case
  proof (cases "flt_next (flts ! fi)")
    case None
    then have "gs = []" using g(4) by simp
    then show ?thesis
      using r None g(1) f by (subst section_filters.simps) (simp add: run_filters_def w'_def)
  next
    case (Some fi')
    then have "section_filters env flts feed fi' w' = Some (0, run_filters env flts gs ?h ?s w')"
      using Cons.IH [of fi' w'] g(4) by simp
    then show ?thesis
      using r Some g(1) filt f by (subst section_filters.simps) (simp add: run_filters_def w'_def)
  qed
qed

text \<open>A complete section: its length is the one its header announces, and it is long enough to cover
  the bytes the filters look at.\<close>

definition sec_ok :: "u8 list \<Rightarrow> bool" where
  "sec_ok sec \<longleftrightarrow> 18 \<le> length sec \<and> length sec \<le> DMX_MAX_SECTION_SIZE
     \<and> section_length (sec ! 1) (sec ! 2) = length sec"

lemma flt_match_cong:
  "(\<And>j. j < 18 \<Longrightarrow> s ! j = t ! j) \<Longrightarrow> flt_match f s = flt_match f t"
  by (auto simp: flt_match_def)

lemma section_feed_eq:
  assumes cb: "sec_cb_ok env" and filt: "is_filtering feed"
    and chain: "flt_chain flts (fd_filter feed) fs"
    and sec: "18 \<le> length sec" "seclen feed = length sec" "crc_val feed = NOT 0"
      "secbuf feed + length sec \<le> length (secbuf_base feed)"
      "take (length sec) (drop (secbuf feed) (secbuf_base feed)) = sec"
  shows "\<exists>r c n. dvb_dmx_swfilter_section_feed env flts feed w =
      Some (r, feed\<lparr>crc_val := c, seclen := n\<rparr>, deliver env flts fs (check_crc feed) sec w)"
proof (cases "fd_filter feed")
  case None
  then have "dvb_dmx_swfilter_section_feed env flts feed w = Some (0, feed\<lparr>crc_val := NOT 0, seclen := length sec\<rparr>, w)"
    using filt sec(2,3) by (simp add: dvb_dmx_swfilter_section_feed_def)
  moreover have "fs = []" using None chain by simp
  ultimately show ?thesis by (auto simp: deliver_def run_filters_def)
next
  case (Some fi)
  let ?base = "secbuf_base feed" and ?p = "secbuf feed"
  have nth: "drop ?p ?base ! j = sec ! j" if "j < length sec" for j
    using sec(5) that by (metis nth_take)
  have b1: "rd ?base (?p + 1) = Some (sec ! 1)"
    using sec(1,4) nth [of 1] by (simp add: rd_def)
  have run: "section_filters env flts (feed\<lparr>crc_val := c\<rparr>) fi w = Some (0, run_filters env flts fs sec sec w)" for c
  proof -
    have "run_filters env flts fs (drop ?p ?base) sec w = run_filters env flts fs sec sec w"
      using nth sec(1) flt_match_cong [of "drop ?p ?base" sec] by (simp add: run_filters_def)
    then show ?thesis
      using section_filters_eq [OF cb, of "feed\<lparr>crc_val := c\<rparr>" flts fi fs w] filt chain Some sec by simp
  qed
  have id: "feed\<lparr>crc_val := NOT 0\<rparr> = feed" using sec(3) by simp
  show ?thesis
  proof (cases "check_crc feed \<and> sec ! 1 AND 0x80 \<noteq> 0")
    case True
    let ?c = "crc32_be env (NOT 0) sec"
    have "section_crc_bad env feed = Some (?c \<noteq> 0, feed\<lparr>crc_val := ?c\<rparr>)"
      using True b1 sec by (simp add: section_crc_bad_def dvb_dmx_crc32_def Let_def mem_simps)
    then have "dvb_dmx_swfilter_section_feed env flts feed w =
        Some (if ?c \<noteq> 0 then - 1 else 0,
              feed\<lparr>crc_val := ?c, seclen := if ?c \<noteq> 0 then seclen feed else 0\<rparr>,
              deliver env flts fs (check_crc feed) sec w)"
      using filt Some run [of ?c] True
      by (cases "?c = 0") (simp_all add: dvb_dmx_swfilter_section_feed_def deliver_def)
    then show ?thesis by blast
  next
    case False
    then have "section_crc_bad env feed = Some (False, feed)"
      using b1 by (auto simp: section_crc_bad_def)
    then have "dvb_dmx_swfilter_section_feed env flts feed w
        = Some (0, feed\<lparr>crc_val := crc_val feed, seclen := 0\<rparr>, deliver env flts fs (check_crc feed) sec w)"
      using filt Some run [of "NOT 0"] False id by (auto simp: dvb_dmx_swfilter_section_feed_def deliver_def)
    then show ?thesis by blast
  qed
qed

section \<open>Sections of a stream\<close>

text \<open>The number of sections that lie completely within the first \<open>n\<close> bytes.\<close>

fun ncomplete :: "u8 list list \<Rightarrow> nat \<Rightarrow> nat" where
  "ncomplete [] n = 0"
| "ncomplete (s # ss) n = (if length s \<le> n then Suc (ncomplete ss (n - length s)) else 0)"

definition deliver_all ::
  "'w dmx_env \<Rightarrow> dvb_demux_filter list \<Rightarrow> nat list \<Rightarrow> bool \<Rightarrow> u8 list list \<Rightarrow> 'w \<Rightarrow> 'w" where
  "deliver_all env flts fs chk secs w = fold (deliver env flts fs chk) secs w"

text \<open>Sections followed by stuffing bytes, the contents of the payloads up to the next start
  indicator.\<close>

definition stuffed :: "u8 list list \<Rightarrow> nat \<Rightarrow> u8 list" where
  "stuffed secs m = concat secs @ replicate m 0xff"

lemma stuffed_Cons: "stuffed (s # ss) m = s @ stuffed ss m"
  by (simp add: stuffed_def)

lemma section_length_stuffing: "section_length 0xff 0xff > DMX_MAX_SECTION_SIZE"
  by (simp add: section_length_def push_bit_eq_mult)

lemma section_length_ge: "3 \<le> section_length b1 b2"
  by (simp add: section_length_def)

definition feed_ready :: "dvb_demux_filter list \<Rightarrow> nat list \<Rightarrow> dvb_demux_feed \<Rightarrow> bool" where
  "feed_ready flts fs feed \<longleftrightarrow> fd_type feed = DMX_TYPE_SEC \<and> is_filtering feed \<and> pusi_seen feed \<and> flt_chain flts (fd_filter feed) fs
     \<and> length (secbuf_base feed) = DMX_MAX_SECFEED_SIZE"

lemma feed_ready_upd:
  "feed_ready flts fs feed \<Longrightarrow> feed_ready flts fs (feed\<lparr>crc_val := c, seclen := n, secbufp := p, secbuf := q\<rparr>)"
  "feed_ready flts fs feed \<Longrightarrow> feed_ready flts fs (feed\<lparr>seclen := n, crc_val := c\<rparr>)"
  by (simp_all add: feed_ready_def)

lemma section_dump_eq:
  assumes cb: "sec_cb_ok env"
  shows "\<lbrakk>feed_ready flts fs feed; list_all sec_ok secs; secbuf feed = secbufp feed; secbufp feed \<le> limit;
     limit \<le> DMX_MAX_SECFEED_SIZE; limit - secbufp feed \<le> length (stuffed secs m);
     take (limit - secbufp feed) (drop (secbufp feed) (secbuf_base feed))
       = take (limit - secbufp feed) (stuffed secs m)\<rbrakk> \<Longrightarrow>
     let k = ncomplete secs (limit - secbufp feed); e = secbufp feed + length (concat (take k secs)) in
     \<exists>c n. section_dump env flts limit feed w =
       Some (feed\<lparr>crc_val := c, seclen := n, secbufp := e, secbuf := e\<rparr>,
             deliver_all env flts fs (check_crc feed) (take k secs) w)"
proof (induction secs arbitrary: feed w)
  case Nil
  let ?p = "secbufp feed" and ?d = "drop (secbufp feed) (secbuf_base feed)"
  have same: "\<exists>c n. feed = feed\<lparr>crc_val := c, seclen := n, secbufp := ?p, secbuf := ?p\<rparr>"
    using Nil.prems(3) by (intro exI [of _ "crc_val feed"] exI [of _ "seclen feed"]) simp
  have "section_dump env flts limit feed w = Some (feed, w)"
  proof (cases "?p + 2 < limit")
    case True
    have st: "?d ! j = 0xff" if "j < limit - ?p" for j
      using Nil.prems(6,7) that nth_take [OF that, of ?d] nth_take [OF that, of "stuffed [] m"]
      by (simp add: stuffed_def)
    have "rd (secbuf_base feed) (?p + 1) = Some 0xff" "rd (secbuf_base feed) (?p + 2) = Some 0xff"
      using st [of 1] st [of 2] True Nil.prems(1,5) by (simp_all add: rd_def feed_ready_def)
    then show ?thesis
      using True section_length_stuffing Nil.prems(3) by (subst section_dump.simps) simp
  qed (subst section_dump.simps, simp)
  then show ?case using same by (simp add: deliver_all_def)
next
  case (Cons s ss)
  let ?p = "secbufp feed" and ?d = "drop (secbufp feed) (secbuf_base feed)"
  have sec: "18 \<le> length s" "length s \<le> 4096" "section_length (s ! 1) (s ! 2) = length s"
    using Cons.prems(2) by (simp_all add: sec_ok_def)
  have same: "\<exists>c n. feed = feed\<lparr>crc_val := c, seclen := n, secbufp := ?p, secbuf := ?p\<rparr>"
    using Cons.prems(3) by (intro exI [of _ "crc_val feed"] exI [of _ "seclen feed"]) simp
  have dn: "?d ! j = s ! j" if "j < limit - ?p" "j < length s" for j
    using Cons.prems(7) that(2) nth_take [OF that(1), of ?d] nth_take [OF that(1), of "stuffed (s # ss) m"]
    by (simp add: stuffed_def nth_append)
  show ?case
  proof (cases "length s \<le> limit - ?p")
    case False
    have "section_dump env flts limit feed w = Some (feed, w)"
    proof (cases "?p + 2 < limit")
      case True
      have "rd (secbuf_base feed) (?p + 1) = Some (s ! 1)" "rd (secbuf_base feed) (?p + 2) = Some (s ! 2)"
        using dn [of 1] dn [of 2] True sec Cons.prems(1,5) by (simp_all add: rd_def feed_ready_def)
      moreover have "limit < length s + ?p" using False by linarith
      ultimately show ?thesis
        using True sec Cons.prems(3) by (subst section_dump.simps) (simp add: Let_def)
    qed (subst section_dump.simps, simp)
    then show ?thesis using same False by (simp add: deliver_all_def)
  next
    case True
    let ?feed1 = "feed\<lparr>seclen := length s, crc_val := NOT 0\<rparr>"
    have lim: "?p + 2 < limit" "length s + ?p \<le> limit" using True sec(1) by auto
    have hd: "rd (secbuf_base feed) (?p + 1) = Some (s ! 1)" "rd (secbuf_base feed) (?p + 2) = Some (s ! 2)"
      using dn [of 1] dn [of 2] lim sec Cons.prems(1,5) by (simp_all add: rd_def feed_ready_def)
    have sl: "take (length s) ?d = s"
      using dn True lim Cons.prems(1,5) by (intro nth_equalityI) (auto simp: feed_ready_def)
    obtain r c n where fd: "dvb_dmx_swfilter_section_feed env flts ?feed1 w =
        Some (r, ?feed1\<lparr>crc_val := c, seclen := n\<rparr>, deliver env flts fs (check_crc feed) s w)"
      using section_feed_eq [OF cb, of ?feed1 flts fs s w] Cons.prems(1,3,5) sec sl lim
      by (auto simp: feed_ready_def)
    define feed2 where "feed2 = feed\<lparr>crc_val := c, seclen := n, secbufp := ?p + length s, secbuf := ?p + length s\<rparr>"
    have f2: "feed_ready flts fs feed2" "secbufp feed2 = ?p + length s" "secbuf feed2 = ?p + length s"
      "secbuf_base feed2 = secbuf_base feed" "check_crc feed2 = check_crc feed"
      using Cons.prems(1) by (simp_all add: feed2_def feed_ready_def)
    have "section_dump env flts limit feed w
        = section_dump env flts limit feed2 (deliver env flts fs (check_crc feed) s w)"
      using lim hd sec fd Cons.prems(1,3)
      by (subst section_dump.simps) (auto simp: feed_ready_def feed2_def Let_def)
    moreover have "take (limit - secbufp feed2) (drop (secbufp feed2) (secbuf_base feed2))
        = take (limit - secbufp feed2) (stuffed ss m)"
    proof -
      have "drop (length s) (take (limit - ?p) ?d) = drop (length s) (take (limit - ?p) (stuffed (s # ss) m))"
        using Cons.prems(7) by simp
      then have "take (limit - ?p - length s) (drop (length s) ?d) = take (limit - ?p - length s) (stuffed ss m)"
        by (simp only: drop_take stuffed_Cons append_eq_conv_conj drop_append drop_all diff_self_eq_0
            order_refl drop_0 append_Nil)
      then show ?thesis using f2 by (simp add: add.commute)
    qed
    ultimately show ?thesis
      using Cons.IH [OF f2(1), of "deliver env flts fs (check_crc feed) s w"] Cons.prems lim f2 True
      by (auto simp: Let_def deliver_all_def feed2_def stuffed_def add.assoc)
  qed
qed

lemma ncomplete_le: "length (concat (take (ncomplete secs n) secs)) \<le> n"
  by (induction secs n rule: ncomplete.induct) auto

lemma ncomplete_split:
  "n \<le> n' \<Longrightarrow> ncomplete secs n' = ncomplete secs n
     + ncomplete (drop (ncomplete secs n) secs) (n' - length (concat (take (ncomplete secs n) secs)))"
proof (induction secs arbitrary: n n')
  case (Cons s ss)
  show ?case
  proof (cases "length s \<le> n")
    case True
    then show ?thesis using Cons.IH [of "n - length s" "n' - length s"] Cons.prems by simp
  qed simp
qed simp

lemma ncomplete_all: "length (concat secs) \<le> n \<Longrightarrow> ncomplete secs n = length secs"
  by (induction secs n rule: ncomplete.induct) auto

lemma stuffed_drop: "stuffed (drop k secs) m = drop (length (concat (take k secs))) (stuffed secs m)"
proof -
  have "concat secs = concat (take k secs) @ concat (drop k secs)" by (simp flip: concat_append)
  then show ?thesis by (simp add: stuffed_def)
qed

lemma deliver_all_append:
  "deliver_all env flts fs chk (a @ b) w = deliver_all env flts fs chk b (deliver_all env flts fs chk a w)"
  by (simp add: deliver_all_def)

text \<open>After \<open>n\<close> bytes of a stream of sections since the last start indicator, the buffer of the feed
  holds these bytes, its read position is behind the last complete section and exactly the
  complete sections have been delivered.\<close>

definition asm_inv ::
  "'w dmx_env \<Rightarrow> dvb_demux_filter list \<Rightarrow> nat list \<Rightarrow> bool \<Rightarrow> u8 list list \<Rightarrow> nat \<Rightarrow> 'w \<Rightarrow> nat
     \<Rightarrow> dvb_demux_feed \<Rightarrow> 'w \<Rightarrow> bool" where
  "asm_inv env flts fs chk secs m w0 n feed w \<longleftrightarrow>
     feed_ready flts fs feed \<and> check_crc feed = chk \<and> tsfeedp feed = n \<and> n \<le> DMX_MAX_SECFEED_SIZE
     \<and> n \<le> length (stuffed secs m)
     \<and> take n (secbuf_base feed) = take n (stuffed secs m)
     \<and> secbufp feed = length (concat (take (ncomplete secs n) secs))
     \<and> w = deliver_all env flts fs chk (take (ncomplete secs n) secs) w0"

lemma copy_dump_from:
  assumes cb: "sec_cb_ok env" and ready: "feed_ready flts fs feed" and secs: "list_all sec_ok secs"
    and n: "tsfeedp feed = n" "take n (secbuf_base feed) = take n (stuffed secs m)"
    and off: "secbufp feed = off" "off = length (concat (take k secs))" "off \<le> n"
    and len: "0 < len" "len \<le> length buf" "n + len \<le> DMX_MAX_SECFEED_SIZE" "n + len \<le> length (stuffed secs m)"
    and bytes: "take len buf = take len (drop n (stuffed secs m))"
  defines "new \<equiv> take (ncomplete (drop k secs) (n + len - off)) (drop k secs)"
  shows "\<exists>feed'. dvb_dmx_swfilter_section_copy_dump env flts feed buf len w
       = Some (0, feed', deliver_all env flts fs (check_crc feed) new w)
     \<and> feed_ready flts fs feed' \<and> check_crc feed' = check_crc feed \<and> cc feed' = cc feed
     \<and> tsfeedp feed' = n + len \<and> take (n + len) (secbuf_base feed') = take (n + len) (stuffed secs m)
     \<and> secbufp feed' = off + length (concat new)"
proof -
  define base where "base = take n (secbuf_base feed) @ take len buf @ drop (n + len) (secbuf_base feed)"
  define feed1 where "feed1 = feed\<lparr>secbuf_base := base, tsfeedp := n + len, secbuf := off\<rparr>"
  have wr: "memwr (secbuf_base feed) n (take len buf) = Some base"
    using ready len by (simp add: memwr_def base_def feed_ready_def)
  have ready1: "feed_ready flts fs feed1"
    using ready len by (simp add: feed1_def feed_ready_def base_def)
  have "take (n + len) base = take n (stuffed secs m) @ take len (drop n (stuffed secs m))"
    using n ready len bytes by (simp add: base_def feed_ready_def)
  then have tk: "take (n + len) base = take (n + len) (stuffed secs m)" by (simp add: take_add)
  then have "take (n + len - off) (drop off base) = take (n + len - off) (stuffed (drop k secs) m)"
    unfolding stuffed_drop [of k secs m, folded off(2)] by (metis drop_take)
  moreover have "list_all sec_ok (drop k secs)"
    using secs by (metis append_take_drop_id list_all_append)
  moreover have "n + len - off \<le> length (stuffed (drop k secs) m)"
    using len off by (simp add: stuffed_drop [of k secs m, folded off(2)])
  ultimately obtain c sl where dump: "section_dump env flts (n + len) feed1 w = Some
      (feed1\<lparr>crc_val := c, seclen := sl, secbufp := off + length (concat new),
         secbuf := off + length (concat new)\<rparr>,
       deliver_all env flts fs (check_crc feed) new w)"
    using section_dump_eq [OF cb ready1, of "drop k secs" "n + len" m w] off len
    by (auto simp: Let_def feed1_def new_def)
  have "dvb_dmx_swfilter_section_copy_dump env flts feed buf len w =
      map_option (\<lambda>(f, w). (0, f, w)) (section_dump env flts (n + len) feed1 w)"
    using n off len wr
    by (simp add: dvb_dmx_swfilter_section_copy_dump_def mem_simps feed1_def Let_def
        map_option_case split: option.split)
  then show ?thesis using dump ready1 tk by (simp add: feed_ready_def feed1_def)
qed

lemma copy_dump_step:
  assumes cb: "sec_cb_ok env" and inv: "asm_inv env flts fs chk secs m w0 n feed w"
    and secs: "list_all sec_ok secs"
    and len: "len \<le> length buf" "n + len \<le> DMX_MAX_SECFEED_SIZE" "n + len \<le> length (stuffed secs m)"
    and bytes: "take len buf = take len (drop n (stuffed secs m))"
  shows "\<exists>feed' w'. dvb_dmx_swfilter_section_copy_dump env flts feed buf len w = Some (0, feed', w')
     \<and> asm_inv env flts fs chk secs m w0 (n + len) feed' w' \<and> cc feed' = cc feed"
proof (cases "len = 0")
  case True
  then show ?thesis using inv by (simp add: dvb_dmx_swfilter_section_copy_dump_def)
next
  case False
  define k where "k = ncomplete secs n"
  define off where "off = length (concat (take k secs))"
  note inv' = inv [unfolded asm_inv_def, folded k_def, folded off_def]
  have off: "off \<le> n" using ncomplete_le [of secs n] by (simp add: off_def k_def)
  have "ncomplete secs (n + len) = k + ncomplete (drop k secs) (n + len - off)"
    using ncomplete_split [of n "n + len" secs] by (simp add: k_def off_def)
  then have tk: "take (ncomplete secs (n + len)) secs
      = take k secs @ take (ncomplete (drop k secs) (n + len - off)) (drop k secs)"
    by (simp add: take_add)
  show ?thesis
    using copy_dump_from [OF cb _ secs, of flts fs feed n m off k len buf w] inv' off len bytes False
    by (auto simp: asm_inv_def tk deliver_all_append off_def)
qed

section \<open>Sections of a sequence of packets\<close>

text \<open>A packet without adaptation field (ISO/IEC 13818-1, 2.4.3.2): the sync byte, the start
  indicator and the PID, the continuity counter, 184 bytes of payload.\<close>

definition ts_packet :: "bool \<Rightarrow> u16 \<Rightarrow> nat \<Rightarrow> u8 list \<Rightarrow> u8 list" where
  "ts_packet pusi p c pay =
     [0x47, (if pusi then 0x40 else 0) OR (ucast (drop_bit 8 p) AND 0x1f), ucast p,
      0x10 OR word_of_nat (c mod 16)] @ pay"

fun cont_packets :: "u16 \<Rightarrow> nat \<Rightarrow> u8 list list \<Rightarrow> u8 list list" where
  "cont_packets p c [] = []"
| "cont_packets p c (pay # pays) = ts_packet False p c pay # cont_packets p (Suc c) pays"

text \<open>A section path that starts at a section boundary: the first packet has the start indicator
  and a pointer field 0, the following ones continue it.\<close>

definition section_packets :: "u16 \<Rightarrow> nat \<Rightarrow> u8 list \<Rightarrow> u8 list list \<Rightarrow> u8 list list" where
  "section_packets p c pay pays = ts_packet True p c (0 # pay) # cont_packets p (Suc c) pays"

fun run_section_packets ::
  "'w dmx_env \<Rightarrow> dvb_demux_filter list \<Rightarrow> nat \<Rightarrow> dvb_demux_feed \<Rightarrow> u8 list list \<Rightarrow> 'w
     \<Rightarrow> (dvb_demux_feed \<times> 'w) option" where
  "run_section_packets env flts fd feed [] w = Some (feed, w)"
| "run_section_packets env flts fd feed (b # bs) w = do {
     (feed, w) \<leftarrow> dvb_dmx_swfilter_packet_type env flts fd feed b w;
     run_section_packets env flts fd feed bs w }"

lemma packet_type_sec:
  assumes "fd_type feed = DMX_TYPE_SEC" "is_filtering feed"
    and "dvb_dmx_swfilter_section_packet env flts feed b w = Some (0, feed', w')"
  shows "dvb_dmx_swfilter_packet_type env flts fd feed b w = Some (feed', w')"
  using assms by (simp add: dvb_dmx_swfilter_packet_type_def)

lemma and_0x0f: "(x :: int) AND 0x0f = x mod 16"
  using take_bit_eq_mask [of 4 x] by (simp add: take_bit_eq_mod mask_eq_exp_minus_1)

lemma cc_byte:
  fixes c :: nat
  defines "b \<equiv> 0x10 OR word_of_nat (c mod 16) :: u8"
  shows "b AND 0x10 \<noteq> 0" "b AND 0x20 = 0" "int (unat (b AND 0x0f)) = int (c mod 16)"
proof -
  have "\<forall>m\<in>set [0..<16]. (0x10 OR word_of_nat m :: u8) AND 0x10 \<noteq> 0
      \<and> (0x10 OR word_of_nat m :: u8) AND 0x20 = 0 \<and> unat ((0x10 OR word_of_nat m :: u8) AND 0x0f) = m"
    by code_simp
  moreover have "c mod 16 \<in> set [0..<16]" by simp
  ultimately have "b AND 0x10 \<noteq> 0 \<and> b AND 0x20 = 0 \<and> unat (b AND 0x0f) = c mod 16"
    unfolding b_def by blast
  then show "b AND 0x10 \<noteq> 0" "b AND 0x20 = 0" "int (unat (b AND 0x0f)) = int (c mod 16)" by auto
qed

lemma pusi_bit:
  "((if pusi then 0x40 else 0) OR (x AND 0x1f)) AND 0x40 = (0 :: u8) \<longleftrightarrow> \<not> pusi"
  by (simp add: bit.conj_disj_distrib2 and.assoc)

lemma ts_packet_nth:
  "ts_packet pusi p c pay ! 1 AND 0x40 = 0 \<longleftrightarrow> \<not> pusi"
  "payload (ts_packet pusi p c pay) = 184"
  "ts_packet pusi p c pay ! 3 AND 0x20 = 0"
  "int (unat (ts_packet pusi p c pay ! 3 AND 0x0f)) = int (c mod 16)"
  "drop 4 (ts_packet pusi p c pay) = pay"
  using cc_byte [of c] pusi_bit [of pusi "ucast (drop_bit 8 p)"]
  by (simp_all add: ts_packet_def payload_def numeral_3_eq_3 numeral_eq_Suc [of "num.Bit0 (num.Bit0 num.One)"])

lemma ts_packet_cont:
  assumes cb: "sec_cb_ok env" and inv: "asm_inv env flts fs chk secs m w0 n feed w"
    and secs: "list_all sec_ok secs" and cc: "cc feed = int (c mod 16)" and pay: "length pay = 184"
    and len: "n + 184 \<le> DMX_MAX_SECFEED_SIZE" "n + 184 \<le> length (stuffed secs m)"
    and bytes: "pay = take 184 (drop n (stuffed secs m))"
  shows "\<exists>feed' w'. dvb_dmx_swfilter_section_packet env flts feed (ts_packet False p (Suc c) pay) w
       = Some (0, feed', w')
     \<and> asm_inv env flts fs chk secs m w0 (n + 184) feed' w' \<and> cc feed' = int (Suc c mod 16)"
proof -
  define feed1 where "feed1 = feed\<lparr>cc := int (Suc c mod 16)\<rparr>"
  have inv1: "asm_inv env flts fs chk secs m w0 n feed1 w"
    using inv by (simp add: feed1_def asm_inv_def feed_ready_def)
  have "(int (c mod 16) + 1) mod 16 = int (Suc c mod 16)"
    by (simp add: zmod_int mod_simps add.commute)
  then have "dvb_dmx_swfilter_section_packet env flts feed (ts_packet False p (Suc c) pay) w
      = map_option (\<lambda>(_, feed, w). (0, feed, w)) (dvb_dmx_swfilter_section_copy_dump env flts feed1 pay 184 w)"
    using ts_packet_nth [of False p "Suc c" pay] cc
    by (simp add: dvb_dmx_swfilter_section_packet_def Let_def and_0x0f feed1_def map_option_case
        split: option.split)
  moreover obtain feed' w' where "dvb_dmx_swfilter_section_copy_dump env flts feed1 pay 184 w = Some (0, feed', w')"
    "asm_inv env flts fs chk secs m w0 (n + 184) feed' w'" "cc feed' = cc feed1"
    using copy_dump_step [OF cb inv1 secs, of 184 pay] pay len bytes by auto
  ultimately show ?thesis by (simp add: feed1_def)
qed

lemma cont_packets_run:
  assumes cb: "sec_cb_ok env" and secs: "list_all sec_ok secs"
  shows "\<lbrakk>asm_inv env flts fs chk secs m w0 n feed w; cc feed = int (c mod 16);
     list_all (\<lambda>p. length p = 184) pays; drop n (stuffed secs m) = concat pays;
     length (stuffed secs m) \<le> DMX_MAX_SECFEED_SIZE\<rbrakk> \<Longrightarrow>
     \<exists>feed' w'. run_section_packets env flts fd feed (cont_packets p (Suc c) pays) w = Some (feed', w')
       \<and> asm_inv env flts fs chk secs m w0 (length (stuffed secs m)) feed' w'
       \<and> cc feed' = int ((c + length pays) mod 16)"
proof (induction pays arbitrary: n feed w c)
  case Nil
  then have "n = length (stuffed secs m)" by (simp add: asm_inv_def)
  then show ?case using Nil.prems by simp
next
  case (Cons pay pays)
  have "length (drop n (stuffed secs m)) = length (concat (pay # pays))"
    using Cons.prems(4) by simp
  then have n: "n + 184 \<le> length (stuffed secs m)" using Cons.prems(3) by simp
  have "pay = take 184 (drop n (stuffed secs m))" using Cons.prems(3,4) by simp
  then obtain feed' w' where st: "dvb_dmx_swfilter_section_packet env flts feed (ts_packet False p (Suc c) pay) w
       = Some (0, feed', w')"
    "asm_inv env flts fs chk secs m w0 (n + 184) feed' w'" "cc feed' = int (Suc c mod 16)"
    using ts_packet_cont [OF cb Cons.prems(1) secs Cons.prems(2), of pay p] Cons.prems(3,5) n by auto
  have "drop 184 (drop n (stuffed secs m)) = concat pays"
    using Cons.prems(3,4) by (simp del: drop_drop)
  then have "drop (n + 184) (stuffed secs m) = concat pays"
    by (simp only: drop_drop add.commute)
  moreover have "dvb_dmx_swfilter_packet_type env flts fd feed (ts_packet False p (Suc c) pay) w = Some (feed', w')"
    by (rule packet_type_sec) (use Cons.prems(1) st(1) in \<open>simp_all add: asm_inv_def feed_ready_def\<close>)
  ultimately show ?case using Cons.IH [OF st(2,3)] Cons.prems(3,5) by simp
qed

lemma section_packet_start:
  fixes env :: "'w dmx_env"
  assumes "length pay = 183"
  obtains feed0 where "cc feed0 = int (c mod 16)" "is_filtering feed0 = is_filtering feed"
    "fd_type feed0 = fd_type feed" "fd_filter feed0 = fd_filter feed" "check_crc feed0 = check_crc feed"
    "length (secbuf_base feed0) = length (secbuf_base feed)"
    "dvb_dmx_swfilter_section_packet env flts feed (ts_packet True p c (0 # pay)) w
      = map_option (\<lambda>(_, feed, w). (0, feed, w)) (dvb_dmx_swfilter_section_copy_dump env flts
          (dvb_dmx_swfilter_section_new (feed0\<lparr>pusi_seen := True\<rparr>)) pay 183 w)"
proof
  let ?b = "ts_packet True p c (0 # pay)"
  let ?f = "feed\<lparr>cc := int (c mod 16)\<rparr>"
  let ?feed0 = "if (cc feed + 1) mod 16 \<noteq> int (c mod 16)
                then dvb_dmx_swfilter_section_new (?f\<lparr>pusi_seen := False\<rparr>) else ?f"
  have nth: "?b ! 4 = 0" "drop 5 ?b = pay"
    using ts_packet_nth(5) [of True p c "0 # pay"] by (simp_all add: ts_packet_def)
  have "dvb_dmx_swfilter_section_copy_dump env flts x y 0 w = Some (0, x, w)" for x y
    by (simp add: dvb_dmx_swfilter_section_copy_dump_def)
  then show "dvb_dmx_swfilter_section_packet env flts feed ?b w
      = map_option (\<lambda>(_, feed, w). (0, feed, w)) (dvb_dmx_swfilter_section_copy_dump env flts
          (dvb_dmx_swfilter_section_new (?feed0\<lparr>pusi_seen := True\<rparr>)) pay 183 w)"
    using ts_packet_nth [of True p c "0 # pay"] nth
    by (simp add: dvb_dmx_swfilter_section_packet_def Let_def and_0x0f map_option_case split: option.split)
qed (simp_all add: dvb_dmx_swfilter_section_new_def)

lemma section_packets_run:
  fixes env :: "'w dmx_env"
  assumes cb: "sec_cb_ok env" and secs: "list_all sec_ok secs"
    and feed: "fd_type feed = DMX_TYPE_SEC" "is_filtering feed" "flt_chain flts (fd_filter feed) fs"
      "length (secbuf_base feed) = DMX_MAX_SECFEED_SIZE"
    and pay: "pay @ concat pays = stuffed secs m" "length pay = 183" "list_all (\<lambda>p. length p = 184) pays"
    and max: "length (stuffed secs m) \<le> DMX_MAX_SECFEED_SIZE"
  shows "\<exists>feed' w'. run_section_packets env flts fd feed (section_packets p c pay pays) w = Some (feed', w')
     \<and> asm_inv env flts fs (check_crc feed) secs m w (length (stuffed secs m)) feed' w'
     \<and> cc feed' = int ((c + length pays) mod 16)"
proof -
  let ?b = "ts_packet True p c (0 # pay)"
  obtain feed0 where f0: "cc feed0 = int (c mod 16)" "is_filtering feed0 = is_filtering feed"
    "fd_type feed0 = fd_type feed" "fd_filter feed0 = fd_filter feed" "check_crc feed0 = check_crc feed"
    "length (secbuf_base feed0) = length (secbuf_base feed)"
    and pkt: "dvb_dmx_swfilter_section_packet env flts feed ?b w
      = map_option (\<lambda>(_, feed, w). (0, feed, w)) (dvb_dmx_swfilter_section_copy_dump env flts
          (dvb_dmx_swfilter_section_new (feed0\<lparr>pusi_seen := True\<rparr>)) pay 183 w)"
    using section_packet_start [OF pay(2), where c = c and feed = feed and env = env and flts = flts
        and p = p and w = w] by metis
  let ?feed1 = "dvb_dmx_swfilter_section_new (feed0\<lparr>pusi_seen := True\<rparr>)"
  have nc: "ncomplete secs 0 = 0" using secs by (cases secs) (auto simp: sec_ok_def)
  have inv: "asm_inv env flts fs (check_crc feed) secs m w 0 ?feed1 w"
    using f0 feed by (simp add: asm_inv_def feed_ready_def nc deliver_all_def dvb_dmx_swfilter_section_new_def)
  have len: "183 \<le> length (stuffed secs m)" using pay(1,2) by (metis length_append le_add1)
  have tk: "pay = take 183 (stuffed secs m)" "drop 183 (stuffed secs m) = concat pays"
    using pay(1,2) by (metis append_eq_conv_conj)+
  obtain feed2 w2 where "dvb_dmx_swfilter_section_copy_dump env flts ?feed1 pay 183 w = Some (0, feed2, w2)"
    and inv2: "asm_inv env flts fs (check_crc feed) secs m w 183 feed2 w2" and cc2: "cc feed2 = int (c mod 16)"
    using copy_dump_step [OF cb inv secs, of 183 pay] pay(2) max len tk(1) f0(1)
    by (auto simp: dvb_dmx_swfilter_section_new_def)
  then have "dvb_dmx_swfilter_packet_type env flts fd feed ?b w = Some (feed2, w2)"
    using feed pkt by (intro packet_type_sec) simp_all
  then show ?thesis
    using cont_packets_run [OF cb secs inv2 cc2 pay(3) tk(2) max, of fd p] by (simp add: section_packets_def)
qed

lemma ncomplete_stuffed: "ncomplete secs (length (stuffed secs m)) = length secs"
  by (rule ncomplete_all) (simp add: stuffed_def)


text \<open>A log of the section callbacks, for the witnesses.\<close>

definition log_env :: "(nat \<times> u8 list) list dmx_env" where
  "log_env = \<lparr>crc32_be = \<lambda>c bs. 0, cb_ts = \<lambda>fd bs w. (0, w), cb_sec = \<lambda>fi bs w. (0, w @ [(fi, bs)]),
     write_to_decoder = None, start_feed = None, stop_feed = None, dvb_demux_tscheck = False,
     dvb_demux_speedcheck = False, current_kernel_time = \<lambda>w. (0, 0)\<rparr>"

definition all_filter :: dvb_demux_filter where
  "all_filter = \<lparr>filter_value = replicate 18 0, filter_mask = replicate 18 0, filter_mode = replicate 18 0,
     maskandmode = replicate 18 0, maskandnotmode = replicate 18 0, doneq = False, flt_next = None,
     flt_feed = Some 0, flt_state = DMX_STATE_READY, flt_type = DMX_TYPE_SEC\<rparr>"

definition sec_feed :: dvb_demux_feed where
  "sec_feed = \<lparr>is_filtering = True, check_crc = False, crc_val = 0, secbuf = 0,
     secbuf_base = replicate 4284 0, secbufp = 0, seclen = 0, tsfeedp = 0,
     fd_type = DMX_TYPE_SEC, fd_state = DMX_STATE_GO, pid = 0x12, buffer_size = 4096, fd_filter = Some 0,
     ts_type = 0, pes_type = 0, cc = 0, pusi_seen = False, peslen = 0\<rparr>"

definition eit_section :: "u8 list" where
  "eit_section = [0x4e, 0x00, 17] @ replicate 17 0xab"

lemma all_filter_wf: "flt_wf all_filter"
  by (simp add: flt_wf_def all_filter_def)

lemma log_env_ok: "sec_cb_ok log_env"
  by (simp add: sec_cb_ok_def log_env_def)

lemma eit_section_ok: "sec_ok eit_section"
  by code_simp


section \<open>Discontinuities\<close>

text \<open>A feed that waits for a start indicator, with its positions in the buffer.\<close>

definition feed_quiet :: "dvb_demux_feed \<Rightarrow> bool" where
  "feed_quiet feed \<longleftrightarrow> fd_type feed = DMX_TYPE_SEC \<and> \<not> pusi_seen feed \<and> length (secbuf_base feed) = DMX_MAX_SECFEED_SIZE"

lemma section_dump_quiet:
  "\<lbrakk>feed_quiet feed; secbuf feed = secbufp feed; limit \<le> DMX_MAX_SECFEED_SIZE\<rbrakk> \<Longrightarrow>
     \<exists>feed'. section_dump env flts limit feed w = Some (feed', w) \<and> feed_quiet feed'
       \<and> is_filtering feed' = is_filtering feed"
proof (induction "limit - secbufp feed" arbitrary: feed rule: less_induct)
  case less
  let ?p = "secbufp feed"
  let ?sl = "section_length (secbuf_base feed ! (?p + 1)) (secbuf_base feed ! (?p + 2))"
  let ?feed' = "feed\<lparr>seclen := ?sl, crc_val := NOT 0, secbufp := ?p + ?sl, secbuf := ?p + ?sl\<rparr>"
  show ?case
  proof (cases "?p + 2 < limit \<and> ?sl \<le> DMX_MAX_SECTION_SIZE \<and> ?sl + ?p \<le> limit")
    case True
    have "0 < ?sl" by (rule less_le_trans [OF _ section_length_ge]) simp
    then have "section_dump env flts limit feed w = section_dump env flts limit ?feed' w"
      using less.prems True by (subst section_dump.simps) (auto simp: rd_def feed_quiet_def Let_def)
    moreover have "limit - secbufp ?feed' < limit - ?p" "feed_quiet ?feed'"
      using True less.prems(1) \<open>0 < ?sl\<close> by (auto simp: feed_quiet_def intro!: diff_less_mono2)
    ultimately show ?thesis using less.hyps [of ?feed'] less.prems(3) by simp
  next
    case False
    then have "section_dump env flts limit feed w = Some (feed, w)"
      using less.prems by (subst section_dump.simps) (auto simp: rd_def feed_quiet_def Let_def)
    then show ?thesis using less.prems by simp
  qed
qed

lemma copy_dump_quiet:
  assumes "feed_quiet feed" "len \<le> length buf"
  shows "\<exists>feed'. dvb_dmx_swfilter_section_copy_dump env flts feed buf len w = Some (0, feed', w) \<and> feed_quiet feed'
     \<and> is_filtering feed' = is_filtering feed"
proof (cases "tsfeedp feed \<ge> DMX_MAX_SECFEED_SIZE \<or> len = 0")
  case False
  define l where "l = (if tsfeedp feed + len > DMX_MAX_SECFEED_SIZE then DMX_MAX_SECFEED_SIZE - tsfeedp feed else len)"
  define base where "base = take (tsfeedp feed) (secbuf_base feed) @ take l buf @ drop (tsfeedp feed + l) (secbuf_base feed)"
  define feed1 where "feed1 = feed\<lparr>secbuf_base := base, tsfeedp := tsfeedp feed + l, secbuf := secbufp feed\<rparr>"
  have l: "0 < l" "l \<le> length buf" "tsfeedp feed + l \<le> DMX_MAX_SECFEED_SIZE"
    using False assms(2) by (auto simp: l_def)
  have q: "feed_quiet feed1"
    using assms(1) l by (simp add: feed1_def feed_quiet_def base_def)
  obtain feed' where "section_dump env flts (tsfeedp feed + l) feed1 w = Some (feed', w)" "feed_quiet feed'"
    "is_filtering feed' = is_filtering feed"
    using section_dump_quiet [OF q _ l(3), of env flts w] by (auto simp: feed1_def)
  moreover have "memrd buf 0 l = Some (take l buf)" "memwr (secbuf_base feed) (tsfeedp feed) (take l buf) = Some base"
    using assms(1) l by (simp_all add: mem_simps memwr_def base_def feed_quiet_def)
  ultimately show ?thesis
    using False l
    by (simp add: dvb_dmx_swfilter_section_copy_dump_def l_def [symmetric] feed1_def)
qed (use assms in \<open>auto simp: dvb_dmx_swfilter_section_copy_dump_def\<close>)

definition no_start :: "u8 list \<Rightarrow> bool" where
  "no_start b \<longleftrightarrow> length b = 188 \<and> b ! 1 AND 0x40 = 0"

definition cc_break :: "dvb_demux_feed \<Rightarrow> u8 list \<Rightarrow> bool" where
  "cc_break feed b \<longleftrightarrow> payload b \<noteq> 0 \<and> (cc feed + 1) mod 16 \<noteq> int (unat (b ! 3 AND 0x0f))"

lemma payload_le: "payload b \<le> 184"
  by (auto simp: payload_def intro: order.trans [OF diff_le_self])

lemma section_packet_quiet:
  assumes "no_start b" "fd_type feed = DMX_TYPE_SEC" "length (secbuf_base feed) = DMX_MAX_SECFEED_SIZE" "feed_quiet feed \<or> cc_break feed b"
  shows "\<exists>r feed'. dvb_dmx_swfilter_section_packet env flts feed b w = Some (r, feed', w) \<and> feed_quiet feed'
     \<and> is_filtering feed' = is_filtering feed"
proof (cases "payload b = 0")
  case True
  then show ?thesis using assms by (auto simp: dvb_dmx_swfilter_section_packet_def cc_break_def)
next
  case False
  define feed1 where "feed1 = (let f = feed\<lparr>cc := int (unat (b ! 3 AND 0x0f))\<rparr> in
      if (cc feed + 1) mod 16 \<noteq> int (unat (b ! 3 AND 0x0f)) \<or>
        b ! 3 AND 0x20 \<noteq> 0 \<and> b ! 4 > 0 \<and> b ! 5 AND 0x80 \<noteq> 0
      then dvb_dmx_swfilter_section_new (f\<lparr>pusi_seen := False\<rparr>) else f)"
  have "dvb_dmx_swfilter_section_packet env flts feed b w = map_option (\<lambda>(_, feed, w). (0, feed, w))
      (dvb_dmx_swfilter_section_copy_dump env flts feed1 (drop (188 - payload b) b) (payload b) w)"
    using assms(1) False
    by (simp add: dvb_dmx_swfilter_section_packet_def Let_def and_0x0f feed1_def no_start_def map_option_case
        split: option.split)
  moreover have "feed_quiet feed1 \<and> is_filtering feed1 = is_filtering feed"
    using assms by (auto simp: feed1_def Let_def feed_quiet_def cc_break_def dvb_dmx_swfilter_section_new_def)
  ultimately show ?thesis
    using copy_dump_quiet [of feed1 "payload b" "drop (188 - payload b) b" env flts w] assms(1) payload_le [of b]
    by (auto simp: no_start_def)
qed

lemma packet_type_quiet:
  assumes "no_start b" "fd_type feed = DMX_TYPE_SEC" "length (secbuf_base feed) = DMX_MAX_SECFEED_SIZE"
    and "is_filtering feed" "feed_quiet feed \<or> cc_break feed b"
  shows "\<exists>feed'. dvb_dmx_swfilter_packet_type env flts fd feed b w = Some (feed', w) \<and> feed_quiet feed'
     \<and> is_filtering feed'"
proof -
  obtain r feed' where "dvb_dmx_swfilter_section_packet env flts feed b w = Some (r, feed', w)" "feed_quiet feed'"
    "is_filtering feed'"
    using section_packet_quiet [OF assms(1-3,5), of env flts w] assms(4) by auto
  then show ?thesis using assms(2,4) by (simp add: dvb_dmx_swfilter_packet_type_def feed_quiet_def)
qed

lemma run_section_packets_quiet:
  "\<lbrakk>list_all no_start bs; feed_quiet feed; is_filtering feed\<rbrakk> \<Longrightarrow>
     \<exists>feed'. run_section_packets env flts fd feed bs w = Some (feed', w)"
proof (induction bs arbitrary: feed)
  case (Cons b bs)
  then obtain feed' where "dvb_dmx_swfilter_packet_type env flts fd feed b w = Some (feed', w)" "feed_quiet feed'"
    "is_filtering feed'"
    using packet_type_quiet [of b feed env flts fd w] by (auto simp: feed_quiet_def)
  then show ?case using Cons by simp
qed simp

text \<open>C26. After a gap in the continuity counter the rest of the section is dropped: from a packet that
  does not follow its predecessor on, no filter sees anything until a packet with a start
  indicator arrives, whatever the packets hold, and no access leaves the buffers.\<close>

theorem discontinuity_silent:
  assumes "fd_type feed = DMX_TYPE_SEC" and "is_filtering feed"
    and "length (secbuf_base feed) = DMX_MAX_SECFEED_SIZE"
    and "cc_break feed b" and "list_all no_start (b # bs)"
  shows "\<exists>feed'. run_section_packets env flts fd feed (b # bs) w = Some (feed', w)"
proof -
  obtain feed' where "dvb_dmx_swfilter_packet_type env flts fd feed b w = Some (feed', w)" "feed_quiet feed'"
    "is_filtering feed'"
    using packet_type_quiet [of b feed env flts fd w] assms by auto
  then show ?thesis using run_section_packets_quiet [of bs feed' env flts fd w] assms(5) by auto
qed

theorem discontinuity_silent_witness:
  "\<exists>feed'. run_section_packets log_env [all_filter] 0 sec_feed
     [ts_packet False 0x12 7 (eit_section @ replicate 164 0xff), ts_packet False 0x12 8 (replicate 184 0xff)] []
     = Some (feed', [])"
proof -
  have b: "length (secbuf_base sec_feed) = 4284" "cc sec_feed = 0" "fd_type sec_feed = DMX_TYPE_SEC" "is_filtering sec_feed" by (simp_all add: sec_feed_def)
  have len: "length (ts_packet False p c pay) = 4 + length pay" for p c pay by (simp add: ts_packet_def)
  show ?thesis
    by (intro discontinuity_silent)
      (simp_all only: b cc_break_def no_start_def len ts_packet_nth eit_section_def list.pred_inject,
        simp_all)
qed

section \<open>Two defects of the section path\<close>

text \<open>A filter that accepts every section reads 18 bytes whatever the length of the section.\<close>

lemma sectionfilter_loop_overrun:
  fixes f :: dvb_demux_filter and feed :: dvb_demux_feed
  assumes "flt_wf f" "\<forall>j<18. maskandmode f ! j = 0" "length (secbuf_base feed) < secbuf feed + 18"
  shows "i < 18 \<Longrightarrow> sectionfilter_loop feed f i neq = None"
proof (induction "18 - i" arbitrary: i neq)
  case (Suc k)
  show ?case
  proof (cases "secbuf feed + i < length (secbuf_base feed)")
    case True
    then have "Suc i < 18" using Suc.prems assms(3) by (cases "Suc i = 18") auto
    then have "sectionfilter_loop feed f (Suc i) n = None" for n using Suc by simp
    then show ?thesis
      using True Suc.prems assms(1,2) by (subst sectionfilter_loop.simps) (simp add: mem_simps flt_wf_def)
  next
    case False
    then show ?thesis
      using Suc.prems assms(1) by (subst sectionfilter_loop.simps) (simp add: mem_simps rd_def flt_wf_def)
  qed
qed simp



text \<open>A packet without payload on the PID of a section feed.\<close>

lemma packet_type_no_payload:
  assumes "fd_type feed = DMX_TYPE_SEC" "is_filtering feed" "payload b = 0"
  shows "dvb_dmx_swfilter_packet_type env flts fd feed b w = Some (feed\<lparr>secbufp := 0, seclen := 0\<rparr>, w)"
  using assms by (simp add: dvb_dmx_swfilter_packet_type_def dvb_dmx_swfilter_section_packet_def)

lemma stuffed_more: "stuffed secs (m + k) = stuffed secs m @ replicate k 0xff"
  by (simp add: stuffed_def replicate_add)

lemma redelivery_step:
  assumes cb: "sec_cb_ok env" and inv: "asm_inv env flts fs chk secs m w0 (length (stuffed secs m)) feed w"
    and secs: "list_all sec_ok secs" and cc: "cc feed = int (c mod 16)"
    and len: "length (stuffed secs m) + 184 \<le> DMX_MAX_SECFEED_SIZE"
  shows "\<exists>feed'. dvb_dmx_swfilter_section_packet env flts (feed\<lparr>secbufp := 0, seclen := 0\<rparr>)
       (ts_packet False p (Suc c) (replicate 184 0xff)) w
     = Some (0, feed', deliver_all env flts fs chk secs w)"
proof -
  define n where "n = length (stuffed secs m)"
  define feed1 where "feed1 = feed\<lparr>secbufp := 0, seclen := 0, cc := int (Suc c mod 16)\<rparr>"
  have "(int (c mod 16) + 1) mod 16 = int (Suc c mod 16)"
    by (simp add: zmod_int mod_simps add.commute)
  then have "dvb_dmx_swfilter_section_packet env flts (feed\<lparr>secbufp := 0, seclen := 0\<rparr>)
        (ts_packet False p (Suc c) (replicate 184 0xff)) w
      = map_option (\<lambda>(_, feed, w). (0, feed, w))
          (dvb_dmx_swfilter_section_copy_dump env flts feed1 (replicate 184 0xff) 184 w)"
    using ts_packet_nth [of False p "Suc c" "replicate 184 0xff"] cc
    by (simp add: dvb_dmx_swfilter_section_packet_def Let_def and_0x0f feed1_def map_option_case
        split: option.split)
  moreover have "feed_ready flts fs feed1" "tsfeedp feed1 = n" "secbufp feed1 = 0" "check_crc feed1 = chk"
    "take n (secbuf_base feed1) = take n (stuffed secs (m + 184))"
    using inv by (simp_all add: asm_inv_def feed_ready_def feed1_def n_def stuffed_more)
  moreover have "ncomplete secs (n + 184) = length secs"
    by (rule ncomplete_all) (simp add: n_def stuffed_def)
  ultimately show ?thesis
    using copy_dump_from [OF cb _ secs, of flts fs feed1 n "m + 184" 0 0 184 "replicate 184 0xff" w] len
    by (auto simp: stuffed_more n_def)
qed

text \<open>C38. A packet without payload makes the feed deliver again what it has delivered: after the
  packets of a section stream, a packet with no payload and one with nothing but stuffing, every
  section of the stream has reached the filters twice. The packet without payload resets
  \<open>secbufp\<close> but not \<open>tsfeedp\<close>, so that the buffer is scanned again from its start.\<close>

theorem no_payload_redelivers:
  assumes "sec_cb_ok env" and "list_all sec_ok secs"
    and "fd_type feed = DMX_TYPE_SEC" and "is_filtering feed" and "flt_chain flts (fd_filter feed) fs"
    and "length (secbuf_base feed) = DMX_MAX_SECFEED_SIZE"
    and "pay @ concat pays = stuffed secs m" and "length pay = 183" and "list_all (\<lambda>p. length p = 184) pays"
    and "length (stuffed secs m) + 184 \<le> DMX_MAX_SECFEED_SIZE" and "payload b = 0"
  shows "\<exists>feed'. run_section_packets env flts fd feed (section_packets p c pay pays) w \<bind>
       (\<lambda>(feed, w). run_section_packets env flts fd feed
          [b, ts_packet False p (Suc (c + length pays)) (replicate 184 0xff)] w)
     = Some (feed', deliver_all env flts fs (check_crc feed) (secs @ secs) w)"
proof -
  have max: "length (stuffed secs m) \<le> DMX_MAX_SECFEED_SIZE" using assms(10) by simp
  obtain feed1 w1 where run: "run_section_packets env flts fd feed (section_packets p c pay pays) w = Some (feed1, w1)"
    and inv: "asm_inv env flts fs (check_crc feed) secs m w (length (stuffed secs m)) feed1 w1"
    and cc: "cc feed1 = int ((c + length pays) mod 16)"
    using section_packets_run [OF assms(1-9) max, of fd p c w] by blast
  have "fd_type feed1 = DMX_TYPE_SEC" "is_filtering feed1" and w1: "w1 = deliver_all env flts fs (check_crc feed) secs w"
    using inv by (simp_all add: asm_inv_def feed_ready_def ncomplete_stuffed)
  then show ?thesis
    using redelivery_step [OF assms(1) inv assms(2) cc assms(10), of p] run assms(11)
    by (auto simp: packet_type_no_payload deliver_all_append packet_type_sec)
qed

theorem no_payload_redelivers_witness:
  "\<exists>feed'. run_section_packets log_env [all_filter] 0 sec_feed
       (section_packets 0x12 5 (eit_section @ replicate 163 0xff) []) [] \<bind>
       (\<lambda>(feed, w). run_section_packets log_env [all_filter] 0 feed
          [0x47 # 0 # 0x12 # 0x20 # replicate 184 0, ts_packet False 0x12 6 (replicate 184 0xff)] w)
     = Some (feed', deliver_all log_env [all_filter] [0] False [eit_section, eit_section] [])"
  using no_payload_redelivers [OF log_env_ok, of "[eit_section]" sec_feed "[all_filter]" "[0]"
      "eit_section @ replicate 163 0xff" "[]" 163 "0x47 # 0 # 0x12 # 0x20 # replicate 184 0" 0 "0x12" 5 "[]"]
  by (simp add: sec_feed_def eit_section_ok all_filter_wf all_filter_def [THEN arg_cong [of _ _ flt_next]]
      stuffed_def payload_def eit_section_def [THEN arg_cong [of _ _ length]] numeral_3_eq_3)

end
