(* ===== verification/Dvb_Demux_Stream.thy ===== *)
theory Dvb_Demux_Stream
  imports Dvb_Demux_Sections
begin

text \<open>
  Correctness of the packet and byte level of \<open>dvb_demux.c\<close>: which feeds a packet reaches, and that the
  software filter finds the packets of a transport stream however the driver cuts the stream
  into buffers.
\<close>

section \<open>What the data path keeps of a feed\<close>

text \<open>The fields of a feed that the data path never changes.\<close>

definition same_cfg :: "dvb_demux_feed \<Rightarrow> dvb_demux_feed \<Rightarrow> bool" where
  "same_cfg f f' \<longleftrightarrow> fd_type f' = fd_type f \<and> fd_state f' = fd_state f \<and> pid f' = pid f
     \<and> buffer_size f' = buffer_size f \<and> fd_filter f' = fd_filter f \<and> ts_type f' = ts_type f
     \<and> pes_type f' = pes_type f \<and> is_filtering f' = is_filtering f \<and> check_crc f' = check_crc f
     \<and> length (secbuf_base f') = length (secbuf_base f)"

lemma same_cfg_refl [simp]: "same_cfg f f"
  by (simp add: same_cfg_def)

lemma same_cfg_trans: "same_cfg f g \<Longrightarrow> same_cfg g h \<Longrightarrow> same_cfg f h"
  by (simp add: same_cfg_def)

lemma section_feed_cfg:
  "dvb_dmx_swfilter_section_feed env flts feed w = Some (r, feed', w') \<Longrightarrow> same_cfg feed feed'"
  by (auto simp: same_cfg_def dest: section_feed_frame)

lemma section_dump_cfg:
  "section_dump env flts limit feed w = Some (feed', w') \<Longrightarrow> same_cfg feed feed'"
proof (induction env flts limit feed w rule: section_dump.induct)
  case (1 env flts limit feed w)
  show ?case
  proof (cases "secbufp feed + 2 < limit")
    case True
    then obtain b1 b2 where b: "rd (secbuf_base feed) (secbuf feed + 1) = Some b1"
        "rd (secbuf_base feed) (secbuf feed + 2) = Some b2"
      using "1.prems" by (auto simp: section_dump.simps [of env flts limit feed] bind_eq_Some_conv)
    define sl where "sl = section_length b1 b2"
    show ?thesis
    proof (cases "sl \<le> 0 \<or> sl > DMX_MAX_SECTION_SIZE \<or> sl + secbufp feed > limit")
      case True
      then show ?thesis
        using "1.prems" b \<open>secbufp feed + 2 < limit\<close>
        by (auto simp: section_dump.simps [of env flts limit feed] sl_def)
    next
      case False
      define step where "step = (if pusi_seen feed
        then dvb_dmx_swfilter_section_feed env flts (feed\<lparr>seclen := sl, crc_val := NOT 0\<rparr>) w
        else Some (0, feed\<lparr>seclen := sl, crc_val := NOT 0\<rparr>, w))"
      have "section_dump env flts limit feed w = step \<bind> (\<lambda>(r, feed1, w1).
          section_dump env flts limit (feed1\<lparr>secbufp := secbufp feed1 + sl, secbuf := secbuf feed1 + sl\<rparr>) w1)"
        using b False \<open>secbufp feed + 2 < limit\<close>
        by (subst section_dump.simps) (auto simp: Let_def sl_def step_def)
      then obtain r feed1 w1 where s: "step = Some (r, feed1, w1)" and
        rest: "section_dump env flts limit (feed1\<lparr>secbufp := secbufp feed1 + sl, secbuf := secbuf feed1 + sl\<rparr>) w1
          = Some (feed', w')"
        using "1.prems" by (cases step) auto
      have "same_cfg (feed1\<lparr>secbufp := secbufp feed1 + sl, secbuf := secbuf feed1 + sl\<rparr>) feed'"
        using "1.IH" [OF \<open>secbufp feed + 2 < limit\<close> b sl_def False s [unfolded step_def] refl refl rest] .
      moreover have "same_cfg feed feed1"
        using s by (auto simp: step_def same_cfg_def split: if_splits dest!: section_feed_cfg)
      ultimately show ?thesis by (simp add: same_cfg_def)
    qed
  next
    case False
    then show ?thesis using "1.prems" by (simp add: section_dump.simps [of env flts limit feed])
  qed
qed

lemma copy_dump_cfg:
  assumes "dvb_dmx_swfilter_section_copy_dump env flts feed buf len w = Some (r, feed', w')"
  shows "same_cfg feed feed'"
proof (cases "tsfeedp feed \<ge> DMX_MAX_SECFEED_SIZE \<or> len = 0")
  case True
  then have "dvb_dmx_swfilter_section_copy_dump env flts feed buf len w = Some (0, feed, w)"
    by (elim disjE) (simp_all add: dvb_dmx_swfilter_section_copy_dump_def)
  then show ?thesis using assms by simp
next
  case False
  define l where "l = (if tsfeedp feed + len > DMX_MAX_SECFEED_SIZE then DMX_MAX_SECFEED_SIZE - tsfeedp feed else len)"
  define dump where "dump base = section_dump env flts (tsfeedp feed + l)
      (feed\<lparr>secbuf_base := base, tsfeedp := tsfeedp feed + l, secbuf := secbufp feed\<rparr>) w" for base
  have l: "0 < l" "tsfeedp feed + l \<le> DMX_MAX_SECFEED_SIZE" using False by (auto simp: l_def)
  have eq: "dvb_dmx_swfilter_section_copy_dump env flts feed buf len w =
      memrd buf 0 l \<bind> (\<lambda>bs. memwr (secbuf_base feed) (tsfeedp feed) bs \<bind> (\<lambda>base.
        dump base \<bind> (\<lambda>(feed, w). Some (0, feed, w))))"
    using False l
    by (simp add: dvb_dmx_swfilter_section_copy_dump_def l_def [symmetric] Let_def dump_def)
  obtain bs base where "memwr (secbuf_base feed) (tsfeedp feed) bs = Some base" "dump base = Some (feed', w')"
    using assms [unfolded eq] by (auto simp: bind_eq_Some_conv)
  then show ?thesis by (auto simp: dump_def same_cfg_def dest!: memwr_length section_dump_cfg)
qed

lemma section_packet_cfg:
  assumes "dvb_dmx_swfilter_section_packet env flts feed b w = Some (r, feed', w')"
  shows "same_cfg feed feed'"
proof (cases "payload b = 0")
  case True
  then show ?thesis using assms by (simp add: dvb_dmx_swfilter_section_packet_def)
next
  case False
  let ?p = "188 - payload b"
  let ?cd = "dvb_dmx_swfilter_section_copy_dump env flts"
  define c where "c = int (unat (b ! 3 AND 0x0f))"
  define feed1 where "feed1 = (if (cc feed + 1) AND 0x0f \<noteq> c \<or>
      b ! 3 AND 0x20 \<noteq> 0 \<and> b ! 4 > 0 \<and> b ! 5 AND 0x80 \<noteq> 0
    then dvb_dmx_swfilter_section_new (feed\<lparr>cc := c, pusi_seen := False\<rparr>) else feed\<lparr>cc := c\<rparr>)"
  have f1: "same_cfg feed feed1" by (simp add: feed1_def same_cfg_def dvb_dmx_swfilter_section_new_def)
  have eq: "dvb_dmx_swfilter_section_packet env flts feed b w =
     (if b ! 1 AND 0x40 \<noteq> 0 then
        if payload b > 1 \<and> unat (b ! ?p) < payload b then
          ?cd feed1 (drop (?p + 1) b) (unat (b ! ?p)) w \<bind> (\<lambda>(r, feed, w).
            ?cd (dvb_dmx_swfilter_section_new (feed\<lparr>pusi_seen := True\<rparr>))
              (drop (unat (b ! ?p)) (drop (?p + 1) b)) (payload b - 1 - unat (b ! ?p)) w \<bind>
              (\<lambda>(r, feed, w). Some (0, feed, w)))
        else Some (0, feed1, w)
      else ?cd feed1 (drop ?p b) (payload b) w \<bind> (\<lambda>(r, feed, w). Some (0, feed, w)))"
    using False by (simp add: dvb_dmx_swfilter_section_packet_def Let_def feed1_def c_def)
  have new: "same_cfg (dvb_dmx_swfilter_section_new (f\<lparr>pusi_seen := True\<rparr>)) = same_cfg f" for f
    by (simp add: same_cfg_def dvb_dmx_swfilter_section_new_def fun_eq_iff)
  show ?thesis
    using assms f1 unfolding eq
    by (auto simp: bind_eq_Some_conv new split: if_splits dest!: copy_dump_cfg intro: same_cfg_trans)
qed

lemma packet_type_cfg:
  assumes "dvb_dmx_swfilter_packet_type env flts fd feed b w = Some (feed', w')"
  shows "same_cfg feed feed'"
proof (cases "fd_type feed")
  case DMX_TYPE_TS
  have "same_cfg feed (fst (snd (dvb_dmx_swfilter_payload env fd feed b w)))"
    by (simp add: dvb_dmx_swfilter_payload_def Let_def same_cfg_def split: prod.split)
  then show ?thesis
    using DMX_TYPE_TS assms
    by (auto simp: dvb_dmx_swfilter_packet_type_def Let_def split: if_splits prod.splits option.splits)
next
  case DMX_TYPE_SEC
  then show ?thesis
    using assms
    by (auto simp: dvb_dmx_swfilter_packet_type_def bind_eq_Some_conv same_cfg_def split: if_splits
        dest!: section_packet_cfg)
qed (use assms in \<open>simp add: dvb_dmx_swfilter_packet_type_def\<close>)

section \<open>The feeds a packet reaches\<close>

text \<open>One feed of the list, with the packet: the body of \<open>list_for_each_entry\<close> after its
  \<open>continue\<close> statements.\<close>

definition give ::
  "'w dmx_env \<Rightarrow> u8 list \<Rightarrow> nat \<Rightarrow> dvb_demux \<Rightarrow> 'w \<Rightarrow> (dvb_demux \<times> 'w) option" where
  "give env buf fd demux w =
     (if pid (dmx_feed demux ! fd) = ts_pid buf then do {
        (feed, w) \<leftarrow> dvb_dmx_swfilter_packet_type env (dmx_filter demux) fd (dmx_feed demux ! fd) buf w;
        Some (demux\<lparr>dmx_feed := (dmx_feed demux)[fd := feed]\<rparr>, w) }
      else Some (demux, snd (cb_ts env fd buf w)))"

fun give_all ::
  "'w dmx_env \<Rightarrow> u8 list \<Rightarrow> nat list \<Rightarrow> dvb_demux \<Rightarrow> 'w \<Rightarrow> (dvb_demux \<times> 'w) option" where
  "give_all env buf [] demux w = Some (demux, w)"
| "give_all env buf (fd # fds) demux w = give env buf fd demux w \<bind> (\<lambda>(demux, w). give_all env buf fds demux w)"

text \<open>The feeds that want the packet: those of its PID and those of the whole stream (PID 0x2000).
  Of the feeds of the DVR device only the first gets it.\<close>

definition wants :: "dvb_demux_feed list \<Rightarrow> u8 list \<Rightarrow> nat \<Rightarrow> bool" where
  "wants feeds buf fd \<longleftrightarrow> pid (feeds ! fd) = ts_pid buf \<or> pid (feeds ! fd) = 0x2000"

definition dvr :: "dvb_demux_feed list \<Rightarrow> nat \<Rightarrow> bool" where
  "dvr feeds fd \<longleftrightarrow> DVR_FEED (feeds ! fd)"

definition receivers :: "dvb_demux_feed list \<Rightarrow> u8 list \<Rightarrow> bool \<Rightarrow> nat list \<Rightarrow> nat list" where
  "receivers feeds buf dvr_done fds =
     (let ws = filter (wants feeds buf) fds in
      if dvr_done then filter (\<lambda>fd. \<not> dvr feeds fd) ws
      else takeWhile (\<lambda>fd. \<not> dvr feeds fd) ws
           @ take 1 (dropWhile (\<lambda>fd. \<not> dvr feeds fd) ws)
           @ filter (\<lambda>fd. \<not> dvr feeds fd) (tl (dropWhile (\<lambda>fd. \<not> dvr feeds fd) ws)))"

lemma receivers_Cons:
  "receivers feeds buf dn (fd # fds) =
     (if \<not> wants feeds buf fd \<or> dvr feeds fd \<and> dn then receivers feeds buf dn fds
      else fd # receivers feeds buf (dn \<or> dvr feeds fd) fds)"
  by (auto simp: receivers_def Let_def)

definition same_cfgs :: "dvb_demux_feed list \<Rightarrow> dvb_demux_feed list \<Rightarrow> bool" where
  "same_cfgs fs fs' \<longleftrightarrow> list_all2 same_cfg fs fs'"

lemma same_cfgs_refl [simp]: "same_cfgs fs fs"
  by (simp add: same_cfgs_def list_all2_conv_all_nth)

lemma receivers_cfg:
  assumes "same_cfgs fs fs'" "\<forall>fd\<in>set fds. fd < length fs"
  shows "receivers fs' buf dn fds = receivers fs buf dn fds"
  using assms(2)
proof (induction fds arbitrary: dn)
  case (Cons fd fds)
  then have "same_cfg (fs ! fd) (fs' ! fd)" using assms(1) by (simp add: same_cfgs_def list_all2_nthD)
  then have "wants fs' buf fd = wants fs buf fd" "dvr fs' fd = dvr fs fd"
    by (simp_all add: wants_def dvr_def same_cfg_def DVR_FEED_def)
  then show ?case using Cons by (simp add: receivers_Cons)
qed (simp add: receivers_def)

lemma give_cfg:
  assumes "give env buf fd demux w = Some (demux', w')" "fd < length (dmx_feed demux)"
  shows "same_cfgs (dmx_feed demux) (dmx_feed demux')"
  using assms
  by (auto simp: give_def same_cfgs_def list_all2_conv_all_nth nth_list_update bind_eq_Some_conv
      split: if_splits dest!: packet_type_cfg)

text \<open>Dispatching a packet to a list of distinct feeds gives it to exactly its receivers.\<close>

lemma feed_packet_eq:
  "\<forall>fd\<in>set fds. fd < length (dmx_feed demux) \<Longrightarrow>
     feed_packet env buf fds dn demux w = give_all env buf (receivers (dmx_feed demux) buf dn fds) demux w"
proof (induction fds arbitrary: dn demux w)
  case (Cons fd fds)
  define feed where "feed = dmx_feed demux ! fd"
  have rd: "rd (dmx_feed demux) fd = Some feed" using Cons.prems by (simp add: mem_simps feed_def)
  show ?case
  proof (cases "\<not> wants (dmx_feed demux) buf fd \<or> dvr (dmx_feed demux) fd \<and> dn")
    case True
    then have "feed_packet env buf (fd # fds) dn demux w = feed_packet env buf fds dn demux w"
      using rd by (auto simp: wants_def dvr_def feed_def)
    then show ?thesis using Cons True by (simp add: receivers_Cons)
  next
    case False
    then have "feed_packet env buf (fd # fds) dn demux w =
        give env buf fd demux w \<bind> (\<lambda>(demux, w). feed_packet env buf fds (dn \<or> DVR_FEED feed) demux w)"
      using rd
      by (cases "dvb_dmx_swfilter_packet_type env (dmx_filter demux) fd feed buf w")
        (auto simp: wants_def dvr_def feed_def give_def Let_def)
    moreover have "feed_packet env buf fds d demux' w' = give_all env buf (receivers (dmx_feed demux) buf d fds) demux' w'"
      if "give env buf fd demux w = Some (demux', w')" for demux' w' d
    proof -
      have cfg: "same_cfgs (dmx_feed demux) (dmx_feed demux')" using give_cfg [OF that] Cons.prems by simp
      then have "length (dmx_feed demux') = length (dmx_feed demux)"
        by (simp add: same_cfgs_def list_all2_lengthD)
      then show ?thesis using Cons.IH [of demux' d w'] Cons.prems receivers_cfg [OF cfg] by simp
    qed
    ultimately show ?thesis
      using False by (cases "give env buf fd demux w") (auto simp: receivers_Cons feed_def dvr_def)
  qed
qed (simp add: receivers_def)

lemma receivers_dvr:
  "filter (dvr feeds) (receivers feeds buf dn fds)
     = (if dn then [] else take 1 (filter (\<lambda>fd. wants feeds buf fd \<and> dvr feeds fd) fds))"
proof (induction fds arbitrary: dn)
  case (Cons fd fds)
  then show ?case using Cons.IH [of True] by (simp add: receivers_Cons)
qed (simp add: receivers_def)

lemma receivers_others:
  "filter (\<lambda>fd. \<not> dvr feeds fd) (receivers feeds buf dn fds)
     = filter (\<lambda>fd. wants feeds buf fd \<and> \<not> dvr feeds fd) fds"
  by (induction fds arbitrary: dn) (simp_all add: receivers_Cons, simp add: receivers_def)

text \<open>C7. A packet reaches the right feeds: \<open>dvb_dmx_swfilter_packet\<close> hands it, in the order of the feed
  list, to every feed of its PID or of the whole stream that is not a feed of the DVR device, and
  to the first one of those that are, so that the DVR device sees the packet at most once.\<close>

theorem packet_dispatch:
  assumes "\<forall>fd\<in>set (feed_list demux). fd < length (dmx_feed demux)"
    and "\<not> dvb_demux_speedcheck env" and "\<not> dvb_demux_tscheck env"
  shows "\<exists>rs. dvb_dmx_swfilter_packet env demux buf w = give_all env buf rs demux w
    \<and> filter (\<lambda>fd. \<not> dvr (dmx_feed demux) fd) rs
        = filter (\<lambda>fd. wants (dmx_feed demux) buf fd \<and> \<not> dvr (dmx_feed demux) fd) (feed_list demux)
    \<and> filter (dvr (dmx_feed demux)) rs
        = take 1 (filter (\<lambda>fd. wants (dmx_feed demux) buf fd \<and> dvr (dmx_feed demux) fd) (feed_list demux))"
proof -
  have "dvb_dmx_swfilter_packet env demux buf w = feed_packet env buf (feed_list demux) False demux w"
    using assms(2,3)
    by (simp add: dvb_dmx_swfilter_packet_def speed_report_def continuity_check_def split: option.split)
  then show ?thesis
    using feed_packet_eq [OF assms(1), of env buf False w] receivers_dvr [of "dmx_feed demux" buf False]
      receivers_others [of "dmx_feed demux" buf False] by auto
qed

section \<open>Packets in a byte stream\<close>

text \<open>The data path does not look at the buffer of the incomplete packet.\<close>

definition with_tsbuf :: "u8 list \<Rightarrow> nat \<Rightarrow> dvb_demux \<times> 'w \<Rightarrow> dvb_demux \<times> 'w" where
  "with_tsbuf t i = (\<lambda>(d, w). (d\<lparr>tsbuf := t, tsbufp := i\<rparr>, w))"

lemma feed_packet_tsbuf:
  "feed_packet env buf fds dn (demux\<lparr>tsbuf := t, tsbufp := i\<rparr>) w
     = map_option (with_tsbuf t i) (feed_packet env buf fds dn demux w)"
proof (induction fds arbitrary: dn demux w)
  case (Cons fd fds)
  show ?case
  proof (cases "rd (dmx_feed demux) fd")
    case (Some feed)
    have swap: "demux\<lparr>tsbuf := t, tsbufp := i, dmx_feed := x\<rparr> = demux\<lparr>dmx_feed := x, tsbuf := t, tsbufp := i\<rparr>" for x
      by simp
    have step: "feed_packet env buf fds d (demux\<lparr>tsbuf := t, tsbufp := i, dmx_feed := x\<rparr>) w'
      = map_option (with_tsbuf t i) (feed_packet env buf fds d (demux\<lparr>dmx_feed := x\<rparr>) w')" for d x w'
      unfolding swap using Cons.IH [of d "demux\<lparr>dmx_feed := x\<rparr>" w'] by simp
    show ?thesis
      using Some Cons.IH
      by (cases "dvb_dmx_swfilter_packet_type env (dmx_filter demux) fd feed buf w") (auto simp: Let_def step)
  qed simp
qed (simp add: with_tsbuf_def)

lemma speed_report_tsbuf:
  "speed_report env (demux\<lparr>tsbuf := t, tsbufp := i\<rparr>) w
     = map_option (\<lambda>d. d\<lparr>tsbuf := t, tsbufp := i\<rparr>) (speed_report env demux w)"
  by (simp add: speed_report_def Let_def)

lemma continuity_check_tsbuf:
  "continuity_check env (demux\<lparr>tsbuf := t, tsbufp := i\<rparr>) b
     = map_option (\<lambda>d. d\<lparr>tsbuf := t, tsbufp := i\<rparr>) (continuity_check env demux b)"
  by (auto simp: continuity_check_def wr_def split: option.split)

lemma swfilter_packet_tsbuf:
  "dvb_dmx_swfilter_packet env (demux\<lparr>tsbuf := t, tsbufp := i\<rparr>) b w
     = map_option (with_tsbuf t i) (dvb_dmx_swfilter_packet env demux b w)"
proof (cases "speed_report env demux w")
  case (Some d1)
  then show ?thesis
    by (cases "continuity_check env d1 b")
      (simp_all add: dvb_dmx_swfilter_packet_def speed_report_tsbuf continuity_check_tsbuf feed_packet_tsbuf)
qed (simp add: dvb_dmx_swfilter_packet_def speed_report_tsbuf)

fun process_packets ::
  "'w dmx_env \<Rightarrow> u8 list list \<Rightarrow> dvb_demux \<times> 'w \<Rightarrow> (dvb_demux \<times> 'w) option" where
  "process_packets env [] (demux, w) = Some (demux, w)"
| "process_packets env (p # ps) (demux, w) = dvb_dmx_swfilter_packet env demux p w \<bind> process_packets env ps"

lemma process_packets_tsbuf:
  "process_packets env ps (with_tsbuf t i dw) = map_option (with_tsbuf t i) (process_packets env ps dw)"
proof (induction ps arbitrary: dw)
  case (Cons p ps)
  obtain d w where dw: "dw = (d, w)" by (cases dw)
  show ?case
    unfolding dw using Cons.IH
    by (cases "dvb_dmx_swfilter_packet env d p w") (auto simp: with_tsbuf_def swfilter_packet_tsbuf)
qed (auto simp: with_tsbuf_def)

lemma process_packets_append:
  "process_packets env (ps @ qs) dw = process_packets env ps dw \<bind> process_packets env qs"
proof (induction ps arbitrary: dw)
  case (Cons p ps)
  then show ?case
    by (cases dw, cases "dvb_dmx_swfilter_packet env (fst dw) p (snd dw)") auto
next
  case Nil
  then show ?case by (cases dw) simp
qed

lemma with_tsbuf_idem [simp]: "with_tsbuf t i (with_tsbuf t' i' dw) = with_tsbuf t i dw"
  by (cases dw) (simp add: with_tsbuf_def)

text \<open>A frame is a packet, of 188 bytes or with 16 bytes of error correction. In the latter case
  the sync byte of every eighth frame is inverted, which the filter undoes.\<close>

definition frame_ok :: "nat \<Rightarrow> u8 list \<Rightarrow> bool" where
  "frame_ok pktsize f \<longleftrightarrow> length f = pktsize \<and> sync_byte pktsize (f ! 0)"

definition frame_packet :: "u8 list \<Rightarrow> u8 list" where
  "frame_packet f = take 188 (f[0 := 0x47])"

lemma with_tsbuf_same: "with_tsbuf (tsbuf d) (tsbufp d) (d, w) = (d, w)"
  by (simp add: with_tsbuf_def)

lemma find_next_packet_here:
  assumes "p \<le> count" "count \<le> length buf" "p < count \<Longrightarrow> sync_byte pktsize (buf ! p)"
  shows "find_next_packet buf p count pktsize = Some p"
proof -
  have "sync_scan buf p count pktsize = Some p"
    using assms by (subst sync_scan.simps) (auto simp: mem_simps)
  then show ?thesis by (simp add: find_next_packet_def)
qed

lemma frame_head:
  assumes "list_all (frame_ok pktsize) fs" "0 < pktsize" "p < length buf" "drop p buf @ rest = concat fs"
  obtains f fs' where "fs = f # fs'" "buf ! p = f ! 0" "length f = pktsize" "sync_byte pktsize (f ! 0)"
proof (cases fs)
  case Nil
  then show ?thesis using assms by simp
next
  case (Cons f fs')
  have f: "length f = pktsize" "sync_byte pktsize (f ! 0)" using Cons assms(1) by (simp_all add: frame_ok_def)
  have "(drop p buf @ rest) ! 0 = (f @ concat fs') ! 0" using Cons assms(4) by (simp del: nth_append)
  moreover have "(drop p buf @ rest) ! 0 = buf ! p" using assms(3) by (simp add: nth_append)
  moreover have "(f @ concat fs') ! 0 = f ! 0" using f(1) assms(2) by (simp add: nth_append)
  ultimately show ?thesis using that Cons f by simp
qed

lemma swfilter_loop_end:
  assumes "pktsize = 188 \<or> pktsize = 204" "list_all (frame_ok pktsize) fs" "p \<le> length buf"
    and "drop p buf @ rest = concat fs" "length buf - p < pktsize"
  shows "swfilter_loop env demux buf p (length buf) pktsize w = Some (p, demux, w)"
proof -
  have "sync_byte pktsize (buf ! p)" if "p < length buf"
  proof -
    have "0 < pktsize" using assms(1) by auto
    then show ?thesis using frame_head [OF assms(2) _ that assms(4)] by metis
  qed
  then have "find_next_packet buf p (length buf) pktsize = Some p"
    using assms(3) by (intro find_next_packet_here) auto
  then show ?thesis using assms(1,5) by (subst swfilter_loop.simps) auto
qed

lemma swfilter_loop_step:
  assumes ps: "pktsize = 188 \<or> pktsize = 204" and f: "frame_ok pktsize f"
    and p: "p + pktsize \<le> length buf" "take pktsize (drop p buf) = f" and tb: "length (tsbuf demux) = 204"
  obtains t where "length t = 204"
    "swfilter_loop env demux buf p (length buf) pktsize w
       = dvb_dmx_swfilter_packet env demux (frame_packet f) w \<bind>
         (\<lambda>dw. case with_tsbuf t (tsbufp demux) dw of (demux, w) \<Rightarrow>
            swfilter_loop env demux buf (p + pktsize) (length buf) pktsize w)"
proof -
  have nth: "buf ! p = f ! 0" using p ps by (metis drop_eq_Nil hd_drop_conv_nth hd_take hd_conv_nth
        add_leD1 f frame_ok_def length_greater_0_conv less_le_trans not_le zero_less_numeral less_add_same_cancel1)
  have "sync_byte pktsize (f ! 0)" using f by (simp add: frame_ok_def)
  then have fnp: "find_next_packet buf p (length buf) pktsize = Some p"
    using nth p(1) by (intro find_next_packet_here) auto
  have pk: "memrd buf p 188 = Some (take 188 f)"
    using p ps by (auto simp: mem_simps)
  have fp: "(take 188 f)[0 := 0x47] = frame_packet f" by (simp add: frame_packet_def take_update_swap)
  have len: "length f = pktsize" using f by (simp add: frame_ok_def)
  show thesis
  proof (cases "pktsize = 204 \<and> f ! 0 = 0xB8")
    case True
    define t where "t = frame_packet f @ drop 188 (tsbuf demux)"
    have lt: "length t = 204" using tb True len by (simp add: t_def frame_packet_def)
    have "memwr (tsbuf demux) 0 (frame_packet f) = Some t"
      using tb len True by (simp add: memwr_def t_def frame_packet_def)
    then have "swfilter_loop env demux buf p (length buf) pktsize w
       = dvb_dmx_swfilter_packet env (demux\<lparr>tsbuf := t, tsbufp := tsbufp demux\<rparr>) (frame_packet f) w \<bind>
         (\<lambda>(demux, w). swfilter_loop env demux buf (p + pktsize) (length buf) pktsize w)"
      using True fnp pk p(1) fp by (subst swfilter_loop.simps) (simp add: not_less less_diff_conv2)
    then show thesis
      using that [OF lt] unfolding swfilter_packet_tsbuf
      by (cases "dvb_dmx_swfilter_packet env demux (frame_packet f) w") simp_all
  next
    case False
    have "f ! 0 = 0x47" using False f by (auto simp: frame_ok_def sync_byte_def)
    then have "frame_packet f = take 188 f" by (metis fp list_update_id nth_take zero_less_numeral)
    then have "swfilter_loop env demux buf p (length buf) pktsize w
       = dvb_dmx_swfilter_packet env (demux\<lparr>tsbuf := tsbuf demux, tsbufp := tsbufp demux\<rparr>) (frame_packet f) w \<bind>
         (\<lambda>(demux, w). swfilter_loop env demux buf (p + pktsize) (length buf) pktsize w)"
      using False fnp pk p ps by (subst swfilter_loop.simps) auto
    then show thesis
      using that [OF tb] unfolding swfilter_packet_tsbuf
      by (cases "dvb_dmx_swfilter_packet env demux (frame_packet f) w") simp_all
  qed
qed

lemma swfilter_loop_frames:
  assumes ps: "pktsize = 188 \<or> pktsize = 204"
  shows "\<lbrakk>list_all (frame_ok pktsize) fs; p \<le> length buf; drop p buf @ rest = concat fs;
      length (tsbuf demux) = 204\<rbrakk> \<Longrightarrow>
    let k = (length buf - p) div pktsize in
    \<exists>t. length t = 204 \<and> swfilter_loop env demux buf p (length buf) pktsize w
      = map_option (\<lambda>dw. (p + pktsize * k, with_tsbuf t (tsbufp demux) dw))
          (process_packets env (map frame_packet (take k fs)) (demux, w))"
proof (induction fs arbitrary: p demux w)
  case Nil
  then have "swfilter_loop env demux buf p (length buf) pktsize w = Some (p, demux, w)"
    using ps by (intro swfilter_loop_end [where fs = "[]"]) auto
  then show ?case
    using Nil unfolding Let_def by (intro exI [of _ "tsbuf demux"]) (simp add: with_tsbuf_same)
next
  case (Cons f fs)
  let ?k = "(length buf - p) div pktsize"
  show ?case
  proof (cases "length buf - p < pktsize")
    case True
    then have "swfilter_loop env demux buf p (length buf) pktsize w = Some (p, demux, w)"
      using Cons.prems by (intro swfilter_loop_end [OF ps])
    then show ?thesis
      using True Cons.prems(4) unfolding Let_def by (intro exI [of _ "tsbuf demux"]) (simp add: with_tsbuf_same)
  next
    case False
    have f: "frame_ok pktsize f" "length f = pktsize" using Cons.prems(1) by (simp_all add: frame_ok_def)
    have p: "p + pktsize \<le> length buf" using False Cons.prems(2) by simp
    have "take pktsize (drop p buf @ rest) = take pktsize (f @ concat fs)"
      "drop pktsize (drop p buf @ rest) = drop pktsize (f @ concat fs)"
      using Cons.prems(3) by simp_all
    then have tk: "take pktsize (drop p buf) = f" and dr: "drop (p + pktsize) buf @ rest = concat fs"
      using f(2) p by (simp_all add: add.commute)
    have k: "?k = Suc ((length buf - (p + pktsize)) div pktsize)"
    proof -
      have "length buf - p = (length buf - (p + pktsize)) + pktsize" "pktsize \<noteq> 0" using p ps by auto
      then show ?thesis by (metis Suc_eq_plus1 div_add_self2)
    qed
    obtain t where t: "length t = 204"
      "swfilter_loop env demux buf p (length buf) pktsize w
       = dvb_dmx_swfilter_packet env demux (frame_packet f) w \<bind>
         (\<lambda>dw. case with_tsbuf t (tsbufp demux) dw of (demux, w) \<Rightarrow>
            swfilter_loop env demux buf (p + pktsize) (length buf) pktsize w)"
      using swfilter_loop_step [OF ps f(1) p tk Cons.prems(4)] by metis
    show ?thesis
    proof (cases "dvb_dmx_swfilter_packet env demux (frame_packet f) w")
      case None
      then show ?thesis
        using t(1) unfolding Let_def k by (intro exI [of _ t]) (simp add: t(2))
    next
      case (Some dw)
      define d1 w1 where "d1 = fst (with_tsbuf t (tsbufp demux) dw)" and "w1 = snd (with_tsbuf t (tsbufp demux) dw)"
      have d1: "with_tsbuf t (tsbufp demux) dw = (d1, w1)" "length (tsbuf d1) = 204" "tsbufp d1 = tsbufp demux"
        using t(1) by (simp_all add: d1_def w1_def with_tsbuf_def split: prod.split)
      define k' where "k' = (length buf - (p + pktsize)) div pktsize"
      obtain t' where t': "length t' = 204" and "swfilter_loop env d1 buf (p + pktsize) (length buf) pktsize w1
          = map_option (\<lambda>dw. (p + pktsize + pktsize * k', with_tsbuf t' (tsbufp demux) dw))
              (process_packets env (map frame_packet (take k' fs)) (d1, w1))"
        using Cons.IH [of "p + pktsize" d1 w1] Cons.prems(1) p dr d1 by (auto simp: Let_def k'_def)
      moreover have "process_packets env (map frame_packet (take k' fs)) (d1, w1)
          = map_option (with_tsbuf t (tsbufp demux)) (process_packets env (map frame_packet (take k' fs)) dw)"
        by (simp add: process_packets_tsbuf flip: d1(1))
      ultimately have "swfilter_loop env demux buf p (length buf) pktsize w
          = map_option (\<lambda>dw. (p + pktsize * Suc k', with_tsbuf t' (tsbufp demux) dw))
              (process_packets env (map frame_packet (take k' fs)) dw)"
        by (simp add: t(2) Some d1(1) option.map_comp comp_def add.assoc)
      then show ?thesis
        using t' Some unfolding Let_def k k'_def [symmetric] by (intro exI [of _ t']) simp
    qed
  qed
qed

definition rest_inv :: "nat \<Rightarrow> u8 list list \<Rightarrow> u8 list \<Rightarrow> nat \<Rightarrow> bool" where
  "rest_inv pktsize fs t i \<longleftrightarrow> length t = 204 \<and> i < pktsize
     \<and> (0 < i \<longrightarrow> fs \<noteq> [] \<and> take i t = take i ((hd fs)[0 := 0x47]))"

lemma keep_rest_frames:
  assumes ps: "pktsize = 188 \<or> pktsize = 204" and fs: "list_all (frame_ok pktsize) fs"
    and q: "q \<le> length buf" "length buf - q < pktsize" "drop q buf @ rest = concat fs"
  shows "\<exists>t'. rest_inv pktsize fs t' (length buf - q) \<and>
    (\<forall>d. length (tsbuf d) = 204 \<and> tsbuf d = t \<and> tsbufp d = 0 \<longrightarrow>
       keep_rest d buf q (length buf) pktsize = Some (d\<lparr>tsbuf := t', tsbufp := length buf - q\<rparr>))"
proof (cases "q = length buf")
  case True
  then show ?thesis using ps by (intro exI [of _ "if length t = 204 then t else replicate 204 0"])
      (auto simp: keep_rest_def rest_inv_def)
next
  case False
  define m where "m = length buf - q"
  have m: "0 < m" "m < pktsize" "q + m = length buf" using False q by (auto simp: m_def)
  obtain f fs' where fs': "fs = f # fs'" and f: "length f = pktsize" "sync_byte pktsize (f ! 0)"
    using frame_head [OF fs _ _ q(3)] m by (metis less_add_same_cancel1 less_trans)
  have "take m (drop q buf @ rest) = take m (f @ concat fs')" using q(3) fs' by simp
  then have bs: "drop q buf = take m f" using m f by (simp add: m_def)
  define t0 where "t0 = (if length t = 204 then t else replicate 204 0)"
  define t1 where "t1 = take m f @ drop m t0"
  have wr: "memwr t 0 (take m f) = Some t1" if "length t = 204"
    using that m f ps by (auto simp: memwr_def t1_def t0_def)
  have t1: "t1 ! 0 = f ! 0" "length t1 = 204" "take m t1 = take m f"
    using m f ps by (auto simp: t1_def t0_def nth_append)
  define t2 where "t2 = (if pktsize = 204 \<and> t1 ! 0 = 0xB8 then t1[0 := 0x47] else t1)"
  have "take m t2 = take m (f[0 := 0x47])"
  proof (cases "pktsize = 204 \<and> t1 ! 0 = 0xB8")
    case True
    then show ?thesis using t1(3) by (simp add: t2_def take_update_swap)
  next
    case False
    then have "f ! 0 = 0x47" using f(2) t1(1) by (auto simp: sync_byte_def)
    then have "f[0 := 0x47] = f" by (metis list_update_id)
    then show ?thesis using False t1(3) by (auto simp: t2_def)
  qed
  then have "rest_inv pktsize fs t2 m" using m t1(2) by (simp add: rest_inv_def t2_def fs')
  moreover have "keep_rest d buf q (length buf) pktsize = Some (d\<lparr>tsbuf := t2, tsbufp := m\<rparr>)"
    if "length (tsbuf d) = 204" "tsbuf d = t" for d
    using that m wr bs by (simp add: keep_rest_def m_def [symmetric] memrd_def t2_def Let_def)
  ultimately show ?thesis by (auto simp: m_def)
qed

lemma concat_drop_frames:
  "list_all (\<lambda>f. length f = n) fs \<Longrightarrow> drop (n * k) (concat fs) = concat (drop k fs)"
proof (induction fs arbitrary: k)
  case (Cons f fs)
  then show ?case by (cases k) auto
qed simp

lemma frames_length: "list_all (frame_ok n) fs \<Longrightarrow> list_all (\<lambda>f. length f = n) fs"
  by (simp add: list_all_iff frame_ok_def)

lemma swfilter_tail:
  assumes ps: "pktsize = 188 \<or> pktsize = 204" and fs: "list_all (frame_ok pktsize) fs"
    and p: "p \<le> length buf" "drop p buf @ rest = concat fs"
    and demux: "length (tsbuf demux) = 204" "tsbufp demux = 0"
    and k: "k = (length buf - p) div pktsize" and m: "m = (length buf - p) mod pktsize"
  shows "\<exists>t. rest_inv pktsize (drop k fs) t m \<and>
    swfilter_loop env demux buf p (length buf) pktsize w \<bind> (\<lambda>(p, demux, w).
      keep_rest demux buf p (length buf) pktsize \<bind> (\<lambda>demux. Some (demux, w)))
    = map_option (with_tsbuf t m) (process_packets env (map frame_packet (take k fs)) (demux, w))"
proof -
  let ?q = "p + pktsize * k"
  obtain t where t: "length t = 204" "swfilter_loop env demux buf p (length buf) pktsize w
      = map_option (\<lambda>dw. (?q, with_tsbuf t 0 dw)) (process_packets env (map frame_packet (take k fs)) (demux, w))"
    using swfilter_loop_frames [OF ps fs p demux(1), of env w] demux(2) k by (auto simp: Let_def)
  have km: "length buf - p = pktsize * k + m" by (simp add: k m)
  have q: "?q \<le> length buf" "length buf - ?q = m" "m < pktsize" using km p(1) ps by (auto simp: m)
  have "drop (pktsize * k) (drop p buf @ rest) = concat (drop k fs)"
    using concat_drop_frames [OF frames_length [OF fs]] p(2) by simp
  then have "drop ?q buf @ rest = concat (drop k fs)" using km by (simp add: add.commute)
  moreover have "list_all (frame_ok pktsize) (drop k fs)" using fs by (simp add: list_all_iff) (meson in_set_dropD)
  ultimately obtain t' where t': "rest_inv pktsize (drop k fs) t' m"
    "\<And>d. tsbuf d = t \<Longrightarrow> tsbufp d = 0 \<Longrightarrow>
       keep_rest d buf ?q (length buf) pktsize = Some (d\<lparr>tsbuf := t', tsbufp := m\<rparr>)"
    using keep_rest_frames [OF ps, of "drop k fs" ?q buf rest t] q t(1) by auto
  show ?thesis
    using t'
    by (intro exI [of _ t'], cases "process_packets env (map frame_packet (take k fs)) (demux, w)")
      (auto simp: t(2) with_tsbuf_def)
qed

lemma swfilter_call_more:
  assumes ps: "pktsize = 188 \<or> pktsize = 204" and fs: "list_all (frame_ok pktsize) fs"
    and inv: "rest_inv pktsize fs (tsbuf demux) i" and i: "i = tsbufp demux" "0 < i"
    and c: "c @ rest = drop i (concat fs)" and n: "i + length c < pktsize"
  shows "\<exists>t. rest_inv pktsize fs t (i + length c) \<and>
    dvb_dmx_swfilter_pktsize env demux c (length c) pktsize w = Some (demux\<lparr>tsbuf := t, tsbufp := i + length c\<rparr>, w)"
proof -
  note inv' = inv [unfolded rest_inv_def]
  obtain f fs' where f: "fs = f # fs'" using inv' i by (cases fs) auto
  have len: "length f = pktsize" using fs f by (simp add: frame_ok_def)
  have "c = take (length c) (c @ rest)" by simp
  also have "\<dots> = take (length c) (drop i f)" using c f len n by simp
  finally have cc: "c = take (length c) (drop i (f[0 := 0x47]))" using i by simp
  define t where "t = take i (tsbuf demux) @ c @ drop (i + length c) (tsbuf demux)"
  have "take (i + length c) t = take i (f[0 := 0x47]) @ c"
    using inv' n i f len ps by (auto simp: t_def)
  also have "\<dots> = take (i + length c) (f[0 := 0x47])" using cc by (simp add: take_add)
  finally have "rest_inv pktsize fs t (i + length c)"
    using inv' n ps by (auto simp: rest_inv_def f t_def)
  moreover have "to_u64 (int pktsize - int i) = int (pktsize - i)"
    using n ps by (auto simp: to_u64_def of_nat_diff)
  then have "dvb_dmx_swfilter_pktsize env demux c (length c) pktsize w
      = Some (demux\<lparr>tsbuf := t, tsbufp := i + length c\<rparr>, w)"
    using n i(2) inv' ps by (auto simp: dvb_dmx_swfilter_pktsize_def i(1) [symmetric] mem_simps t_def)
  ultimately show ?thesis by blast
qed

lemma swfilter_call_full:
  assumes ps: "pktsize = 188 \<or> pktsize = 204" and f: "frame_ok pktsize f"
    and inv: "rest_inv pktsize (f # fs) (tsbuf demux) i" and i: "i = tsbufp demux" "0 < i"
    and c: "c @ rest = drop i (f @ concat fs)" and n: "pktsize \<le> i + length c"
  defines "j \<equiv> pktsize - i"
  shows "drop j c @ rest = concat fs"
    and "\<exists>t. length t = 204 \<and> dvb_dmx_swfilter_pktsize env demux c (length c) pktsize w =
      map_option (with_tsbuf t 0) (dvb_dmx_swfilter_packet env demux (frame_packet f) w) \<bind> (\<lambda>(demux, w).
        swfilter_loop env demux c j (length c) pktsize w \<bind> (\<lambda>(p, demux, w).
          keep_rest demux c p (length c) pktsize \<bind> (\<lambda>demux. Some (demux, w))))"
proof -
  note inv' = inv [unfolded rest_inv_def]
  let ?F = "f[0 := 0x47]"
  have len: "length f = pktsize" using f by (simp add: frame_ok_def)
  have cr: "c @ rest = drop i f @ concat fs" using c inv' len by simp
  have j: "j = length (drop i f)" "j \<le> length c" using len n by (auto simp: j_def)
  have "take j (c @ rest) = drop i f" "drop j (c @ rest) = concat fs" using cr j(1) by simp_all
  then have tk: "take j c = drop i f" and "drop j c @ rest = concat fs" using j(2) by simp_all
  then show "drop j c @ rest = concat fs" by simp
  define tb where "tb = ?F @ drop pktsize (tsbuf demux)"
  have "take i (tsbuf demux) @ drop i f = ?F"
    using inv' i append_take_drop_id [of i ?F] by simp
  then have "take i (tsbuf demux) @ drop i f @ drop pktsize (tsbuf demux) = tb"
    unfolding tb_def by (metis append_assoc)
  then have "memwr (tsbuf demux) i (drop i f) = Some tb"
    using inv' len ps i by (auto simp: memwr_def)
  moreover have "memrd tb 0 188 = Some (frame_packet f)"
    using inv' len ps by (auto simp: memrd_def tb_def frame_packet_def)
  moreover have "frame_packet f ! 0 = 0x47" using len ps by (auto simp: frame_packet_def)
  moreover have "to_u64 (int pktsize - int i) = int j" using inv' ps by (auto simp: to_u64_def of_nat_diff j_def)
  moreover have "memrd c 0 j = Some (drop i f)" using tk j(2) by (simp add: memrd_def)
  ultimately have "dvb_dmx_swfilter_pktsize env demux c (length c) pktsize w =
      dvb_dmx_swfilter_packet env (demux\<lparr>tsbuf := tb\<rparr>) (frame_packet f) w \<bind> (\<lambda>(demux, w).
        swfilter_loop env (demux\<lparr>tsbufp := 0\<rparr>) c j (length c) pktsize w \<bind> (\<lambda>(p, demux, w).
          keep_rest demux c p (length c) pktsize \<bind> (\<lambda>demux. Some (demux, w))))"
    using i(2) j(2)
    by (cases "dvb_dmx_swfilter_packet env (demux\<lparr>tsbuf := tb\<rparr>) (frame_packet f) w")
      (auto simp: dvb_dmx_swfilter_pktsize_def i(1) [symmetric])
  moreover have "dvb_dmx_swfilter_packet env (demux\<lparr>tsbuf := tb\<rparr>) (frame_packet f) w
      = map_option (with_tsbuf tb i) (dvb_dmx_swfilter_packet env demux (frame_packet f) w)"
    using swfilter_packet_tsbuf [where demux = demux and t = tb and i = "tsbufp demux"] i(1) by simp
  ultimately show "\<exists>t. length t = 204 \<and> dvb_dmx_swfilter_pktsize env demux c (length c) pktsize w =
      map_option (with_tsbuf t 0) (dvb_dmx_swfilter_packet env demux (frame_packet f) w) \<bind> (\<lambda>(demux, w).
        swfilter_loop env demux c j (length c) pktsize w \<bind> (\<lambda>(p, demux, w).
          keep_rest demux c p (length c) pktsize \<bind> (\<lambda>demux. Some (demux, w))))"
    using inv' len ps
    by (intro exI [of _ tb], cases "dvb_dmx_swfilter_packet env demux (frame_packet f) w")
      (auto simp: tb_def with_tsbuf_def)
qed

lemma swfilter_call_complete:
  assumes ps: "pktsize = 188 \<or> pktsize = 204" and fs: "list_all (frame_ok pktsize) fs"
    and inv': "rest_inv pktsize fs (tsbuf demux) i" and i_def: "i = tsbufp demux"
    and c': "c @ rest = drop i (concat fs)" and full: "0 < i" "pktsize \<le> i + length c"
    and k: "k = (i + length c) div pktsize" and m: "m = (i + length c) mod pktsize"
  shows "\<exists>t. rest_inv pktsize (drop k fs) t m \<and>
    dvb_dmx_swfilter_pktsize env demux c (length c) pktsize w
    = map_option (with_tsbuf t m) (process_packets env (map frame_packet (take k fs)) (demux, w))"
proof -
  obtain f fs' where f: "fs = f # fs'" using inv' full by (cases fs) (auto simp: rest_inv_def)
  define j where "j = pktsize - i"
  have i: "i < pktsize" using inv' by (simp add: rest_inv_def)
  have fok: "frame_ok pktsize f" "list_all (frame_ok pktsize) fs'" using fs f by simp_all
  have dj: "drop j c @ rest = concat fs'"
    using swfilter_call_full(1) [OF ps fok(1) inv' [unfolded f] i_def full(1) _ full(2)] c' f by (simp add: j_def)
  obtain t where t: "length t = 204" "dvb_dmx_swfilter_pktsize env demux c (length c) pktsize w =
    map_option (with_tsbuf t 0) (dvb_dmx_swfilter_packet env demux (frame_packet f) w) \<bind> (\<lambda>(demux, w).
      swfilter_loop env demux c j (length c) pktsize w \<bind> (\<lambda>(p, demux, w).
        keep_rest demux c p (length c) pktsize \<bind> (\<lambda>demux. Some (demux, w))))"
    using swfilter_call_full(2) [OF ps fok(1) inv' [unfolded f] i_def full(1) _ full(2), of rest env w] c' f
    by (auto simp: j_def)
  define k' where "k' = (length c - j) div pktsize"
  have jc: "j \<le> length c" using full by (simp add: j_def)
  have n: "i + length c = (length c - j) + pktsize" using full i by (simp add: j_def)
  have k': "k = Suc k'" and m': "m = (length c - j) mod pktsize"
    unfolding k m n k'_def using ps by auto
  have tail: "\<exists>t'. rest_inv pktsize (drop k' fs') t' m \<and>
    swfilter_loop env d c j (length c) pktsize w1 \<bind> (\<lambda>(p, demux, w).
      keep_rest demux c p (length c) pktsize \<bind> (\<lambda>demux. Some (demux, w)))
    = map_option (with_tsbuf t' m) (process_packets env (map frame_packet (take k' fs')) (d, w1))"
    if "length (tsbuf d) = 204" "tsbufp d = 0" for d w1
    using swfilter_tail [OF ps fok(2) jc dj that k'_def m', of env w1] .
  show ?thesis
  proof (cases "dvb_dmx_swfilter_packet env demux (frame_packet f) w")
    case None
    then show ?thesis
      using t tail [of "demux\<lparr>tsbuf := t, tsbufp := 0\<rparr>" w] by (auto simp: f k')
  next
    case (Some dw)
    obtain d w1 where dw: "with_tsbuf t 0 dw = (d, w1)" "length (tsbuf d) = 204" "tsbufp d = 0"
      using t(1) by (cases dw) (simp add: with_tsbuf_def)
    then have "process_packets env ps (d, w1) = map_option (with_tsbuf t 0) (process_packets env ps dw)" for ps
      using process_packets_tsbuf [of env ps t 0 dw] by simp
    then show ?thesis
      using tail [OF dw(2,3), of w1] t(2) Some dw(1) by (auto simp: f k' option.map_comp comp_def)
  qed
qed

lemma swfilter_call:
  assumes ps: "pktsize = 188 \<or> pktsize = 204" and fs: "list_all (frame_ok pktsize) fs"
    and inv: "rest_inv pktsize fs (tsbuf demux) (tsbufp demux)"
    and c: "c @ rest = drop (tsbufp demux) (concat fs)"
    and k: "k = (tsbufp demux + length c) div pktsize" and m: "m = (tsbufp demux + length c) mod pktsize"
  shows "\<exists>t. rest_inv pktsize (drop k fs) t m \<and>
    dvb_dmx_swfilter_pktsize env demux c (length c) pktsize w
    = map_option (with_tsbuf t m) (process_packets env (map frame_packet (take k fs)) (demux, w))"
proof -
  define i where "i = tsbufp demux"
  note inv' = inv [folded i_def] and c' = c [folded i_def]
  consider (none) "i = 0" | (more) "0 < i" "i + length c < pktsize" | (full) "0 < i" "pktsize \<le> i + length c"
    by linarith
  then show ?thesis
  proof cases
    case none
    then show ?thesis
      using swfilter_tail [OF ps fs, of 0 c rest demux k m env w] inv' c k m
      by (simp add: dvb_dmx_swfilter_pktsize_def i_def [symmetric] rest_inv_def)
  next
    case more
    then show ?thesis
      using swfilter_call_more [OF ps fs inv' i_def more(1) c' more(2), of env w] k m
      by (auto simp: i_def with_tsbuf_def)
  next
    case full
    then show ?thesis
      using swfilter_call_complete [OF ps fs inv' i_def c' full, of k m env w] k m by (simp add: i_def)
  qed
qed

fun swfilter_chunks ::
  "'w dmx_env \<Rightarrow> nat \<Rightarrow> u8 list list \<Rightarrow> dvb_demux \<Rightarrow> 'w \<Rightarrow> (dvb_demux \<times> 'w) option" where
  "swfilter_chunks env pktsize [] demux w = Some (demux, w)"
| "swfilter_chunks env pktsize (c # cs) demux w = do {
     (demux, w) \<leftarrow> dvb_dmx_swfilter_pktsize env demux c (length c) pktsize w;
     swfilter_chunks env pktsize cs demux w }"

lemma swfilter_chunks_frames:
  assumes ps: "pktsize = 188 \<or> pktsize = 204"
  shows "\<lbrakk>list_all (frame_ok pktsize) fs; rest_inv pktsize fs (tsbuf demux) (tsbufp demux);
      concat cs = drop (tsbufp demux) (concat fs)\<rbrakk> \<Longrightarrow>
    \<exists>t. swfilter_chunks env pktsize cs demux w
      = map_option (with_tsbuf t 0) (process_packets env (map frame_packet fs) (demux, w))"
proof (induction cs arbitrary: fs demux w)
  case Nil
  have fs: "fs = []"
  proof (cases fs)
    case (Cons f fs')
    then have "pktsize \<le> length (concat fs)" using Nil.prems(1) by (simp add: frame_ok_def)
    then show ?thesis using Nil.prems(2,3) by (simp add: rest_inv_def)
  qed
  then have "tsbufp demux = 0" using Nil.prems(2) by (simp add: rest_inv_def)
  then show ?case by (intro exI [of _ "tsbuf demux"]) (simp add: fs with_tsbuf_def)
next
  case (Cons c cs)
  define n where "n = tsbufp demux + length c"
  define k where "k = n div pktsize"
  define m where "m = n mod pktsize"
  obtain t where inv: "rest_inv pktsize (drop k fs) t m" and call:
    "dvb_dmx_swfilter_pktsize env demux c (length c) pktsize w
      = map_option (with_tsbuf t m) (process_packets env (map frame_packet (take k fs)) (demux, w))"
    using swfilter_call [OF ps Cons.prems(1,2), of c "concat cs" k m env w] Cons.prems(3)
    by (auto simp: k_def m_def n_def)
  have fs: "list_all (frame_ok pktsize) (drop k fs)"
    using Cons.prems(1) by (simp add: list_all_iff) (meson in_set_dropD)
  have nk: "n = m + pktsize * k" by (simp add: k_def m_def)
  have "concat cs = drop (length c) (drop (tsbufp demux) (concat fs))"
    using Cons.prems(3) by (metis append_eq_conv_conj concat.simps(2))
  also have "\<dots> = drop m (drop (pktsize * k) (concat fs))"
    using nk by (simp add: n_def add.commute)
  finally have rest: "concat cs = drop m (concat (drop k fs))"
    using concat_drop_frames [OF frames_length [OF Cons.prems(1)]] by simp
  have split: "process_packets env (map frame_packet fs) (demux, w) =
      process_packets env (map frame_packet (take k fs)) (demux, w) \<bind> process_packets env (map frame_packet (drop k fs))"
    using process_packets_append [of env "map frame_packet (take k fs)" "map frame_packet (drop k fs)" "(demux, w)"]
    by (simp flip: map_append)
  show ?case
  proof (cases "process_packets env (map frame_packet (take k fs)) (demux, w)")
    case None
    then show ?thesis by (simp add: call split)
  next
    case (Some dw)
    obtain d w1 where dw: "with_tsbuf t m dw = (d, w1)" "tsbuf d = t" "tsbufp d = m"
      by (cases dw) (simp add: with_tsbuf_def)
    then have eq: "process_packets env ps (d, w1) = map_option (with_tsbuf t m) (process_packets env ps dw)" for ps
      using process_packets_tsbuf [of env ps t m dw] by simp
    obtain t' where "swfilter_chunks env pktsize cs d w1
        = map_option (with_tsbuf t' 0) (process_packets env (map frame_packet (drop k fs)) (d, w1))"
      using Cons.IH [OF fs, of d w1] inv rest dw by auto
    then show ?thesis
      by (intro exI [of _ t']) (simp add: call split Some dw(1) eq option.map_comp comp_def)
  qed
qed

text \<open>C6. The software filter is independent of the buffers a driver hands it: a stream of frames of 188
  or 204 bytes, cut anywhere into pieces, has the same effect on the feeds and on the callbacks
  as its packets processed one by one, the inverted sync bytes of the 204 byte format restored,
  and no byte is left over.\<close>

theorem swfilter_chunking:
  assumes "pktsize = 188 \<or> pktsize = 204" and "list_all (frame_ok pktsize) fs" and "concat cs = concat fs"
    and "length (tsbuf demux) = 204" and "tsbufp demux = 0"
  shows "\<exists>t. swfilter_chunks env pktsize cs demux w
    = map_option (with_tsbuf t 0) (process_packets env (map frame_packet fs) (demux, w))"
  using swfilter_chunks_frames [OF assms(1,2), of demux cs env w] assms by (auto simp: rest_inv_def)

definition ts_feed :: "nat \<Rightarrow> u32 \<Rightarrow> dvb_demux_feed" where
  "ts_feed p t = sec_feed\<lparr>fd_type := DMX_TYPE_TS, pid := p, ts_type := t\<rparr>"

definition demo_demux :: dvb_demux where
  "demo_demux = \<lparr>dmx_filter = [all_filter], dmx_feed = [sec_feed, ts_feed 0x12 1, ts_feed 0x2000 1, ts_feed 0x12 9],
     users = 1, frontend_list = [], frontend = None, pesfilter = replicate 20 None, pids = replicate 20 0xffff,
     feed_list = [3, 2, 1, 0], tsbuf = replicate 204 0, tsbufp = 0, mutex = False, cnt_storage = None,
     speed_last_time = (0, 0), speed_pkts_cnt = 0\<rparr>"

definition demo_packet :: "u8 list" where
  "demo_packet = ts_packet True 0x12 0 (replicate 184 0)"

lemma demo_packet_frame: "frame_ok 188 demo_packet" "ts_pid demo_packet = 0x12"
  by (simp add: frame_ok_def sync_byte_def demo_packet_def ts_packet_def) code_simp

theorem packet_dispatch_witness:
  "\<exists>rs. dvb_dmx_swfilter_packet log_env demo_demux demo_packet [] = give_all log_env demo_packet rs demo_demux []
    \<and> filter (\<lambda>fd. \<not> dvr (dmx_feed demo_demux) fd) rs = [3, 0]
    \<and> filter (dvr (dmx_feed demo_demux)) rs = [2]"
proof -
  have "pid (dmx_feed demo_demux ! 0) = 0x12" "pid (dmx_feed demo_demux ! 1) = 0x12"
    "pid (dmx_feed demo_demux ! 2) = 0x2000" "pid (dmx_feed demo_demux ! 3) = 0x12"
    "\<not> DVR_FEED (dmx_feed demo_demux ! 0)" "DVR_FEED (dmx_feed demo_demux ! 1)"
    "DVR_FEED (dmx_feed demo_demux ! 2)" "\<not> DVR_FEED (dmx_feed demo_demux ! 3)"
    by (simp_all add: demo_demux_def ts_feed_def sec_feed_def DVR_FEED_def)
  moreover have "feed_list demo_demux = [3, 2, 1, 0]" "length (dmx_feed demo_demux) = 4"
    "\<not> dvb_demux_speedcheck log_env" "\<not> dvb_demux_tscheck log_env"
    by (simp_all add: demo_demux_def log_env_def)
  ultimately show ?thesis
    using packet_dispatch [of demo_demux log_env demo_packet "[]"] demo_packet_frame(2)
    by (simp add: wants_def dvr_def)
qed

theorem swfilter_chunking_witness:
  "\<exists>t. swfilter_chunks log_env 188 [take 100 demo_packet, drop 100 demo_packet] demo_demux []
    = map_option (with_tsbuf t 0) (process_packets log_env (map frame_packet [demo_packet]) (demo_demux, []))"
  by (rule swfilter_chunking) (simp_all add: demo_packet_frame demo_demux_def)

end
