(* ===== verification/Dvb_Demux_Feeds.thy ===== *)
theory Dvb_Demux_Feeds
  imports Dvb_Demux_Stream
begin

text \<open>
  The client interface of \<open>dvb_demux.c\<close>: allocation, configuration, start, stop and release of feeds
  and section filters, users and frontends, initialisation.

  The mutex of the demux is not recursive. In the single-threaded model taking it while it is
  held never returns, the value \<open>None\<close>, like a fault. \<open>mutex_lock_interruptible\<close> has an argument
  that tells whether a signal interrupts it. \<open>NOBUFS\<close> is defined in the source, so that feeds
  have no buffers of their own. A list is the list of its elements, the first one at the head.
  The callback given to an allocation is the function of \<open>dmx_env\<close> for the new feed.
\<close>

section \<open>Locking and allocation\<close>

definition mutex_lock :: "dvb_demux \<Rightarrow> dvb_demux option" where
  "mutex_lock d = (if mutex d then None else Some (d\<lparr>mutex := True\<rparr>))"

definition mutex_unlock :: "dvb_demux \<Rightarrow> dvb_demux" where
  "mutex_unlock d = d\<lparr>mutex := False\<rparr>"

definition put_feed :: "dvb_demux \<Rightarrow> nat \<Rightarrow> dvb_demux_feed \<Rightarrow> dvb_demux" where
  "put_feed d fd f = d\<lparr>dmx_feed := (dmx_feed d)[fd := f]\<rparr>"

definition put_filter :: "dvb_demux \<Rightarrow> nat \<Rightarrow> dvb_demux_filter \<Rightarrow> dvb_demux" where
  "put_filter d fi f = d\<lparr>dmx_filter := (dmx_filter d)[fi := f]\<rparr>"

definition dvb_dmx_filter_alloc :: "dvb_demux \<Rightarrow> nat option \<times> dvb_demux" where
  "dvb_dmx_filter_alloc d =
     (case find (\<lambda>i. flt_state (dmx_filter d ! i) = DMX_STATE_FREE) [0..<length (dmx_filter d)] of
        None \<Rightarrow> (None, d)
      | Some i \<Rightarrow> (Some i, put_filter d i ((dmx_filter d ! i)\<lparr>flt_state := DMX_STATE_ALLOCATED\<rparr>)))"

definition dvb_dmx_feed_alloc :: "dvb_demux \<Rightarrow> nat option \<times> dvb_demux" where
  "dvb_dmx_feed_alloc d =
     (case find (\<lambda>i. fd_state (dmx_feed d ! i) = DMX_STATE_FREE) [0..<length (dmx_feed d)] of
        None \<Rightarrow> (None, d)
      | Some i \<Rightarrow> (Some i, put_feed d i ((dmx_feed d ! i)\<lparr>fd_state := DMX_STATE_ALLOCATED\<rparr>)))"

definition dvb_demux_feed_find :: "dvb_demux \<Rightarrow> nat \<Rightarrow> bool" where
  "dvb_demux_feed_find d fd \<longleftrightarrow> fd \<in> set (feed_list d)"

definition dvb_demux_feed_add :: "dvb_demux \<Rightarrow> nat \<Rightarrow> dvb_demux" where
  "dvb_demux_feed_add d fd =
     (if dvb_demux_feed_find d fd then d else d\<lparr>feed_list := fd # feed_list d\<rparr>)"

definition dvb_demux_feed_del :: "dvb_demux \<Rightarrow> nat \<Rightarrow> dvb_demux" where
  "dvb_demux_feed_del d fd =
     (if \<not> dvb_demux_feed_find d fd then d else d\<lparr>feed_list := remove1 fd (feed_list d)\<rparr>)"

section \<open>Transport stream feeds\<close>

definition dmx_ts_feed_set ::
  "bool \<Rightarrow> nat \<Rightarrow> nat \<Rightarrow> u32 \<Rightarrow> nat \<Rightarrow> int \<Rightarrow> dvb_demux \<Rightarrow> (int \<times> dvb_demux) option" where
  "dmx_ts_feed_set intr fd p tt pt circular_buffer_size d =
     (if p > DMX_MAX_PID then Some (- EINVAL, d)
      else if intr then Some (- ERESTARTSYS, d)
      else do {
        d \<leftarrow> mutex_lock d;
        feed \<leftarrow> rd (dmx_feed d) fd;
        if tt AND TS_DECODER \<noteq> 0 \<and> pt \<ge> DMX_TS_PES_OTHER then Some (- EINVAL, mutex_unlock d)
        else do {
          busy \<leftarrow> (if tt AND TS_DECODER \<noteq> 0 then do {
                      h \<leftarrow> rd (pesfilter d) pt;
                      Some (h \<noteq> None \<and> h \<noteq> Some fd) }
                    else Some False);
          if busy then Some (- EINVAL, mutex_unlock d)
          else do {
            d \<leftarrow> (if tt AND TS_DECODER \<noteq> 0 then do {
                     pf \<leftarrow> wr (pesfilter d) pt (Some fd);
                     ps \<leftarrow> wr (pids d) pt p;
                     Some (d\<lparr>pesfilter := pf, pids := ps\<rparr>) }
                   else Some d);
            let d = dvb_demux_feed_add d fd;
            let d = put_feed d fd (feed\<lparr>pid := p, buffer_size := circular_buffer_size, ts_type := tt,
                                        pes_type := pt, fd_state := DMX_STATE_READY\<rparr>);
            Some (0, mutex_unlock d) } } })"

definition dmx_ts_feed_start_filtering ::
  "'w dmx_env \<Rightarrow> bool \<Rightarrow> nat \<Rightarrow> dvb_demux \<Rightarrow> 'w \<Rightarrow> (int \<times> dvb_demux \<times> 'w) option" where
  "dmx_ts_feed_start_filtering env intr fd d w =
     (if intr then Some (- ERESTARTSYS, d, w)
      else do {
        d \<leftarrow> mutex_lock d;
        feed \<leftarrow> rd (dmx_feed d) fd;
        if fd_state feed \<noteq> DMX_STATE_READY \<or> fd_type feed \<noteq> DMX_TYPE_TS then Some (- EINVAL, mutex_unlock d, w)
        else case start_feed env of
            None \<Rightarrow> Some (- ENODEV, mutex_unlock d, w)
          | Some start \<Rightarrow>
              let (ret, w) = start fd w in
              if ret < 0 then Some (ret, mutex_unlock d, w)
              else Some (0, mutex_unlock (put_feed d fd (feed\<lparr>is_filtering := True, fd_state := DMX_STATE_GO\<rparr>)), w) })"

definition dmx_ts_feed_stop_filtering ::
  "'w dmx_env \<Rightarrow> nat \<Rightarrow> dvb_demux \<Rightarrow> 'w \<Rightarrow> (int \<times> dvb_demux \<times> 'w) option" where
  "dmx_ts_feed_stop_filtering env fd d w = do {
     d \<leftarrow> mutex_lock d;
     feed \<leftarrow> rd (dmx_feed d) fd;
     if fd_state feed < DMX_STATE_GO then Some (- EINVAL, mutex_unlock d, w)
     else case stop_feed env of
         None \<Rightarrow> Some (- ENODEV, mutex_unlock d, w)
       | Some stop \<Rightarrow>
           let (ret, w) = stop fd w in
           Some (ret, mutex_unlock (put_feed d fd (feed\<lparr>is_filtering := False, fd_state := DMX_STATE_ALLOCATED\<rparr>)), w) }"

definition dvbdmx_allocate_ts_feed :: "bool \<Rightarrow> dvb_demux \<Rightarrow> (int \<times> nat option \<times> dvb_demux) option" where
  "dvbdmx_allocate_ts_feed intr d =
     (if intr then Some (- ERESTARTSYS, None, d)
      else do {
        d \<leftarrow> mutex_lock d;
        case dvb_dmx_feed_alloc d of
          (None, d) \<Rightarrow> Some (- EBUSY, None, mutex_unlock d)
        | (Some fd, d) \<Rightarrow>
            let feed = (dmx_feed d ! fd)\<lparr>fd_type := DMX_TYPE_TS, pid := 0xffff, peslen := 0xfffa, is_filtering := False\<rparr>
            in case dvb_dmx_filter_alloc d of
                 (None, d) \<Rightarrow>
                   Some (- EBUSY, Some fd,
                     mutex_unlock (put_feed d fd (feed\<lparr>fd_filter := None, fd_state := DMX_STATE_FREE\<rparr>)))
               | (Some fi, d) \<Rightarrow>
                   let d = put_feed d fd (feed\<lparr>fd_filter := Some fi\<rparr>);
                       d = put_filter d fi ((dmx_filter d ! fi)\<lparr>flt_type := DMX_TYPE_TS, flt_feed := Some fd,
                             flt_state := DMX_STATE_READY\<rparr>)
                   in Some (0, Some fd, mutex_unlock d) })"

definition dvbdmx_release_ts_feed :: "nat \<Rightarrow> dvb_demux \<Rightarrow> (int \<times> dvb_demux) option" where
  "dvbdmx_release_ts_feed fd d = do {
     d \<leftarrow> mutex_lock d;
     feed \<leftarrow> rd (dmx_feed d) fd;
     if fd_state feed = DMX_STATE_FREE then Some (- EINVAL, mutex_unlock d)
     else do {
       fi \<leftarrow> fd_filter feed;
       flt \<leftarrow> rd (dmx_filter d) fi;
       let d = put_filter d fi (flt\<lparr>flt_state := DMX_STATE_FREE\<rparr>);
       let d = dvb_demux_feed_del d fd;
       let d = put_feed d fd (feed\<lparr>fd_state := DMX_STATE_FREE, pid := 0xffff\<rparr>);
       if ts_type feed AND TS_DECODER \<noteq> 0 \<and> pes_type feed < DMX_TS_PES_OTHER then do {
         pf \<leftarrow> wr (pesfilter d) (pes_type feed) None;
         Some (0, mutex_unlock (d\<lparr>pesfilter := pf\<rparr>)) }
       else Some (0, mutex_unlock d) } }"

section \<open>Section feeds\<close>

definition dmx_section_feed_allocate_filter ::
  "bool \<Rightarrow> nat \<Rightarrow> dvb_demux \<Rightarrow> (int \<times> nat option \<times> dvb_demux) option" where
  "dmx_section_feed_allocate_filter intr fd d =
     (if intr then Some (- ERESTARTSYS, None, d)
      else do {
        d \<leftarrow> mutex_lock d;
        case dvb_dmx_filter_alloc d of
          (None, d) \<Rightarrow> Some (- EBUSY, None, mutex_unlock d)
        | (Some fi, d) \<Rightarrow> do {
            feed \<leftarrow> rd (dmx_feed d) fd;
            let d = put_filter d fi ((dmx_filter d ! fi)\<lparr>flt_feed := Some fd, flt_type := DMX_TYPE_SEC,
                      flt_state := DMX_STATE_READY, flt_next := fd_filter feed\<rparr>);
            let d = put_feed d fd (feed\<lparr>fd_filter := Some fi\<rparr>);
            Some (0, Some fi, mutex_unlock d) } })"

definition dmx_section_feed_set ::
  "bool \<Rightarrow> nat \<Rightarrow> nat \<Rightarrow> int \<Rightarrow> bool \<Rightarrow> dvb_demux \<Rightarrow> (int \<times> dvb_demux) option" where
  "dmx_section_feed_set intr fd p circular_buffer_size crc d =
     (if p > 0x1fff then Some (- EINVAL, d)
      else if intr then Some (- ERESTARTSYS, d)
      else do {
        d \<leftarrow> mutex_lock d;
        feed \<leftarrow> rd (dmx_feed d) fd;
        let d = dvb_demux_feed_add d fd;
        let d = put_feed d fd (feed\<lparr>pid := p, buffer_size := circular_buffer_size, check_crc := crc,
                                    fd_state := DMX_STATE_READY\<rparr>);
        Some (0, mutex_unlock d) })"

text \<open>The body of the \<open>do\<close> loop of \<open>prepare_secfilters\<close>, and the loop, from filter \<open>i\<close> on.\<close>

definition prepare_filter :: "dvb_demux_filter \<Rightarrow> dvb_demux_filter" where
  "prepare_filter f =
     f\<lparr>maskandmode := map (\<lambda>i. filter_mask f ! i AND filter_mode f ! i) [0..<DVB_DEMUX_MASK_MAX],
       maskandnotmode := map (\<lambda>i. filter_mask f ! i AND NOT (filter_mode f ! i)) [0..<DVB_DEMUX_MASK_MAX],
       doneq := fold (\<lambda>i q. q OR (filter_mask f ! i AND NOT (filter_mode f ! i))) [0..<DVB_DEMUX_MASK_MAX] 0 \<noteq> 0\<rparr>"

partial_function (option) prepare_loop ::
  "dvb_demux_filter list \<Rightarrow> nat \<Rightarrow> dvb_demux_filter list option" where
  "prepare_loop flts i = do {
     f \<leftarrow> rd flts i;
     case flt_next f of
       None \<Rightarrow> Some (flts[i := prepare_filter f])
     | Some j \<Rightarrow> prepare_loop (flts[i := prepare_filter f]) j }"

definition prepare_secfilters :: "nat \<Rightarrow> dvb_demux \<Rightarrow> dvb_demux option" where
  "prepare_secfilters fd d = do {
     feed \<leftarrow> rd (dmx_feed d) fd;
     case fd_filter feed of
       None \<Rightarrow> Some d
     | Some i \<Rightarrow> do {
         flts \<leftarrow> prepare_loop (dmx_filter d) i;
         Some (d\<lparr>dmx_filter := flts\<rparr>) } }"

definition dmx_section_feed_start_filtering ::
  "'w dmx_env \<Rightarrow> bool \<Rightarrow> nat \<Rightarrow> dvb_demux \<Rightarrow> 'w \<Rightarrow> (int \<times> dvb_demux \<times> 'w) option" where
  "dmx_section_feed_start_filtering env intr fd d w =
     (if intr then Some (- ERESTARTSYS, d, w)
      else do {
        d \<leftarrow> mutex_lock d;
        feed \<leftarrow> rd (dmx_feed d) fd;
        if is_filtering feed then Some (- EBUSY, mutex_unlock d, w)
        else if fd_filter feed = None then Some (- EINVAL, mutex_unlock d, w)
        else
          let feed = feed\<lparr>tsfeedp := 0, secbuf := 0, secbufp := 0, seclen := 0\<rparr>;
              d = put_feed d fd feed
          in case start_feed env of
               None \<Rightarrow> Some (- ENODEV, mutex_unlock d, w)
             | Some start \<Rightarrow> do {
                 d \<leftarrow> prepare_secfilters fd d;
                 let (ret, w) = start fd w;
                 if ret < 0 then Some (ret, mutex_unlock d, w)
                 else Some (0, mutex_unlock (put_feed d fd (feed\<lparr>is_filtering := True, fd_state := DMX_STATE_GO\<rparr>)),
                            w) } })"

definition dmx_section_feed_stop_filtering ::
  "'w dmx_env \<Rightarrow> nat \<Rightarrow> dvb_demux \<Rightarrow> 'w \<Rightarrow> (int \<times> dvb_demux \<times> 'w) option" where
  "dmx_section_feed_stop_filtering env fd d w = do {
     d \<leftarrow> mutex_lock d;
     feed \<leftarrow> rd (dmx_feed d) fd;
     case stop_feed env of
       None \<Rightarrow> Some (- ENODEV, mutex_unlock d, w)
     | Some stop \<Rightarrow>
         let (ret, w) = stop fd w in
         Some (ret, mutex_unlock (put_feed d fd (feed\<lparr>fd_state := DMX_STATE_READY, is_filtering := False\<rparr>)), w) }"

text \<open>The search for the predecessor of filter \<open>target\<close> in the chain, from filter \<open>f\<close> on.\<close>

partial_function (option) filter_unlink ::
  "dvb_demux_filter list \<Rightarrow> nat option \<Rightarrow> nat \<Rightarrow> dvb_demux_filter list option" where
  "filter_unlink flts f target = do {
     i \<leftarrow> f;
     x \<leftarrow> rd flts i;
     if flt_next x \<noteq> Some target then filter_unlink flts (flt_next x) target
     else do {
       t \<leftarrow> rd flts target;
       Some (flts[i := x\<lparr>flt_next := flt_next t\<rparr>]) } }"

definition dmx_section_feed_release_filter ::
  "'w dmx_env \<Rightarrow> nat \<Rightarrow> nat \<Rightarrow> dvb_demux \<Rightarrow> 'w \<Rightarrow> (int \<times> dvb_demux \<times> 'w) option" where
  "dmx_section_feed_release_filter env fd fi d w = do {
     d \<leftarrow> mutex_lock d;
     flt \<leftarrow> rd (dmx_filter d) fi;
     if flt_feed flt \<noteq> Some fd then Some (- EINVAL, mutex_unlock d, w)
     else do {
       feed \<leftarrow> rd (dmx_feed d) fd;
       (d, w) \<leftarrow> (if is_filtering feed then do {
                    (_, d, w) \<leftarrow> dmx_section_feed_stop_filtering env fd d w;
                    Some (d, w) }
                  else Some (d, w));
       feed \<leftarrow> rd (dmx_feed d) fd;
       d \<leftarrow> (if fd_filter feed = Some fi
             then Some (put_feed d fd (feed\<lparr>fd_filter := flt_next flt\<rparr>))
             else do {
               flts \<leftarrow> filter_unlink (dmx_filter d) (fd_filter feed) fi;
               Some (d\<lparr>dmx_filter := flts\<rparr>) });
       Some (0, mutex_unlock (put_filter d fi ((dmx_filter d ! fi)\<lparr>flt_state := DMX_STATE_FREE\<rparr>)), w) } }"

definition dvbdmx_allocate_section_feed :: "bool \<Rightarrow> dvb_demux \<Rightarrow> (int \<times> nat option \<times> dvb_demux) option" where
  "dvbdmx_allocate_section_feed intr d =
     (if intr then Some (- ERESTARTSYS, None, d)
      else do {
        d \<leftarrow> mutex_lock d;
        case dvb_dmx_feed_alloc d of
          (None, d) \<Rightarrow> Some (- EBUSY, None, mutex_unlock d)
        | (Some fd, d) \<Rightarrow>
            let feed = (dmx_feed d ! fd)\<lparr>fd_type := DMX_TYPE_SEC, pid := 0xffff, secbuf := 0, secbufp := 0,
                  seclen := 0, tsfeedp := 0, fd_filter := None, is_filtering := False\<rparr>
            in Some (0, Some fd, mutex_unlock (put_feed d fd feed)) })"

definition dvbdmx_release_section_feed :: "nat \<Rightarrow> dvb_demux \<Rightarrow> (int \<times> dvb_demux) option" where
  "dvbdmx_release_section_feed fd d = do {
     d \<leftarrow> mutex_lock d;
     feed \<leftarrow> rd (dmx_feed d) fd;
     if fd_state feed = DMX_STATE_FREE then Some (- EINVAL, mutex_unlock d)
     else
       let d = dvb_demux_feed_del d fd;
           d = put_feed d fd (feed\<lparr>fd_state := DMX_STATE_FREE, pid := 0xffff\<rparr>)
       in Some (0, mutex_unlock d) }"

section \<open>Users, frontends, initialisation\<close>

abbreviation (input) MAX_DVB_DEMUX_USERS :: int where "MAX_DVB_DEMUX_USERS \<equiv> 10"

definition dvbdmx_open :: "dvb_demux \<Rightarrow> int \<times> dvb_demux" where
  "dvbdmx_open d =
     (if users d \<ge> MAX_DVB_DEMUX_USERS then (- EUSERS, d) else (0, d\<lparr>users := users d + 1\<rparr>))"

definition dvbdmx_close :: "dvb_demux \<Rightarrow> int \<times> dvb_demux" where
  "dvbdmx_close d = (if users d = 0 then (- ENODEV, d) else (0, d\<lparr>users := users d - 1\<rparr>))"

text \<open>\<open>memory_fe\<close> tells whether a frontend is the memory frontend, \<open>p\<close> is the result of
  \<open>memdup_user\<close>, an error or the copied bytes, \<open>pending\<close> tells whether a signal is pending at the
  end.\<close>

definition dvbdmx_write ::
  "'w dmx_env \<Rightarrow> (nat \<Rightarrow> bool) \<Rightarrow> int + u8 list \<Rightarrow> bool \<Rightarrow> bool \<Rightarrow> nat \<Rightarrow> dvb_demux \<Rightarrow> 'w
     \<Rightarrow> (int \<times> dvb_demux \<times> 'w) option" where
  "dvbdmx_write env memory_fe p intr pending count d w =
     (if frontend d = None \<or> \<not> memory_fe (the (frontend d)) then Some (- EINVAL, d, w)
      else case p of
          Inl err \<Rightarrow> Some (err, d, w)
        | Inr bytes \<Rightarrow>
            if intr then Some (- ERESTARTSYS, d, w)
            else do {
              d \<leftarrow> mutex_lock d;
              (d, w) \<leftarrow> dvb_dmx_swfilter env d bytes count w;
              Some (if pending then - EINTR else int count, mutex_unlock d, w) })"

definition dvbdmx_add_frontend :: "nat \<Rightarrow> dvb_demux \<Rightarrow> int \<times> dvb_demux" where
  "dvbdmx_add_frontend fe d = (0, d\<lparr>frontend_list := fe # frontend_list d\<rparr>)"

definition dvbdmx_remove_frontend :: "nat \<Rightarrow> dvb_demux \<Rightarrow> int \<times> dvb_demux" where
  "dvbdmx_remove_frontend fe d =
     (if fe \<in> set (frontend_list d) then (0, d\<lparr>frontend_list := remove1 fe (frontend_list d)\<rparr>)
      else (- ENODEV, d))"

definition dvbdmx_get_frontends :: "dvb_demux \<Rightarrow> nat list option" where
  "dvbdmx_get_frontends d = (if frontend_list d = [] then None else Some (frontend_list d))"

definition dvbdmx_connect_frontend :: "nat \<Rightarrow> dvb_demux \<Rightarrow> (int \<times> dvb_demux) option" where
  "dvbdmx_connect_frontend fe d =
     (if frontend d \<noteq> None then Some (- EINVAL, d)
      else do { d \<leftarrow> mutex_lock d; Some (0, mutex_unlock (d\<lparr>frontend := Some fe\<rparr>)) })"

definition dvbdmx_disconnect_frontend :: "dvb_demux \<Rightarrow> (int \<times> dvb_demux) option" where
  "dvbdmx_disconnect_frontend d = do { d \<leftarrow> mutex_lock d; Some (0, mutex_unlock (d\<lparr>frontend := None\<rparr>)) }"

definition dvbdmx_get_pes_pids :: "dvb_demux \<Rightarrow> (int \<times> nat list) option" where
  "dvbdmx_get_pes_pids d = do { ps \<leftarrow> memrd (pids d) 0 5; Some (0, ps) }"

text \<open>The arguments \<open>flts\<close>, \<open>feeds\<close> and \<open>cnt\<close> are the results of the three allocations: \<open>None\<close>, or
  memory with arbitrary contents.\<close>

definition dvb_dmx_init ::
  "dvb_demux_filter list option \<Rightarrow> dvb_demux_feed list option \<Rightarrow> u8 list option \<Rightarrow> dvb_demux \<Rightarrow> int \<times> dvb_demux" where
  "dvb_dmx_init flts feeds cnt d =
     (let d = d\<lparr>cnt_storage := None, users := 0\<rparr> in
      case flts of
        None \<Rightarrow> (- ENOMEM, d\<lparr>dmx_filter := []\<rparr>)
      | Some fs \<Rightarrow>
          (case feeds of
             None \<Rightarrow> (- ENOMEM, d\<lparr>dmx_filter := [], dmx_feed := []\<rparr>)
           | Some fds \<Rightarrow>
               (0, d\<lparr>dmx_filter := map (\<lambda>f. f\<lparr>flt_state := DMX_STATE_FREE\<rparr>) fs,
                     dmx_feed := map (\<lambda>f. f\<lparr>fd_state := DMX_STATE_FREE\<rparr>) fds,
                     cnt_storage := cnt, frontend_list := [],
                     pesfilter := replicate DMX_TS_PES_OTHER None @ drop DMX_TS_PES_OTHER (pesfilter d),
                     pids := replicate DMX_TS_PES_OTHER 0xffff @ drop DMX_TS_PES_OTHER (pids d),
                     feed_list := [], tsbufp := 0, frontend := None, mutex := False\<rparr>)))"

text \<open>Freed memory has no elements.\<close>

definition dvb_dmx_release :: "dvb_demux \<Rightarrow> dvb_demux" where
  "dvb_dmx_release d = d\<lparr>cnt_storage := None, dmx_filter := [], dmx_feed := []\<rparr>"

section \<open>Chains of filters\<close>

lemma flt_chain_upd:
  "\<lbrakk>flt_chain flts p ch; i \<notin> set ch\<rbrakk> \<Longrightarrow> flt_chain (flts[i := x]) p ch"
proof (induction ch arbitrary: p)
  case Nil
  then show ?case by (cases p) auto
next
  case (Cons j js)
  then show ?case by (cases p) auto
qed

lemma flt_chain_functional: "flt_chain flts p ch \<Longrightarrow> flt_chain flts p ch' \<Longrightarrow> ch = ch'"
proof (induction ch arbitrary: p ch')
  case Nil
  then show ?case by (cases p; cases ch') auto
next
  case (Cons j js)
  then show ?case by (cases p; cases ch') auto
qed

lemma flt_chain_append:
  "flt_chain flts p (xs @ i # ys) \<Longrightarrow> flt_chain flts (Some i) (i # ys)"
proof (induction xs arbitrary: p)
  case Nil
  then show ?case by (cases p) auto
next
  case (Cons x xs)
  then show ?case by (cases p) auto
qed

lemma flt_chain_distinct: "flt_chain flts p ch \<Longrightarrow> distinct ch"
proof (induction ch arbitrary: p)
  case (Cons j js)
  have "j \<notin> set js"
  proof
    assume "j \<in> set js"
    then obtain xs ys where js: "js = xs @ j # ys" by (meson split_list)
    then have "flt_chain flts (Some j) (j # ys)"
      using Cons.prems flt_chain_append [of flts p "j # xs" j ys] by simp
    moreover have "flt_chain flts (Some j) (j # js)" using Cons.prems by (cases p) auto
    ultimately have "ys = js" using flt_chain_functional by blast
    then show False using js by simp
  qed
  then show ?case using Cons by (cases p) auto
qed simp

lemma flt_chain_bounds: "flt_chain flts p ch \<Longrightarrow> \<forall>i\<in>set ch. i < length flts \<and> flt_wf (flts ! i)"
proof (induction ch arbitrary: p)
  case (Cons j js)
  then show ?case by (cases p) auto
qed simp

text \<open>A change of the filters of a chain that keeps their links keeps the chain.\<close>

lemma flt_chain_map:
  "\<lbrakk>flt_chain flts p ch;
    \<forall>i\<in>set ch. i < length flts' \<and> flt_next (flts' ! i) = flt_next (flts ! i) \<and> flt_wf (flts' ! i)\<rbrakk> \<Longrightarrow>
   flt_chain flts' p ch"
proof (induction ch arbitrary: p)
  case Nil
  then show ?case by (cases p) auto
next
  case (Cons j js)
  then show ?case by (cases p) auto
qed

section \<open>Preparing the filters\<close>

text \<open>\<open>prepare_loop\<close> ends on every chain and prepares exactly its filters.\<close>

definition prepare_all :: "nat list \<Rightarrow> dvb_demux_filter list \<Rightarrow> dvb_demux_filter list" where
  "prepare_all ch flts = fold (\<lambda>i fs. fs[i := prepare_filter (fs ! i)]) ch flts"

lemma flt_wf_prepare [simp]: "flt_wf f \<Longrightarrow> flt_wf (prepare_filter f)"
  by (simp add: flt_wf_def prepare_filter_def)

lemma prepare_loop_eq:
  "flt_chain flts (Some i) ch \<Longrightarrow> prepare_loop flts i = Some (prepare_all ch flts)"
proof (induction ch arbitrary: flts i)
  case (Cons j js)
  let ?fs = "flts[j := prepare_filter (flts ! j)]"
  have j: "i = j" "j < length flts" "flt_chain flts (flt_next (flts ! j)) js" using Cons.prems by auto
  have "j \<notin> set js" using flt_chain_distinct [OF Cons.prems] by simp
  then have ch: "flt_chain ?fs (flt_next (flts ! j)) js" using j(3) by (rule flt_chain_upd [rotated])
  show ?case
  proof (cases "flt_next (flts ! j)")
    case None
    then have "js = []" using j(3) by simp
    then show ?thesis
      using None j by (subst prepare_loop.simps) (simp add: mem_simps prepare_all_def)
  next
    case (Some k)
    then have "prepare_loop ?fs k = Some (prepare_all js ?fs)" using Cons.IH ch by simp
    then show ?thesis
      using Some j by (subst prepare_loop.simps) (simp add: mem_simps prepare_all_def)
  qed
qed simp

lemma prepare_all_length [simp]: "length (prepare_all ch flts) = length flts"
  by (induction ch arbitrary: flts) (simp_all add: prepare_all_def)

lemma prepare_all_nth:
  "\<lbrakk>distinct ch; \<forall>i\<in>set ch. i < length flts; i < length flts\<rbrakk> \<Longrightarrow>
     prepare_all ch flts ! i = (if i \<in> set ch then prepare_filter (flts ! i) else flts ! i)"
proof (induction ch arbitrary: flts)
  case (Cons j js)
  have "prepare_all (j # js) flts = prepare_all js (flts[j := prepare_filter (flts ! j)])"
    by (simp add: prepare_all_def)
  then show ?case using Cons by (auto simp: nth_list_update)
qed (simp add: prepare_all_def)

text \<open>What a filter means to a client: its \<open>mask\<close> selects bits, its \<open>mode\<close> says for each of them
  whether it has to be equal to that of the section (1) or takes part in the negative test (0),
  which requires one difference at least.\<close>

definition filter_accepts :: "dvb_demux_filter \<Rightarrow> u8 list \<Rightarrow> bool" where
  "filter_accepts f s \<longleftrightarrow>
     (\<forall>i<18. \<forall>b<8. bit (filter_mask f ! i) b \<and> bit (filter_mode f ! i) b \<longrightarrow>
        bit (s ! i) b = bit (filter_value f ! i) b) \<and>
     ((\<exists>i<18. \<exists>b<8. bit (filter_mask f ! i) b \<and> \<not> bit (filter_mode f ! i) b) \<longrightarrow>
      (\<exists>i<18. \<exists>b<8. bit (filter_mask f ! i) b \<and> \<not> bit (filter_mode f ! i) b
         \<and> bit (s ! i) b \<noteq> bit (filter_value f ! i) b))"

lemma u8_zero_iff: "(x :: u8) = 0 \<longleftrightarrow> (\<forall>b<8. \<not> bit x b)"
  by (auto simp: bit_eq_iff)

lemma fold_or_zero: "fold (\<lambda>i q. q OR g i) xs (q0 :: u8) = 0 \<longleftrightarrow> q0 = 0 \<and> (\<forall>i\<in>set xs. g i = 0)"
  by (induction xs arbitrary: q0) (auto simp: or_eq_0_iff)

lemma prepare_filter_sel:
  "i < 18 \<Longrightarrow> maskandmode (prepare_filter f) ! i = filter_mask f ! i AND filter_mode f ! i"
  "i < 18 \<Longrightarrow> maskandnotmode (prepare_filter f) ! i = filter_mask f ! i AND NOT (filter_mode f ! i)"
  "doneq (prepare_filter f) \<longleftrightarrow> (\<exists>i<18. filter_mask f ! i AND NOT (filter_mode f ! i) \<noteq> 0)"
  "filter_value (prepare_filter f) = filter_value f"
  unfolding prepare_filter_def by (auto simp: fold_or_zero simp del: upt_rec_numeral)

lemma flt_match_prepared: "flt_match (prepare_filter f) s \<longleftrightarrow> filter_accepts f s"
proof -
  have pos: "(filter_mask f ! i AND filter_mode f ! i) AND (filter_value f ! i XOR s ! i) = 0 \<longleftrightarrow>
      (\<forall>b<8. bit (filter_mask f ! i) b \<and> bit (filter_mode f ! i) b \<longrightarrow> bit (s ! i) b = bit (filter_value f ! i) b)"
    for i
    by (auto simp: u8_zero_iff bit_and_iff bit_xor_iff)
  have neg: "(filter_mask f ! i AND NOT (filter_mode f ! i)) AND (filter_value f ! i XOR s ! i) \<noteq> 0 \<longleftrightarrow>
      (\<exists>b<8. bit (filter_mask f ! i) b \<and> \<not> bit (filter_mode f ! i) b \<and> bit (s ! i) b \<noteq> bit (filter_value f ! i) b)"
    for i
    by (auto simp: u8_zero_iff bit_and_iff bit_xor_iff bit_not_iff)
  have don: "filter_mask f ! i AND NOT (filter_mode f ! i) \<noteq> 0 \<longleftrightarrow>
      (\<exists>b<8. bit (filter_mask f ! i) b \<and> \<not> bit (filter_mode f ! i) b)" for i
    by (auto simp: u8_zero_iff bit_and_iff bit_not_iff)
  show ?thesis
    unfolding flt_match_def filter_accepts_def
    by (simp add: prepare_filter_sel pos neg don cong: conj_cong)
qed

lemma section_start_ok:
  assumes "\<not> mutex d" "fd < length (dmx_feed d)" "\<not> is_filtering (dmx_feed d ! fd)"
    and "flt_chain (dmx_filter d) (fd_filter (dmx_feed d ! fd)) ch" "ch \<noteq> []"
    and "start_feed env = Some start" "start fd w = (r, w')"
  shows "dmx_section_feed_start_filtering env False fd d w =
    (let feed = (dmx_feed d ! fd)\<lparr>tsfeedp := 0, secbuf := 0, secbufp := 0, seclen := 0\<rparr> in
     if r < 0 then Some (r, d\<lparr>dmx_feed := (dmx_feed d)[fd := feed], dmx_filter := prepare_all ch (dmx_filter d)\<rparr>, w')
     else Some (0, d\<lparr>dmx_feed := (dmx_feed d)[fd := feed\<lparr>is_filtering := True, fd_state := DMX_STATE_GO\<rparr>],
                    dmx_filter := prepare_all ch (dmx_filter d)\<rparr>, w'))"
proof -
  obtain i where i: "fd_filter (dmx_feed d ! fd) = Some i"
    using assms(4,5) by (cases "fd_filter (dmx_feed d ! fd)") auto
  then have "prepare_loop (dmx_filter d) i = Some (prepare_all ch (dmx_filter d))"
    using prepare_loop_eq assms(4) by simp
  then show ?thesis
    using assms i
    by (simp add: dmx_section_feed_start_filtering_def mutex_lock_def mutex_unlock_def put_feed_def
        prepare_secfilters_def mem_simps Let_def)
qed

text \<open>C27. A section feed that has been started filters as its client asked: after
  \<open>dmx_section_feed_start_filtering\<close> every filter of the feed passes exactly the sections that agree with
  it in all its positive bits and, if it has negative bits, differ from it in one of them.\<close>

theorem section_start_filters:
  assumes "\<not> mutex d" and "fd < length (dmx_feed d)" and "\<not> is_filtering (dmx_feed d ! fd)"
    and "flt_chain (dmx_filter d) (fd_filter (dmx_feed d ! fd)) ch" and "ch \<noteq> []"
    and "start_feed env = Some start" and "start fd w = (0, w')"
  shows "\<exists>d'. dmx_section_feed_start_filtering env False fd d w = Some (0, d', w')
    \<and> is_filtering (dmx_feed d' ! fd) \<and> fd_state (dmx_feed d' ! fd) = DMX_STATE_GO
    \<and> flt_chain (dmx_filter d') (fd_filter (dmx_feed d' ! fd)) ch
    \<and> (\<forall>i\<in>set ch. \<forall>s. flt_match (dmx_filter d' ! i) s \<longleftrightarrow> filter_accepts (dmx_filter d ! i) s)"
proof -
  let ?flts = "prepare_all ch (dmx_filter d)"
  have b: "\<forall>i\<in>set ch. i < length (dmx_filter d) \<and> flt_wf (dmx_filter d ! i)" "distinct ch"
    using flt_chain_bounds flt_chain_distinct assms(4) by blast+
  then have nth: "i \<in> set ch \<Longrightarrow> ?flts ! i = prepare_filter (dmx_filter d ! i)" for i
    by (simp add: prepare_all_nth)
  have "flt_chain ?flts (fd_filter (dmx_feed d ! fd)) ch"
    using b nth by (intro flt_chain_map [OF assms(4)]) (auto simp: prepare_filter_def flt_wf_def)
  then show ?thesis
    using section_start_ok [OF assms] assms(2) nth flt_match_prepared by (auto simp: Let_def)
qed

theorem section_start_filters_witness:
  "\<exists>d'. dmx_section_feed_start_filtering (log_env\<lparr>start_feed := Some (\<lambda>fd w. (0, w))\<rparr>) False 0
        (demo_demux\<lparr>dmx_feed := [sec_feed\<lparr>is_filtering := False\<rparr>]\<rparr>) [] = Some (0, d', [])
    \<and> is_filtering (dmx_feed d' ! 0) \<and> fd_state (dmx_feed d' ! 0) = DMX_STATE_GO
    \<and> flt_chain (dmx_filter d') (fd_filter (dmx_feed d' ! 0)) [0]
    \<and> (\<forall>i\<in>set [0]. \<forall>s. flt_match (dmx_filter d' ! i) s
         \<longleftrightarrow> filter_accepts (dmx_filter (demo_demux\<lparr>dmx_feed := [sec_feed\<lparr>is_filtering := False\<rparr>]\<rparr>) ! i) s)"
  using all_filter_wf
  by (intro section_start_filters [where start = "\<lambda>fd w. (0, w)"])
    (simp_all add: demo_demux_def sec_feed_def all_filter_def [THEN arg_cong [of _ _ flt_next]])

section \<open>Releasing a filter\<close>

lemma filter_unlink_eq:
  "\<lbrakk>flt_chain flts p ch; fi \<in> set ch; p \<noteq> Some fi\<rbrakk> \<Longrightarrow>
     \<exists>k x. filter_unlink flts p fi = Some (flts[k := x]) \<and> k \<in> set ch \<and> k \<noteq> fi
       \<and> x = (flts ! k)\<lparr>flt_next := flt_next x\<rparr> \<and> flt_chain (flts[k := x]) p (remove1 fi ch)"
proof (induction ch arbitrary: p)
  case (Cons j js)
  have j: "p = Some j" "j \<noteq> fi" "j < length flts" "flt_wf (flts ! j)" "flt_chain flts (flt_next (flts ! j)) js"
    using Cons.prems by (cases p; auto)+
  have fi: "fi \<in> set js" using Cons.prems(2) j(2) by simp
  have nj: "j \<notin> set js" using flt_chain_distinct [OF Cons.prems(1)] by simp
  show ?case
  proof (cases "flt_next (flts ! j) = Some fi")
    case True
    then obtain js' where js: "js = fi # js'" "flt_chain flts (flt_next (flts ! fi)) js'" "fi < length flts"
      using j(5) by (cases js) auto
    let ?x = "(flts ! j)\<lparr>flt_next := flt_next (flts ! fi)\<rparr>"
    have "filter_unlink flts p fi = Some (flts[j := ?x])"
      using True j js(3) by (subst filter_unlink.simps) (simp add: mem_simps)
    moreover have "flt_chain (flts[j := ?x]) p (remove1 fi (j # js))"
      using j js nj by (simp add: flt_wf_def flt_chain_upd)
    ultimately show ?thesis using j(2) by (intro exI [of _ j] exI [of _ ?x]) simp
  next
    case False
    then obtain k x where k: "filter_unlink flts (flt_next (flts ! j)) fi = Some (flts[k := x])" "k \<in> set js" "k \<noteq> fi"
      "x = (flts ! k)\<lparr>flt_next := flt_next x\<rparr>" "flt_chain (flts[k := x]) (flt_next (flts ! j)) (remove1 fi js)"
      using Cons.IH [OF j(5) fi] by blast
    have "filter_unlink flts p fi = Some (flts[k := x])"
      using False j k(1) by (subst filter_unlink.simps) (simp add: mem_simps)
    moreover have "flt_chain (flts[k := x]) p (remove1 fi (j # js))"
      using j k nj by (cases "j = k") auto
    ultimately show ?thesis using k by (intro exI [of _ k] exI [of _ x]) simp
  qed
qed simp

lemma release_filter_eq:
  assumes "\<not> mutex d" "fd < length (dmx_feed d)" "\<not> is_filtering (dmx_feed d ! fd)"
    and ch: "flt_chain (dmx_filter d) (fd_filter (dmx_feed d ! fd)) ch" "fi \<in> set ch"
    and own: "flt_feed (dmx_filter d ! fi) = Some fd"
  shows "\<exists>flts ff. dmx_section_feed_release_filter env fd fi d w = Some (0, d\<lparr>dmx_filter := flts,
       dmx_feed := (dmx_feed d)[fd := (dmx_feed d ! fd)\<lparr>fd_filter := ff\<rparr>]\<rparr>, w)
    \<and> length flts = length (dmx_filter d) \<and> flt_chain flts ff (remove1 fi ch)
    \<and> flts ! fi = (dmx_filter d ! fi)\<lparr>flt_state := DMX_STATE_FREE\<rparr>
    \<and> (\<forall>i. i \<noteq> fi \<longrightarrow> flts ! i = (dmx_filter d ! i)\<lparr>flt_next := flt_next (flts ! i)\<rparr> \<and> (i \<notin> set ch \<longrightarrow> flts ! i = dmx_filter d ! i))"
proof -
  let ?feed = "dmx_feed d ! fd" and ?flts = "dmx_filter d"
  have fi: "fi < length ?flts" using flt_chain_bounds [OF ch(1)] ch(2) by blast
  have nfi: "fi \<notin> set (remove1 fi ch)" using flt_chain_distinct [OF ch(1)] by simp
  show ?thesis
  proof (cases "fd_filter ?feed = Some fi")
    case True
    then obtain js where js: "ch = fi # js" "flt_chain ?flts (flt_next (?flts ! fi)) js" using ch by (cases ch) auto
    let ?f = "?flts[fi := (?flts ! fi)\<lparr>flt_state := DMX_STATE_FREE\<rparr>]"
    have "dmx_section_feed_release_filter env fd fi d w = Some (0, d\<lparr>dmx_filter := ?f,
       dmx_feed := (dmx_feed d)[fd := ?feed\<lparr>fd_filter := flt_next (?flts ! fi)\<rparr>]\<rparr>, w)"
      using assms(1-3) own fi True
      by (simp add: dmx_section_feed_release_filter_def mutex_lock_def mutex_unlock_def mem_simps put_feed_def put_filter_def)
    moreover have "flt_chain ?f (flt_next (?flts ! fi)) (remove1 fi ch)"
      using js nfi by (simp add: flt_chain_upd)
    ultimately show ?thesis using fi
      by (intro exI [of _ ?f] exI [of _ "flt_next (?flts ! fi)"]) simp
  next
    case False
    then obtain k x where k: "filter_unlink ?flts (fd_filter ?feed) fi = Some (?flts[k := x])" "k \<in> set ch" "k \<noteq> fi"
      "x = (?flts ! k)\<lparr>flt_next := flt_next x\<rparr>" "flt_chain (?flts[k := x]) (fd_filter ?feed) (remove1 fi ch)"
      using filter_unlink_eq [OF ch] by blast
    let ?f = "?flts[k := x, fi := (?flts ! fi)\<lparr>flt_state := DMX_STATE_FREE\<rparr>]"
    have "dmx_section_feed_release_filter env fd fi d w = Some (0, d\<lparr>dmx_filter := ?f\<rparr>, w)"
      using assms(1-3) own fi False k(1,3)
      by (simp add: dmx_section_feed_release_filter_def mutex_lock_def mutex_unlock_def mem_simps put_feed_def put_filter_def)
    moreover have "d\<lparr>dmx_filter := ?f\<rparr> = d\<lparr>dmx_filter := ?f, dmx_feed := (dmx_feed d)[fd := ?feed\<lparr>fd_filter := fd_filter ?feed\<rparr>]\<rparr>"
      by simp
    moreover have "?f ! i = (?flts ! i)\<lparr>flt_next := flt_next (?f ! i)\<rparr>" if "i \<noteq> fi" for i
      using that k(4) flt_chain_bounds [OF ch(1)] k(2) by (cases "i = k") auto
    moreover have "?f ! i = ?flts ! i" if "i \<noteq> fi" "i \<notin> set ch" for i
      using that k(2) by (cases "k = i") auto
    ultimately show ?thesis
      using fi flt_chain_upd [OF k(5) nfi] by (intro exI [of _ ?f] exI [of _ "fd_filter ?feed"]) simp
  qed
qed

text \<open>C31. Releasing a filter of a stopped feed unlinks exactly this filter: the other filters of the feed
  stay in their order, the filter is free again and nothing else of any filter changes.\<close>

theorem release_filter_unlinks:
  assumes "\<not> mutex d" and "fd < length (dmx_feed d)" and "\<not> is_filtering (dmx_feed d ! fd)"
    and "flt_chain (dmx_filter d) (fd_filter (dmx_feed d ! fd)) ch" and "fi \<in> set ch"
    and "flt_feed (dmx_filter d ! fi) = Some fd"
  shows "\<exists>d'. dmx_section_feed_release_filter env fd fi d w = Some (0, d', w) \<and> \<not> mutex d'
    \<and> flt_chain (dmx_filter d') (fd_filter (dmx_feed d' ! fd)) (remove1 fi ch)
    \<and> dmx_filter d' ! fi = (dmx_filter d ! fi)\<lparr>flt_state := DMX_STATE_FREE\<rparr>
    \<and> (\<forall>i. i \<noteq> fi \<longrightarrow> dmx_filter d' ! i = (dmx_filter d ! i)\<lparr>flt_next := flt_next (dmx_filter d' ! i)\<rparr>)
    \<and> (\<forall>j. j \<noteq> fd \<longrightarrow> dmx_feed d' ! j = dmx_feed d ! j)"
proof -
  obtain flts ff where "dmx_section_feed_release_filter env fd fi d w = Some (0, d\<lparr>dmx_filter := flts,
       dmx_feed := (dmx_feed d)[fd := (dmx_feed d ! fd)\<lparr>fd_filter := ff\<rparr>]\<rparr>, w)"
    "flt_chain flts ff (remove1 fi ch)" "flts ! fi = (dmx_filter d ! fi)\<lparr>flt_state := DMX_STATE_FREE\<rparr>"
    "\<forall>i. i \<noteq> fi \<longrightarrow> flts ! i = (dmx_filter d ! i)\<lparr>flt_next := flt_next (flts ! i)\<rparr>"
    using release_filter_eq [OF assms, of env w] by blast
  then show ?thesis using assms(1,2) by simp
qed

theorem release_filter_unlinks_witness:
  "\<exists>d'. dmx_section_feed_release_filter log_env 0 0 (demo_demux\<lparr>dmx_feed := [sec_feed\<lparr>is_filtering := False\<rparr>]\<rparr>) []
      = Some (0, d', []) \<and> flt_chain (dmx_filter d') (fd_filter (dmx_feed d' ! 0)) []"
  using release_filter_unlinks [of "demo_demux\<lparr>dmx_feed := [sec_feed\<lparr>is_filtering := False\<rparr>]\<rparr>" 0 "[0]" 0 log_env "[]"]
    all_filter_wf
  by (auto simp: demo_demux_def sec_feed_def all_filter_def [THEN arg_cong [of _ _ flt_next]]
      all_filter_def [THEN arg_cong [of _ _ flt_feed]])

text \<open>C36. Releasing a filter of a running feed never returns: \<open>dmx_section_feed_release_filter\<close> takes the mutex of
  the demux and then calls \<open>stop_filtering\<close>, which takes it again.\<close>

theorem release_filter_deadlocks:
  assumes "\<not> mutex d" and "fi < length (dmx_filter d)" and "flt_feed (dmx_filter d ! fi) = Some fd"
    and "fd < length (dmx_feed d)" and "is_filtering (dmx_feed d ! fd)"
  shows "dmx_section_feed_release_filter env fd fi d w = None"
  using assms
  by (simp add: dmx_section_feed_release_filter_def dmx_section_feed_stop_filtering_def mutex_lock_def mem_simps)

theorem release_filter_deadlocks_witness:
  "dmx_section_feed_release_filter log_env 0 0 demo_demux [] = None"
  by (rule release_filter_deadlocks)
    (simp_all add: demo_demux_def sec_feed_def all_filter_def [THEN arg_cong [of _ _ flt_feed]])

section \<open>The table of the decoder's feeds\<close>

text \<open>Allocation of a feed, its configuration for the decoder's PES type \<open>pt\<close>, and its release, as
  parts of a client's sequence of calls. A call that fails ends the sequence.\<close>

definition alloc_ts :: "dvb_demux \<Rightarrow> (nat \<times> dvb_demux) option" where
  "alloc_ts d = do {
     (r, fd, d) \<leftarrow> dvbdmx_allocate_ts_feed False d;
     fd \<leftarrow> fd;
     if r = 0 then Some (fd, d) else None }"

definition set_decoder :: "nat \<Rightarrow> nat \<Rightarrow> dvb_demux \<Rightarrow> dvb_demux option" where
  "set_decoder fd pt d = do {
     (r, d) \<leftarrow> dmx_ts_feed_set False fd 0x100 TS_DECODER pt 0 d;
     if r = 0 then Some d else None }"

definition release_ts :: "nat \<Rightarrow> dvb_demux \<Rightarrow> dvb_demux option" where
  "release_ts fd d = do {
     (r, d) \<leftarrow> dvbdmx_release_ts_feed fd d;
     if r = 0 then Some d else None }"

definition blank_feed :: dvb_demux_feed where
  "blank_feed = \<lparr>is_filtering = False, check_crc = False, crc_val = 0, secbuf = 0, secbuf_base = [],
     secbufp = 0, seclen = 0, tsfeedp = 0, fd_type = DMX_TYPE_TS, fd_state = DMX_STATE_FREE, pid = 0,
     buffer_size = 0, fd_filter = None, ts_type = 0, pes_type = 0, cc = 0, pusi_seen = False, peslen = 0\<rparr>"

definition blank_demux :: dvb_demux where
  "blank_demux = \<lparr>dmx_filter = [], dmx_feed = [], users = 0, frontend_list = [], frontend = None,
     pesfilter = [], pids = [], feed_list = [], tsbuf = [], tsbufp = 0, mutex = False, cnt_storage = None,
     speed_last_time = (0, 0), speed_pkts_cnt = 0\<rparr>"

definition small_demux :: dvb_demux where
  "small_demux = snd (dvb_dmx_init (Some [all_filter, all_filter, all_filter])
     (Some [blank_feed, blank_feed, blank_feed]) None blank_demux)"


end
