(* ===== verification/Dvb_Demux_Invariant.thy ===== *)
theory Dvb_Demux_Invariant
  imports Dvb_Demux_Feeds
begin

text \<open>
  The invariant of the demux: the filters of each section feed form a list by their \<open>next\<close> pointers
  that belongs to this feed alone, the feed list has each feed once and only feeds in use, and the
  buffers keep their sizes. Every call of the client interface keeps it.
\<close>

section \<open>The invariant\<close>

text \<open>Filter \<open>i\<close> is in use by feed \<open>fd\<close>.\<close>

definition owns :: "dvb_demux_filter list \<Rightarrow> nat \<Rightarrow> nat \<Rightarrow> bool" where
  "owns flts fd i \<longleftrightarrow> i < length flts \<and> flt_feed (flts ! i) = Some fd \<and> flt_state (flts ! i) = DMX_STATE_READY"

definition feed_ok :: "dvb_demux_filter list \<Rightarrow> dvb_demux_feed \<Rightarrow> nat \<Rightarrow> bool" where
  "feed_ok flts f fd \<longleftrightarrow>
     (case fd_type f of
        DMX_TYPE_SEC \<Rightarrow> (\<exists>ch. flt_chain flts (fd_filter f) ch \<and> (\<forall>i\<in>set ch. owns flts fd i))
      | DMX_TYPE_TS \<Rightarrow> (\<exists>i. fd_filter f = Some i \<and> owns flts fd i)
      | DMX_TYPE_PES \<Rightarrow> False)
     \<and> (fd_state f = DMX_STATE_GO \<longrightarrow> is_filtering f)"

definition demux_inv :: "dvb_demux \<Rightarrow> bool" where
  "demux_inv d \<longleftrightarrow>
     length (tsbuf d) = 204 \<and> length (pesfilter d) = DMX_TS_PES_OTHER \<and> length (pids d) = DMX_TS_PES_OTHER
     \<and> (\<forall>f\<in>set (dmx_filter d). flt_wf f)
     \<and> (\<forall>f\<in>set (dmx_feed d). length (secbuf_base f) = DMX_MAX_SECFEED_SIZE)
     \<and> distinct (feed_list d)
     \<and> (\<forall>fd\<in>set (feed_list d). fd < length (dmx_feed d) \<and> fd_state (dmx_feed d ! fd) \<noteq> DMX_STATE_FREE)
     \<and> (\<forall>fd<length (dmx_feed d). fd_state (dmx_feed d ! fd) \<noteq> DMX_STATE_FREE \<longrightarrow>
          feed_ok (dmx_filter d) (dmx_feed d ! fd) fd)
     \<and> (\<forall>p\<in>set (pesfilter d). \<forall>fd. p = Some fd \<longrightarrow> fd < length (dmx_feed d))
     \<and> 0 \<le> users d \<and> users d \<le> MAX_DVB_DEMUX_USERS"

lemma demux_inv_mutex [simp]: "demux_inv (d\<lparr>mutex := b\<rparr>) = demux_inv d"
  by (simp add: demux_inv_def)

lemma demux_inv_unlock [simp]: "demux_inv (mutex_unlock d) = demux_inv d" "mutex (mutex_unlock d) = False"
  by (simp_all add: mutex_unlock_def)

lemma mutex_lock_inv:
  "mutex_lock d = Some d' \<Longrightarrow> d' = d\<lparr>mutex := True\<rparr> \<and> \<not> mutex d"
  by (simp add: mutex_lock_def split: if_splits)

section \<open>Changes of one feed or one filter\<close>

lemma feed_ok_cong:
  "\<lbrakk>feed_ok flts f fd; fd_type f' = fd_type f; fd_filter f' = fd_filter f; fd_state f' = DMX_STATE_GO \<longrightarrow> is_filtering f'\<rbrakk>
   \<Longrightarrow> feed_ok flts f' fd"
  by (cases "fd_type f") (simp_all add: feed_ok_def)

text \<open>A change of filters that a feed does not use does not affect it.\<close>

lemma feed_ok_filters:
  assumes "feed_ok flts f fd" "length flts' = length flts" "\<forall>i. owns flts fd i \<longrightarrow> flts' ! i = flts ! i"
    and "\<forall>f\<in>set flts. flt_wf f"
  shows "feed_ok flts' f fd"
proof -
  have own: "owns flts fd i \<Longrightarrow> owns flts' fd i" for i
    using assms(2,3) by (auto simp: owns_def)
  have ch: "flt_chain flts' p ch" if "flt_chain flts p ch" "\<forall>i\<in>set ch. owns flts fd i" for p ch
    using that assms(2,3) flt_chain_bounds [OF that(1)] by (intro flt_chain_map [OF that(1)]) (auto simp: owns_def)
  show ?thesis
    using assms(1) own ch unfolding feed_ok_def by (cases "fd_type f") (simp_all, blast+)
qed

lemma demux_inv_feed:
  assumes "demux_inv d" "fd < length (dmx_feed d)" "length (secbuf_base f) = DMX_MAX_SECFEED_SIZE"
    and "fd_state f \<noteq> DMX_STATE_FREE \<Longrightarrow> feed_ok (dmx_filter d) f fd"
    and "fd_state f = DMX_STATE_FREE \<Longrightarrow> fd \<notin> set (feed_list d)"
  shows "demux_inv (d\<lparr>dmx_feed := (dmx_feed d)[fd := f]\<rparr>)"
  using assms by (auto simp: demux_inv_def nth_list_update dest!: set_update_subset_insert [THEN subsetD])

lemma demux_inv_filters:
  assumes "demux_inv d" "length flts = length (dmx_filter d)" "\<forall>f\<in>set flts. flt_wf f"
    and "\<And>fd. fd < length (dmx_feed d) \<Longrightarrow> fd_state (dmx_feed d ! fd) \<noteq> DMX_STATE_FREE \<Longrightarrow>
        feed_ok (dmx_filter d) (dmx_feed d ! fd) fd \<Longrightarrow> feed_ok flts (dmx_feed d ! fd) fd"
  shows "demux_inv (d\<lparr>dmx_filter := flts\<rparr>)"
  using assms by (auto simp: demux_inv_def)

lemma feed_add_inv:
  assumes "demux_inv d" "fd < length (dmx_feed d)" "fd_state (dmx_feed d ! fd) \<noteq> DMX_STATE_FREE"
  shows "demux_inv (dvb_demux_feed_add d fd)"
  using assms by (auto simp: demux_inv_def dvb_demux_feed_add_def dvb_demux_feed_find_def)

lemma feed_add_sel [simp]:
  "dmx_feed (dvb_demux_feed_add d fd) = dmx_feed d" "dmx_filter (dvb_demux_feed_add d fd) = dmx_filter d"
  "mutex (dvb_demux_feed_add d fd) = mutex d" "fd \<in> set (feed_list (dvb_demux_feed_add d fd))"
  by (simp_all add: dvb_demux_feed_add_def dvb_demux_feed_find_def)

lemma feed_del_inv: "demux_inv d \<Longrightarrow> demux_inv (dvb_demux_feed_del d fd)"
  using set_remove1_subset [of fd "feed_list d"]
  by (auto simp: demux_inv_def dvb_demux_feed_del_def dvb_demux_feed_find_def)

lemma feed_del_sel [simp]:
  "dmx_feed (dvb_demux_feed_del d fd) = dmx_feed d" "dmx_filter (dvb_demux_feed_del d fd) = dmx_filter d"
  "mutex (dvb_demux_feed_del d fd) = mutex d" "pesfilter (dvb_demux_feed_del d fd) = pesfilter d"
  "distinct (feed_list d) \<Longrightarrow> fd \<notin> set (feed_list (dvb_demux_feed_del d fd))"
  by (simp_all add: dvb_demux_feed_del_def dvb_demux_feed_find_def)

lemma demux_inv_pes:
  "\<lbrakk>demux_inv d; \<forall>fd. x = Some fd \<longrightarrow> fd < length (dmx_feed d)\<rbrakk> \<Longrightarrow>
     demux_inv (d\<lparr>pesfilter := (pesfilter d)[i := x]\<rparr>)"
  by (auto simp: demux_inv_def dest!: set_update_subset_insert [THEN subsetD])

lemma demux_inv_pids: "demux_inv d \<Longrightarrow> demux_inv (d\<lparr>pids := (pids d)[i := y]\<rparr>)"
  by (simp add: demux_inv_def)

section \<open>The calls of the client interface\<close>

definition demux_ok :: "dvb_demux \<Rightarrow> bool" where
  "demux_ok d \<longleftrightarrow> demux_inv d \<and> \<not> mutex d"

text \<open>Feed \<open>fd\<close> is in use and of the given type: what a client holds between allocation and release.\<close>

definition in_use :: "dmx_type \<Rightarrow> nat \<Rightarrow> dvb_demux \<Rightarrow> bool" where
  "in_use t fd d \<longleftrightarrow> fd < length (dmx_feed d) \<and> fd_state (dmx_feed d ! fd) \<noteq> DMX_STATE_FREE
     \<and> fd_type (dmx_feed d ! fd) = t"

lemma demux_inv_sel:
  assumes "demux_inv d"
  shows "fd < length (dmx_feed d) \<Longrightarrow> length (secbuf_base (dmx_feed d ! fd)) = DMX_MAX_SECFEED_SIZE"
    "in_use t fd d \<Longrightarrow> feed_ok (dmx_filter d) (dmx_feed d ! fd) fd"
    "i < length (dmx_filter d) \<Longrightarrow> flt_wf (dmx_filter d ! i)" "distinct (feed_list d)"
  using assms by (auto simp: demux_inv_def in_use_def)

lemma in_use_lock [simp]: "in_use t fd (d\<lparr>mutex := b\<rparr>) = in_use t fd d"
  by (simp add: in_use_def)

text \<open>A change of a feed in use that keeps its type and its filters.\<close>

lemma demux_inv_in_use:
  assumes "demux_inv d" "in_use t fd d" "fd_type f = t" "fd_filter f = fd_filter (dmx_feed d ! fd)"
    and "length (secbuf_base f) = length (secbuf_base (dmx_feed d ! fd))"
    and "fd_state f = DMX_STATE_GO \<longrightarrow> is_filtering f" "fd_state f = DMX_STATE_FREE \<Longrightarrow> fd \<notin> set (feed_list d)"
  shows "demux_inv (put_feed d fd f)"
proof -
  have "feed_ok (dmx_filter d) f fd"
    using demux_inv_sel(2) [OF assms(1,2)] assms(2-4,6) by (auto intro: feed_ok_cong simp: in_use_def)
  then show ?thesis
    using assms demux_inv_sel(1) [OF assms(1)] unfolding put_feed_def
    by (intro demux_inv_feed) (auto simp: in_use_def)
qed

lemma ts_feed_set_ok:
  assumes "demux_ok d" "in_use DMX_TYPE_TS fd d" "dmx_ts_feed_set intr fd p tt pt sz d = Some (r, d')"
  shows "demux_ok d'"
proof (cases "p > DMX_MAX_PID \<or> intr")
  case True
  then show ?thesis using assms by (auto simp: dmx_ts_feed_set_def split: if_splits)
next
  case False
  let ?dec = "tt AND TS_DECODER \<noteq> 0"
  let ?d1 = "d\<lparr>mutex := True\<rparr>"
  let ?d2 = "if ?dec then ?d1\<lparr>pesfilter := (pesfilter d)[pt := Some fd], pids := (pids d)[pt := p]\<rparr> else ?d1"
  have inv: "demux_inv d" "\<not> mutex d" using assms(1) by (simp_all add: demux_ok_def)
  have fd: "fd < length (dmx_feed d)" "fd_state (dmx_feed d ! fd) \<noteq> DMX_STATE_FREE" "fd_type (dmx_feed d ! fd) = DMX_TYPE_TS"
    using assms(2) by (simp_all add: in_use_def)
  have len: "length (pesfilter d) = 20" "length (pids d) = 20" using inv(1) by (simp_all add: demux_inv_def)
  have "demux_inv (?d1\<lparr>pesfilter := (pesfilter ?d1)[pt := Some fd]\<rparr>)" using inv(1) fd(1) by (intro demux_inv_pes) auto
  from demux_inv_pids [OF this, of pt p] have "demux_inv ?d2" using inv(1) by simp
  then have "demux_inv (dvb_demux_feed_add ?d2 fd)" using fd by (intro feed_add_inv) auto
  then have put: "demux_inv (put_feed (dvb_demux_feed_add ?d2 fd) fd f)"
    if "fd_type f = DMX_TYPE_TS" "fd_filter f = fd_filter (dmx_feed d ! fd)" "fd_state f = DMX_STATE_READY"
      "length (secbuf_base f) = length (secbuf_base (dmx_feed d ! fd))" for f
    using that fd by (intro demux_inv_in_use [where t = DMX_TYPE_TS]) (auto simp: in_use_def)
  have "d' = d \<or> d' = d\<lparr>mutex := False\<rparr> \<or> d' = mutex_unlock (put_feed (dvb_demux_feed_add ?d2 fd) fd
      ((dmx_feed d ! fd)\<lparr>pid := p, buffer_size := sz, ts_type := tt, pes_type := pt, fd_state := DMX_STATE_READY\<rparr>))"
    using assms(3) False inv(2) fd(1) len
    by (auto simp: dmx_ts_feed_set_def mutex_lock_def mutex_unlock_def mem_simps bind_eq_Some_conv rd_def wr_def
        split: if_splits)
  then show ?thesis using inv put fd(3) by (auto simp: demux_ok_def)
qed

lemma ts_start_ok:
  assumes "demux_ok d" "in_use DMX_TYPE_TS fd d" "dmx_ts_feed_start_filtering env intr fd d w = Some (r, d', w')"
  shows "demux_ok d'"
proof -
  let ?f = "(dmx_feed d ! fd)\<lparr>is_filtering := True, fd_state := DMX_STATE_GO\<rparr>"
  have "demux_inv (put_feed (d\<lparr>mutex := True\<rparr>) fd ?f)"
    using assms(1,2) by (intro demux_inv_in_use [where t = DMX_TYPE_TS]) (auto simp: demux_ok_def in_use_def)
  moreover have "d' = d \<or> d' = d\<lparr>mutex := False\<rparr> \<or> d' = mutex_unlock (put_feed (d\<lparr>mutex := True\<rparr>) fd ?f)"
    using assms
    by (auto simp: dmx_ts_feed_start_filtering_def demux_ok_def in_use_def mutex_lock_def mutex_unlock_def mem_simps
        Let_def split: if_splits option.splits prod.splits)
  ultimately show ?thesis using assms(1) by (auto simp: demux_ok_def)
qed

lemma ts_stop_ok:
  assumes "demux_ok d" "in_use DMX_TYPE_TS fd d" "dmx_ts_feed_stop_filtering env fd d w = Some (r, d', w')"
  shows "demux_ok d'"
proof -
  let ?f = "(dmx_feed d ! fd)\<lparr>is_filtering := False, fd_state := DMX_STATE_ALLOCATED\<rparr>"
  have "demux_inv (put_feed (d\<lparr>mutex := True\<rparr>) fd ?f)"
    using assms(1,2) by (intro demux_inv_in_use [where t = DMX_TYPE_TS]) (auto simp: demux_ok_def in_use_def)
  moreover have "d' = d\<lparr>mutex := False\<rparr> \<or> d' = mutex_unlock (put_feed (d\<lparr>mutex := True\<rparr>) fd ?f)"
    using assms
    by (auto simp: dmx_ts_feed_stop_filtering_def demux_ok_def in_use_def mutex_lock_def mutex_unlock_def mem_simps
        Let_def split: if_splits option.splits prod.splits)
  ultimately show ?thesis using assms(1) by (auto simp: demux_ok_def)
qed

lemma section_set_ok:
  assumes "demux_ok d" "in_use DMX_TYPE_SEC fd d" "dmx_section_feed_set intr fd p sz crc d = Some (r, d')"
  shows "demux_ok d'"
proof -
  let ?f = "(dmx_feed d ! fd)\<lparr>pid := p, buffer_size := sz, check_crc := crc, fd_state := DMX_STATE_READY\<rparr>"
  let ?d = "put_feed (dvb_demux_feed_add (d\<lparr>mutex := True\<rparr>) fd) fd ?f"
  have "demux_inv (dvb_demux_feed_add (d\<lparr>mutex := True\<rparr>) fd)"
    using assms(1,2) by (intro feed_add_inv) (auto simp: demux_ok_def in_use_def)
  then have "demux_inv ?d"
    using assms(2) by (intro demux_inv_in_use [where t = DMX_TYPE_SEC]) (auto simp: in_use_def)
  moreover have "d' = d \<or> d' = mutex_unlock ?d"
    using assms
    by (auto simp: dmx_section_feed_set_def demux_ok_def in_use_def mutex_lock_def mem_simps Let_def split: if_splits)
  ultimately show ?thesis using assms(1) by (auto simp: demux_ok_def)
qed

lemma section_stop_ok:
  assumes "demux_ok d" "in_use DMX_TYPE_SEC fd d" "dmx_section_feed_stop_filtering env fd d w = Some (r, d', w')"
  shows "demux_ok d'"
proof -
  let ?f = "(dmx_feed d ! fd)\<lparr>fd_state := DMX_STATE_READY, is_filtering := False\<rparr>"
  have "demux_inv (put_feed (d\<lparr>mutex := True\<rparr>) fd ?f)"
    using assms(1,2) by (intro demux_inv_in_use [where t = DMX_TYPE_SEC]) (auto simp: demux_ok_def in_use_def)
  moreover have "d' = d\<lparr>mutex := False\<rparr> \<or> d' = mutex_unlock (put_feed (d\<lparr>mutex := True\<rparr>) fd ?f)"
    using assms
    by (auto simp: dmx_section_feed_stop_filtering_def demux_ok_def in_use_def mutex_lock_def mutex_unlock_def mem_simps
        Let_def split: if_splits option.splits prod.splits)
  ultimately show ?thesis using assms(1) by (auto simp: demux_ok_def)
qed

text \<open>Allocation takes the first free element.\<close>

lemma find_upt_Some:
  "find P [0..<n] = Some i \<Longrightarrow> i < n \<and> P i"
  by (auto simp: find_Some_iff)

lemma feed_alloc_free:
  "dvb_dmx_feed_alloc d = (Some fd, d') \<Longrightarrow> fd < length (dmx_feed d) \<and> fd_state (dmx_feed d ! fd) = DMX_STATE_FREE
     \<and> d' = put_feed d fd ((dmx_feed d ! fd)\<lparr>fd_state := DMX_STATE_ALLOCATED\<rparr>)"
  "dvb_dmx_feed_alloc d = (None, d') \<Longrightarrow> d' = d"
  by (auto simp: dvb_dmx_feed_alloc_def split: option.splits dest!: find_upt_Some)

lemma filter_alloc_free:
  "dvb_dmx_filter_alloc d = (Some fi, d') \<Longrightarrow> fi < length (dmx_filter d) \<and> flt_state (dmx_filter d ! fi) = DMX_STATE_FREE
     \<and> d' = put_filter d fi ((dmx_filter d ! fi)\<lparr>flt_state := DMX_STATE_ALLOCATED\<rparr>)"
  "dvb_dmx_filter_alloc d = (None, d') \<Longrightarrow> d' = d"
  by (auto simp: dvb_dmx_filter_alloc_def split: option.splits dest!: find_upt_Some)

lemma section_alloc_ok:
  assumes "demux_ok d" "dvbdmx_allocate_section_feed intr d = Some (r, fd, d')"
  shows "demux_ok d'"
proof (cases "intr \<or> fst (dvb_dmx_feed_alloc (d\<lparr>mutex := True\<rparr>)) = None")
  case True
  then show ?thesis
    using assms feed_alloc_free(2) [of "d\<lparr>mutex := True\<rparr>"]
    by (auto simp: dvbdmx_allocate_section_feed_def demux_ok_def mutex_lock_def split: if_splits option.splits prod.splits)
next
  case False
  then obtain fd' d1 where al: "dvb_dmx_feed_alloc (d\<lparr>mutex := True\<rparr>) = (Some fd', d1)"
    by (cases "dvb_dmx_feed_alloc (d\<lparr>mutex := True\<rparr>)") auto
  note al' = feed_alloc_free(1) [OF al]
  let ?f = "(dmx_feed d ! fd')\<lparr>fd_state := DMX_STATE_ALLOCATED, fd_type := DMX_TYPE_SEC, pid := 0xffff, secbuf := 0,
     secbufp := 0, seclen := 0, tsfeedp := 0, fd_filter := None, is_filtering := False\<rparr>"
  have "feed_ok (dmx_filter d) ?f fd'" by (simp add: feed_ok_def exI [of _ "[]"])
  then have "demux_inv (d\<lparr>dmx_feed := (dmx_feed d)[fd' := ?f]\<rparr>)"
    using assms(1) al' demux_inv_sel(1) [of d fd'] by (intro demux_inv_feed) (auto simp: demux_ok_def)
  moreover have "d' = d\<lparr>dmx_feed := (dmx_feed d)[fd' := ?f], mutex := False\<rparr>"
    using assms False al al'
    by (auto simp: dvbdmx_allocate_section_feed_def demux_ok_def mutex_lock_def mutex_unlock_def put_feed_def Let_def
        split: if_splits)
  ultimately show ?thesis by (simp add: demux_ok_def)
qed

lemma section_release_ok:
  assumes "demux_ok d" "in_use DMX_TYPE_SEC fd d" "dvbdmx_release_section_feed fd d = Some (r, d')"
  shows "demux_ok d'"
proof -
  let ?d = "dvb_demux_feed_del (d\<lparr>mutex := True\<rparr>) fd"
  have inv: "demux_inv ?d" using assms(1) by (intro feed_del_inv) (simp add: demux_ok_def)
  have "fd \<notin> set (feed_list ?d)" using assms(1) demux_inv_sel(4) [of d] by (simp add: demux_ok_def)
  then have "demux_inv (put_feed ?d fd ((dmx_feed d ! fd)\<lparr>fd_state := DMX_STATE_FREE, pid := 0xffff\<rparr>))"
    using assms(2) inv by (intro demux_inv_in_use [where t = DMX_TYPE_SEC]) (auto simp: in_use_def)
  then show ?thesis
    using assms by (auto simp: dvbdmx_release_section_feed_def demux_ok_def in_use_def mutex_lock_def mem_simps Let_def
        split: if_splits)
qed

text \<open>A feed and filters that no other feed uses may be changed together.\<close>

lemma demux_inv_own:
  assumes inv: "demux_inv d" and fd: "fd < length (dmx_feed d)"
    and flts: "length flts = length (dmx_filter d)" "\<forall>f\<in>set flts. flt_wf f"
    and other: "\<And>k i. k \<noteq> fd \<Longrightarrow> owns (dmx_filter d) k i \<Longrightarrow> flts ! i = dmx_filter d ! i"
    and f: "length (secbuf_base f) = DMX_MAX_SECFEED_SIZE" "fd_state f \<noteq> DMX_STATE_FREE \<Longrightarrow> feed_ok flts f fd"
      "fd_state f = DMX_STATE_FREE \<Longrightarrow> fd \<notin> set (feed_list d)"
  shows "demux_inv (d\<lparr>dmx_filter := flts, dmx_feed := (dmx_feed d)[fd := f]\<rparr>)"
proof -
  have wf: "\<forall>f\<in>set (dmx_filter d). flt_wf f" using inv by (simp add: demux_inv_def)
  have "feed_ok flts g k" if "feed_ok (dmx_filter d) g k" "k \<noteq> fd" for g k
    using wf flts(1) other [OF that(2)] by (intro feed_ok_filters [OF that(1)]) auto
  then show ?thesis
    using inv fd flts f
    by (auto simp: demux_inv_def nth_list_update dest!: set_update_subset_insert [THEN subsetD])
qed

lemma demux_inv_give_filter:
  assumes "demux_inv d" "fi < length (dmx_filter d)" "flt_state (dmx_filter d ! fi) = DMX_STATE_FREE"
    and "flt_wf x" "fd < length (dmx_feed d)" "length (secbuf_base f) = DMX_MAX_SECFEED_SIZE"
    and "fd_state f \<noteq> DMX_STATE_FREE" "feed_ok ((dmx_filter d)[fi := x]) f fd"
  shows "demux_inv (d\<lparr>dmx_filter := (dmx_filter d)[fi := x], dmx_feed := (dmx_feed d)[fd := f]\<rparr>)"
proof (rule demux_inv_own [OF assms(1,5)])
  show "\<forall>f\<in>set ((dmx_filter d)[fi := x]). flt_wf f"
    using assms(1,4) by (auto simp: demux_inv_def dest!: set_update_subset_insert [THEN subsetD])
  show "(dmx_filter d)[fi := x] ! i = dmx_filter d ! i" if "owns (dmx_filter d) k i" for k i
    using that assms(3) by (cases "i = fi") (auto simp: owns_def)
qed (use assms in auto)

lemma ts_alloc_ok:
  assumes "demux_ok d" "dvbdmx_allocate_ts_feed intr d = Some (r, fd, d')"
  shows "demux_ok d'"
proof (cases "intr \<or> fst (dvb_dmx_feed_alloc (d\<lparr>mutex := True\<rparr>)) = None")
  case True
  then show ?thesis
    using assms feed_alloc_free(2) [of "d\<lparr>mutex := True\<rparr>"]
    by (auto simp: dvbdmx_allocate_ts_feed_def demux_ok_def mutex_lock_def split: if_splits option.splits prod.splits)
next
  case False
  then obtain fd' d1 where al: "dvb_dmx_feed_alloc (d\<lparr>mutex := True\<rparr>) = (Some fd', d1)"
    by (cases "dvb_dmx_feed_alloc (d\<lparr>mutex := True\<rparr>)") auto
  note al' = feed_alloc_free(1) [OF al]
  have inv: "demux_inv d" "\<not> mutex d" using assms(1) by (simp_all add: demux_ok_def)
  have fd': "fd' < length (dmx_feed d)" "length (secbuf_base (dmx_feed d ! fd')) = DMX_MAX_SECFEED_SIZE" "fd' \<notin> set (feed_list d)"
    using al' inv(1) demux_inv_sel(1) by (auto simp: demux_inv_def)
  define f where "f = (dmx_feed d ! fd')\<lparr>fd_state := DMX_STATE_ALLOCATED, fd_type := DMX_TYPE_TS, pid := 0xffff,
    peslen := 0xfffa, is_filtering := False\<rparr>"
  show ?thesis
  proof (cases "dvb_dmx_filter_alloc d1")
    case (Pair o' d2)
    show ?thesis
    proof (cases o')
      case None
      then have "d' = d\<lparr>dmx_feed := (dmx_feed d)[fd' := f\<lparr>fd_filter := None, fd_state := DMX_STATE_FREE\<rparr>], mutex := False\<rparr>"
        using assms(2) False al al' inv(2) Pair filter_alloc_free(2) [of d1 d2]
        by (auto simp: dvbdmx_allocate_ts_feed_def mutex_lock_def mutex_unlock_def put_feed_def Let_def f_def split: if_splits)
      moreover have "demux_inv (d\<lparr>dmx_feed := (dmx_feed d)[fd' := f\<lparr>fd_filter := None, fd_state := DMX_STATE_FREE\<rparr>]\<rparr>)"
        using inv(1) fd' by (intro demux_inv_feed) (auto simp: f_def)
      ultimately show ?thesis by (simp add: demux_ok_def)
    next
      case (Some fi)
      let ?x = "(dmx_filter d ! fi)\<lparr>flt_type := DMX_TYPE_TS, flt_feed := Some fd', flt_state := DMX_STATE_READY\<rparr>"
      have fi: "fi < length (dmx_filter d)" "flt_state (dmx_filter d ! fi) = DMX_STATE_FREE"
        "d2 = put_filter d1 fi ((dmx_filter d ! fi)\<lparr>flt_state := DMX_STATE_ALLOCATED\<rparr>)"
        using filter_alloc_free(1) [of d1 fi d2] Pair Some al' by (auto simp: put_feed_def)
      have "flt_wf ?x" using demux_inv_sel(3) [OF inv(1) fi(1)] by (simp add: flt_wf_def)
      moreover have "feed_ok ((dmx_filter d)[fi := ?x]) (f\<lparr>fd_filter := Some fi\<rparr>) fd'"
        using fi(1) by (simp add: feed_ok_def f_def owns_def)
      ultimately have "demux_inv (d\<lparr>dmx_filter := (dmx_filter d)[fi := ?x],
          dmx_feed := (dmx_feed d)[fd' := f\<lparr>fd_filter := Some fi\<rparr>]\<rparr>)"
        using inv(1) fi(1,2) fd' by (intro demux_inv_give_filter) (auto simp: f_def)
      moreover have "d' = d\<lparr>dmx_filter := (dmx_filter d)[fi := ?x],
          dmx_feed := (dmx_feed d)[fd' := f\<lparr>fd_filter := Some fi\<rparr>], mutex := False\<rparr>"
        using assms(2) False al al' inv(2) Pair Some fi
        by (auto simp: dvbdmx_allocate_ts_feed_def mutex_lock_def mutex_unlock_def put_feed_def put_filter_def Let_def
            f_def split: if_splits)
      ultimately show ?thesis by (simp add: demux_ok_def)
    qed
  qed
qed

lemma filter_allocate_ok:
  assumes "demux_ok d" "in_use DMX_TYPE_SEC fd d" "dmx_section_feed_allocate_filter intr fd d = Some (r, fi', d')"
  shows "demux_ok d'"
proof (cases "intr \<or> fst (dvb_dmx_filter_alloc (d\<lparr>mutex := True\<rparr>)) = None")
  case True
  then show ?thesis
    using assms filter_alloc_free(2) [of "d\<lparr>mutex := True\<rparr>"]
    by (auto simp: dmx_section_feed_allocate_filter_def demux_ok_def mutex_lock_def split: if_splits option.splits prod.splits)
next
  case False
  then obtain fi d1 where al: "dvb_dmx_filter_alloc (d\<lparr>mutex := True\<rparr>) = (Some fi, d1)"
    by (cases "dvb_dmx_filter_alloc (d\<lparr>mutex := True\<rparr>)") auto
  note al' = filter_alloc_free(1) [OF al]
  have inv: "demux_inv d" "\<not> mutex d" using assms(1) by (simp_all add: demux_ok_def)
  have fd: "fd < length (dmx_feed d)" "fd_type (dmx_feed d ! fd) = DMX_TYPE_SEC" "fd_state (dmx_feed d ! fd) \<noteq> DMX_STATE_FREE"
    using assms(2) by (simp_all add: in_use_def)
  let ?f = "(dmx_feed d ! fd)\<lparr>fd_filter := Some fi\<rparr>"
  let ?x = "(dmx_filter d ! fi)\<lparr>flt_feed := Some fd, flt_type := DMX_TYPE_SEC, flt_state := DMX_STATE_READY,
    flt_next := fd_filter (dmx_feed d ! fd)\<rparr>"
  have wf: "flt_wf ?x" using demux_inv_sel(3) [OF inv(1)] al' by (simp add: flt_wf_def)
  obtain ch where ch: "flt_chain (dmx_filter d) (fd_filter (dmx_feed d ! fd)) ch" "\<forall>i\<in>set ch. owns (dmx_filter d) fd i"
    and go: "fd_state (dmx_feed d ! fd) = DMX_STATE_GO \<longrightarrow> is_filtering (dmx_feed d ! fd)"
    using demux_inv_sel(2) [OF inv(1) assms(2)] fd(2) by (auto simp: feed_ok_def)
  have "fi \<notin> set ch" using ch(2) al' by (auto simp: owns_def)
  then have "flt_chain ((dmx_filter d)[fi := ?x]) (Some fi) (fi # ch)"
    using ch(1) al' wf by (simp add: flt_chain_upd)
  moreover have "owns ((dmx_filter d)[fi := ?x]) fd i" if "i \<in> set (fi # ch)" for i
    using that ch(2) al' by (auto simp: owns_def nth_list_update)
  ultimately have "feed_ok ((dmx_filter d)[fi := ?x]) ?f fd"
    using fd(2) go unfolding feed_ok_def by (auto intro!: exI [of _ "fi # ch"])
  then have "demux_inv (d\<lparr>dmx_filter := (dmx_filter d)[fi := ?x], dmx_feed := (dmx_feed d)[fd := ?f]\<rparr>)"
    using inv(1) al' wf fd demux_inv_sel(1) [OF inv(1)] by (intro demux_inv_give_filter) auto
  moreover have "d' = d\<lparr>dmx_filter := (dmx_filter d)[fi := ?x], dmx_feed := (dmx_feed d)[fd := ?f], mutex := False\<rparr>"
    using assms(3) False al al' inv(2) fd(1)
    by (auto simp: dmx_section_feed_allocate_filter_def mutex_lock_def mutex_unlock_def put_feed_def put_filter_def
        Let_def mem_simps split: if_splits)
  ultimately show ?thesis by (simp add: demux_ok_def)
qed

lemma ts_release_ok:
  assumes "demux_ok d" "in_use DMX_TYPE_TS fd d" "dvbdmx_release_ts_feed fd d = Some (r, d')"
  shows "demux_ok d'"
proof -
  have inv: "demux_inv d" "\<not> mutex d" using assms(1) by (simp_all add: demux_ok_def)
  have fd: "fd < length (dmx_feed d)" "fd_state (dmx_feed d ! fd) \<noteq> DMX_STATE_FREE" "fd_type (dmx_feed d ! fd) = DMX_TYPE_TS"
    using assms(2) by (simp_all add: in_use_def)
  obtain fi where fi: "fd_filter (dmx_feed d ! fd) = Some fi" "owns (dmx_filter d) fd fi"
    using demux_inv_sel(2) [OF inv(1) assms(2)] fd(3) by (auto simp: feed_ok_def)
  let ?x = "(dmx_filter d ! fi)\<lparr>flt_state := DMX_STATE_FREE\<rparr>"
  let ?f = "(dmx_feed d ! fd)\<lparr>fd_state := DMX_STATE_FREE, pid := 0xffff\<rparr>"
  let ?d = "dvb_demux_feed_del (d\<lparr>mutex := True\<rparr>) fd"
  have dinv: "demux_inv ?d" using inv by (intro feed_del_inv) simp
  have len: "fi < length (dmx_filter d)" "length (pesfilter d) = 20" using fi inv by (auto simp: owns_def demux_inv_def)
  have "demux_inv (?d\<lparr>dmx_filter := (dmx_filter ?d)[fi := ?x], dmx_feed := (dmx_feed ?d)[fd := ?f]\<rparr>)"
  proof (rule demux_inv_own [OF dinv])
    show "\<forall>f\<in>set ((dmx_filter ?d)[fi := ?x]). flt_wf f"
      using inv(1) demux_inv_sel(3) [OF inv(1) len(1)]
      by (auto simp: demux_inv_def flt_wf_def dest!: set_update_subset_insert [THEN subsetD])
    show "(dmx_filter ?d)[fi := ?x] ! i = dmx_filter ?d ! i" if "k \<noteq> fd" "owns (dmx_filter ?d) k i" for k i
      using that fi(2) by (cases "i = fi") (auto simp: owns_def)
  qed (use fd demux_inv_sel(1,4) [OF inv(1)] in auto)
  note new = this demux_inv_pes [OF this, of None "pes_type (dmx_feed d ! fd)"]
  have "d' = ?d\<lparr>dmx_filter := (dmx_filter ?d)[fi := ?x], dmx_feed := (dmx_feed ?d)[fd := ?f], mutex := False\<rparr>
    \<or> d' = ?d\<lparr>dmx_filter := (dmx_filter ?d)[fi := ?x], dmx_feed := (dmx_feed ?d)[fd := ?f],
        pesfilter := (pesfilter ?d)[pes_type (dmx_feed d ! fd) := None], mutex := False\<rparr>"
    using assms(3) inv(2) fd fi len
    by (auto simp: dvbdmx_release_ts_feed_def mutex_lock_def mutex_unlock_def put_filter_def put_feed_def mem_simps
        dvb_demux_feed_del_def dvb_demux_feed_find_def Let_def split: if_splits)
  then show ?thesis using new by (auto simp: demux_ok_def)
qed

lemma in_use_chain:
  assumes "demux_inv d" "in_use DMX_TYPE_SEC fd d"
  obtains ch where "flt_chain (dmx_filter d) (fd_filter (dmx_feed d ! fd)) ch" "\<forall>i\<in>set ch. owns (dmx_filter d) fd i"
  using demux_inv_sel(2) [OF assms] assms(2) that by (auto simp: feed_ok_def in_use_def)

lemma in_use_go:
  "\<lbrakk>demux_inv d; in_use t fd d; fd_state (dmx_feed d ! fd) = DMX_STATE_GO\<rbrakk> \<Longrightarrow> is_filtering (dmx_feed d ! fd)"
  using demux_inv_sel(2) [of d t fd] by (simp add: feed_ok_def)

lemma prepare_all_inv:
  assumes inv: "demux_inv d" "in_use DMX_TYPE_SEC fd d"
    and ch: "flt_chain (dmx_filter d) (fd_filter (dmx_feed d ! fd)) ch" "\<forall>i\<in>set ch. owns (dmx_filter d) fd i"
    and f: "fd_filter f = fd_filter (dmx_feed d ! fd)" "fd_type f = DMX_TYPE_SEC" "fd_state f \<noteq> DMX_STATE_FREE"
      "fd_state f = DMX_STATE_GO \<longrightarrow> is_filtering f" "length (secbuf_base f) = length (secbuf_base (dmx_feed d ! fd))"
  shows "demux_inv (d\<lparr>dmx_feed := (dmx_feed d)[fd := f], dmx_filter := prepare_all ch (dmx_filter d)\<rparr>)"
proof -
  have swap: "d\<lparr>dmx_feed := a, dmx_filter := b\<rparr> = d\<lparr>dmx_filter := b, dmx_feed := a\<rparr>" for a b by simp
  let ?flts = "prepare_all ch (dmx_filter d)"
  have fd: "fd < length (dmx_feed d)" using inv(2) by (simp add: in_use_def)
  have b: "distinct ch" "\<forall>i\<in>set ch. i < length (dmx_filter d)"
    using flt_chain_distinct [OF ch(1)] flt_chain_bounds [OF ch(1)] by auto
  have nth: "?flts ! i = (if i \<in> set ch then prepare_filter (dmx_filter d ! i) else dmx_filter d ! i)"
    if "i < length (dmx_filter d)" for i
    using prepare_all_nth [OF b that] .
  have wf: "\<forall>f\<in>set ?flts. flt_wf f"
    using demux_inv_sel(3) [OF inv(1)] nth by (auto simp: in_set_conv_nth)
  have chain: "flt_chain ?flts (fd_filter (dmx_feed d ! fd)) ch" "\<forall>i\<in>set ch. owns ?flts fd i"
    using b ch nth demux_inv_sel(3) [OF inv(1)]
    by (auto intro!: flt_chain_map [OF ch(1)] simp: owns_def prepare_filter_def flt_wf_def)
  show ?thesis unfolding swap
  proof (rule demux_inv_own [OF inv(1) fd _ wf])
    show "?flts ! i = dmx_filter d ! i" if "k \<noteq> fd" "owns (dmx_filter d) k i" for k i
      using that ch(2) nth [of i] by (auto simp: owns_def)
    show "feed_ok ?flts f fd" using f chain by (auto simp: feed_ok_def)
  qed (use f fd demux_inv_sel(1) [OF inv(1)] in auto)
qed

lemma section_start_inv:
  assumes "demux_ok d" "in_use DMX_TYPE_SEC fd d" "dmx_section_feed_start_filtering env intr fd d w = Some (r, d', w')"
  shows "demux_ok d'"
proof -
  have inv: "demux_inv d" "\<not> mutex d" using assms(1) by (simp_all add: demux_ok_def)
  have fd: "fd < length (dmx_feed d)" "fd_state (dmx_feed d ! fd) \<noteq> DMX_STATE_FREE" "fd_type (dmx_feed d ! fd) = DMX_TYPE_SEC"
    using assms(2) by (simp_all add: in_use_def)
  let ?f = "(dmx_feed d ! fd)\<lparr>tsfeedp := 0, secbuf := 0, secbufp := 0, seclen := 0\<rparr>"
  note go = in_use_go [OF inv(1) assms(2)]
  have plain: "demux_inv (d\<lparr>dmx_feed := (dmx_feed d)[fd := ?f]\<rparr>)"
    using demux_inv_in_use [OF inv(1) assms(2), of ?f] fd go by (simp add: put_feed_def)
  consider "d' = d" | "d' = d\<lparr>mutex := False\<rparr>" | "d' = d\<lparr>dmx_feed := (dmx_feed d)[fd := ?f], mutex := False\<rparr>"
    | start where "start_feed env = Some start" "\<not> intr" "\<not> is_filtering (dmx_feed d ! fd)" "fd_filter (dmx_feed d ! fd) \<noteq> None"
    using assms(3) inv(2) fd(1)
    by (cases "start_feed env")
      (auto simp: dmx_section_feed_start_filtering_def mutex_lock_def mutex_unlock_def mem_simps put_feed_def Let_def
        split: if_splits)
  then show ?thesis
  proof cases
    case 4
    obtain ch where ch: "flt_chain (dmx_filter d) (fd_filter (dmx_feed d ! fd)) ch" "\<forall>i\<in>set ch. owns (dmx_filter d) fd i"
      using in_use_chain [OF inv(1) assms(2)] .
    obtain r1 w1 where st: "start fd w = (r1, w1)" by (cases "start fd w")
    have "ch \<noteq> []" using ch(1) 4(4) by auto
    note eq = section_start_ok [OF inv(2) fd(1) 4(3) ch(1) this 4(1) st]
    show ?thesis
      using eq 4(2) assms(3) fd go inv prepare_all_inv [OF inv(1) assms(2) ch, of ?f]
        prepare_all_inv [OF inv(1) assms(2) ch, of "?f\<lparr>is_filtering := True, fd_state := DMX_STATE_GO\<rparr>"]
      by (auto simp: demux_ok_def Let_def split: if_splits)
  qed (use inv plain in \<open>auto simp: demux_ok_def\<close>)
qed

lemma release_chain_inv:
  assumes "demux_ok d" "in_use DMX_TYPE_SEC fd d" "dmx_section_feed_release_filter env fd fi d w = Some (r, d', w')"
    and ch: "flt_chain (dmx_filter d) (fd_filter (dmx_feed d ! fd)) ch" "fi \<in> set ch"
  shows "demux_ok d'"
proof -
  have inv: "demux_inv d" "\<not> mutex d" using assms(1) by (simp_all add: demux_ok_def)
  have fd: "fd < length (dmx_feed d)" "fd_state (dmx_feed d ! fd) \<noteq> DMX_STATE_FREE" "fd_type (dmx_feed d ! fd) = DMX_TYPE_SEC"
    using assms(2) by (simp_all add: in_use_def)
  have own: "\<forall>i\<in>set ch. owns (dmx_filter d) fd i"
    using in_use_chain [OF inv(1) assms(2)] flt_chain_functional [OF ch(1)] by metis
  then have fi: "fi < length (dmx_filter d)" "flt_feed (dmx_filter d ! fi) = Some fd" using ch(2) by (auto simp: owns_def)
  have nf: "\<not> is_filtering (dmx_feed d ! fd)"
  proof
    assume "is_filtering (dmx_feed d ! fd)"
    then show False
      using assms(3) inv(2) fi fd(1)
      by (simp add: dmx_section_feed_release_filter_def dmx_section_feed_stop_filtering_def mutex_lock_def mem_simps)
  qed
  obtain flts ff where eq: "dmx_section_feed_release_filter env fd fi d w = Some (0, d\<lparr>dmx_filter := flts,
       dmx_feed := (dmx_feed d)[fd := (dmx_feed d ! fd)\<lparr>fd_filter := ff\<rparr>]\<rparr>, w)"
    and len: "length flts = length (dmx_filter d)" and chain: "flt_chain flts ff (remove1 fi ch)"
    and nth: "flts ! fi = (dmx_filter d ! fi)\<lparr>flt_state := DMX_STATE_FREE\<rparr>"
      "\<And>i. i \<noteq> fi \<Longrightarrow> flts ! i = (dmx_filter d ! i)\<lparr>flt_next := flt_next (flts ! i)\<rparr>"
      "\<And>i. i \<noteq> fi \<Longrightarrow> i \<notin> set ch \<Longrightarrow> flts ! i = dmx_filter d ! i"
    using release_filter_eq [OF inv(2) fd(1) nf ch fi(2), of env w] by blast
  have nth2: "flt_wf (flts ! i) \<and> (i \<noteq> fi \<longrightarrow> owns (dmx_filter d) fd i \<longrightarrow> owns flts fd i)" if "i < length flts" for i
  proof (cases "i = fi")
    case True
    then show ?thesis using that len demux_inv_sel(3) [OF inv(1), of i] nth(1) by (simp add: flt_wf_def)
  next
    case False
    obtain x where "flts ! i = (dmx_filter d ! i)\<lparr>flt_next := x\<rparr>" using nth(2) [OF False] by blast
    then show ?thesis using that len demux_inv_sel(3) [OF inv(1), of i] by (simp add: flt_wf_def owns_def)
  qed
  have "demux_inv (d\<lparr>dmx_filter := flts, dmx_feed := (dmx_feed d)[fd := (dmx_feed d ! fd)\<lparr>fd_filter := ff\<rparr>]\<rparr>)"
  proof (rule demux_inv_own [OF inv(1) fd(1) len])
    show "\<forall>f\<in>set flts. flt_wf f" using nth2 by (auto simp: in_set_conv_nth)
    show "flts ! i = dmx_filter d ! i" if "k \<noteq> fd" "owns (dmx_filter d) k i" for k i
      using that own ch(2) by (intro nth(3)) (auto simp: owns_def)
    have "owns flts fd i" if "i \<in> set (remove1 fi ch)" for i
      using that nth2 [of i] own len flt_chain_distinct [OF ch(1)] by (auto simp: owns_def)
    then show "feed_ok flts ((dmx_feed d ! fd)\<lparr>fd_filter := ff\<rparr>) fd"
      using chain fd(3) in_use_go [OF inv(1) assms(2)] by (auto simp: feed_ok_def)
  qed (use fd demux_inv_sel(1) [OF inv(1)] in auto)
  then show ?thesis using assms(3) eq inv(2) by (auto simp: demux_ok_def)
qed

lemma filter_unlink_None: "flt_chain flts p ch \<Longrightarrow> fi \<notin> set ch \<Longrightarrow> filter_unlink flts p fi = None"
proof (induction ch arbitrary: p)
  case Nil
  then show ?case by (cases p) (auto simp: filter_unlink.simps [of flts None])
next
  case (Cons j js)
  then have j: "p = Some j" "j < length flts" "flt_chain flts (flt_next (flts ! j)) js" by (cases p; auto)+
  have "flt_next (flts ! j) \<noteq> Some fi" using j(3) Cons.prems(2) by (cases js) auto
  then show ?case using j Cons by (subst filter_unlink.simps) (simp add: mem_simps)
qed

lemma release_filter_inv:
  assumes "demux_ok d" "in_use DMX_TYPE_SEC fd d" "dmx_section_feed_release_filter env fd fi d w = Some (r, d', w')"
  shows "demux_ok d'"
proof -
  have inv: "demux_inv d" "\<not> mutex d" using assms(1) by (simp_all add: demux_ok_def)
  obtain ch where ch: "flt_chain (dmx_filter d) (fd_filter (dmx_feed d ! fd)) ch"
    using in_use_chain [OF inv(1) assms(2)] .
  show ?thesis
  proof (cases "fi \<in> set ch")
    case True
    then show ?thesis using release_chain_inv [OF assms ch] by simp
  next
    case False
    then have "fd_filter (dmx_feed d ! fd) \<noteq> Some fi" using ch by (cases ch) auto
    then have "d' = d\<lparr>mutex := False\<rparr>"
      using assms filter_unlink_None [OF ch False] inv(2)
      by (auto simp: dmx_section_feed_release_filter_def dmx_section_feed_stop_filtering_def mutex_lock_def
          mutex_unlock_def bind_eq_Some_conv rd_def split: if_splits)
    then show ?thesis using inv by (simp add: demux_ok_def)
  qed
qed

end
