(* ===== verification/Dvb_Demux_Reach.thy ===== *)
theory Dvb_Demux_Reach
  imports Dvb_Demux_Invariant
begin

text \<open>
  The calls of the data path keep the invariant of the demux as well. Together with those of the client
  interface they are the steps of a transition relation, whose reachable states all have the invariant.
\<close>

section \<open>The data path\<close>

text \<open>What the data path may change of the demux.\<close>

definition same_demux :: "dvb_demux \<Rightarrow> dvb_demux \<Rightarrow> bool" where
  "same_demux d d' \<longleftrightarrow> dmx_filter d' = dmx_filter d \<and> same_cfgs (dmx_feed d) (dmx_feed d') \<and> users d' = users d
     \<and> pesfilter d' = pesfilter d \<and> pids d' = pids d \<and> feed_list d' = feed_list d \<and> mutex d' = mutex d
     \<and> length (tsbuf d') = length (tsbuf d)"

lemma same_cfgs_trans: "same_cfgs a b \<Longrightarrow> same_cfgs b c \<Longrightarrow> same_cfgs a c"
  unfolding same_cfgs_def by (rule list_all2_trans [of same_cfg same_cfg]) (auto intro: same_cfg_trans)

lemma same_demux_refl [simp]: "same_demux d d"
  by (simp add: same_demux_def)

lemma same_demux_trans: "same_demux a b \<Longrightarrow> same_demux b c \<Longrightarrow> same_demux a c"
  by (auto simp: same_demux_def intro: same_cfgs_trans)

lemma same_demux_tsbuf:
  "length t = length (tsbuf d) \<Longrightarrow> same_demux d (d\<lparr>tsbuf := t\<rparr>)" "same_demux d (d\<lparr>tsbufp := i\<rparr>)"
  "length t = length (tsbuf d) \<Longrightarrow> same_demux d (d\<lparr>tsbuf := t, tsbufp := i\<rparr>)"
  by (simp_all add: same_demux_def)

lemma demux_ok_same:
  assumes "demux_ok d" "same_demux d d'"
  shows "demux_ok d'"
proof -
  have len: "length (dmx_feed d') = length (dmx_feed d)"
    and cfg: "\<And>i. i < length (dmx_feed d) \<Longrightarrow> same_cfg (dmx_feed d ! i) (dmx_feed d' ! i)"
    using assms(2) by (auto simp: same_demux_def same_cfgs_def list_all2_conv_all_nth)
  have "length (secbuf_base f) = DMX_MAX_SECFEED_SIZE" if "f \<in> set (dmx_feed d')" for f
    using that demux_inv_sel(1) [of d] assms(1) len cfg by (auto simp: in_set_conv_nth demux_ok_def same_cfg_def)
  moreover have "feed_ok (dmx_filter d) (dmx_feed d' ! i) i"
    if "i < length (dmx_feed d)" "feed_ok (dmx_filter d) (dmx_feed d ! i) i" for i
    using cfg [OF that(1)] that(2) by (auto simp: same_cfg_def feed_ok_def split: dmx_type.splits)
  ultimately show ?thesis
    using assms len cfg by (auto simp: demux_ok_def demux_inv_def same_demux_def same_cfg_def)
qed

lemma feed_packet_same: "feed_packet env b fds dn d w = Some (d', w') \<Longrightarrow> same_demux d d'"
proof (induction fds arbitrary: dn d w)
  case (Cons fd fds)
  obtain feed where feed: "rd (dmx_feed d) fd = Some feed" using Cons.prems by (cases "rd (dmx_feed d) fd") auto
  consider dn' w1 where "feed_packet env b fds dn' d w1 = Some (d', w')"
    | dn' feed' w1 where "dvb_dmx_swfilter_packet_type env (dmx_filter d) fd feed b w = Some (feed', w1)"
      "feed_packet env b fds dn' (d\<lparr>dmx_feed := (dmx_feed d)[fd := feed']\<rparr>) w1 = Some (d', w')"
    using Cons.prems feed by (auto simp: Let_def bind_eq_Some_conv split: if_splits)
  then show ?case
  proof cases
    case 1
    then show ?thesis using Cons.IH by blast
  next
    case 2
    have "same_demux d (d\<lparr>dmx_feed := (dmx_feed d)[fd := feed']\<rparr>)"
      using packet_type_cfg [OF 2(1)] feed
      by (auto simp: same_demux_def same_cfgs_def list_all2_conv_all_nth nth_list_update rd_def split: if_splits)
    then show ?thesis using Cons.IH [OF 2(2)] same_demux_trans by blast
  qed
qed simp

lemma swfilter_packet_same:
  assumes "dvb_dmx_swfilter_packet env d b w = Some (d', w')"
  shows "same_demux d d'"
proof -
  obtain d1 d2 where "speed_report env d w = Some d1" "continuity_check env d1 b = Some d2"
    and fp: "feed_packet env b (feed_list d2) False d2 w = Some (d', w')"
    using assms by (auto simp: dvb_dmx_swfilter_packet_def bind_eq_Some_conv)
  then have "same_demux d d1" "same_demux d1 d2"
    by (auto simp: speed_report_def continuity_check_def same_demux_def Let_def bind_eq_Some_conv split: if_splits option.splits)
  then show ?thesis using feed_packet_same [OF fp] same_demux_trans by blast
qed

lemma swfilter_packets_same: "swfilter_packets_loop env d b n w = Some (d', w') \<Longrightarrow> same_demux d d'"
proof (induction n arbitrary: d b w)
  case (Suc n)
  obtain pkt d1 w1 where st: "(if pkt ! 0 = 0x47 then dvb_dmx_swfilter_packet env d pkt w else Some (d, w)) = Some (d1, w1)"
    "swfilter_packets_loop env d1 (drop 188 b) n w1 = Some (d', w')"
    using Suc.prems unfolding swfilter_packets_loop.simps bind_eq_Some_conv by (metis case_prod_conv surj_pair)
  have "same_demux d d1" using st(1) swfilter_packet_same by (cases "pkt ! 0 = 0x47") auto
  then show ?case using Suc.IH [OF st(2)] same_demux_trans by blast
qed simp

lemma swfilter_loop_same:
  "swfilter_loop env d b p n ps w = Some (p', d', w') \<Longrightarrow> same_demux d d'"
proof (induction env d b p n ps w rule: swfilter_loop.induct)
  case (1 env d b p n ps w)
  have "swfilter_loop env d b p n ps w = None" if "ps = 0 \<or> find_next_packet b p n ps = None"
    using that by (subst swfilter_loop.simps) auto
  then obtain q where q: "ps \<noteq> 0" "find_next_packet b p n ps = Some q"
    using "1.prems" by (metis not_Some_eq)
  show ?case
  proof (cases "q \<ge> n \<or> n - q < ps")
    case True
    then have "swfilter_loop env d b p n ps w = Some (q, d, w)"
      using q by (subst swfilter_loop.simps) auto
    then show ?thesis using "1.prems" by simp
  next
    case False
    define fixed where "fixed pkt = (if ps = 204 \<and> pkt ! 0 = 0xB8 then do {
         tb \<leftarrow> memwr (tsbuf d) 0 (pkt[0 := 0x47]);
         Some (d\<lparr>tsbuf := tb\<rparr>, pkt[0 := 0x47]) }
       else Some (d, pkt))" for pkt
    have eq: "swfilter_loop env d b p n ps w = memrd b q 188 \<bind> (\<lambda>pkt. fixed pkt \<bind> (\<lambda>(d, pkt).
        dvb_dmx_swfilter_packet env d pkt w \<bind> (\<lambda>(d, w). swfilter_loop env d b (q + ps) n ps w)))"
      using q False by (subst swfilter_loop.simps) (simp add: fixed_def)
    obtain pkt d1 pkt1 d2 w2 where st: "memrd b q 188 = Some pkt" "fixed pkt = Some (d1, pkt1)"
      "dvb_dmx_swfilter_packet env d1 pkt1 w = Some (d2, w2)" "swfilter_loop env d2 b (q + ps) n ps w2 = Some (p', d', w')"
      using "1.prems" [unfolded eq] by (auto simp: bind_eq_Some_conv)
    have "same_demux d2 d'"
      using "1.IH" [OF q(1,2) _ _ st(1) st(2) [unfolded fixed_def] refl st(3) refl st(4)] False by auto
    moreover have "same_demux d d1"
      using st(2) by (auto simp: fixed_def bind_eq_Some_conv same_demux_def dest!: memwr_length split: if_splits)
    ultimately show ?thesis using swfilter_packet_same [OF st(3)] same_demux_trans by blast
  qed
qed

lemma keep_rest_same: "keep_rest d b p n ps = Some d' \<Longrightarrow> same_demux d d'"
proof (cases "n - p = 0")
  case True
  then show "keep_rest d b p n ps = Some d' \<Longrightarrow> same_demux d d'" by (simp add: keep_rest_def)
next
  case False
  assume kr: "keep_rest d b p n ps = Some d'"
  then obtain bs tb where tb: "memwr (tsbuf d) 0 bs = Some tb"
    and d': "d' = d\<lparr>tsbuf := if ps = 204 \<and> tb ! 0 = 0xB8 then tb[0 := 0x47] else tb, tsbufp := n - p\<rparr>"
    using False by (auto simp: keep_rest_def bind_eq_Some_conv Let_def)
  show "same_demux d d'" unfolding d' by (rule same_demux_tsbuf(3)) (simp add: memwr_length [OF tb])
qed

lemma swfilter_rest_same:
  assumes "swfilter_loop env d b p n ps w \<bind> (\<lambda>(p, d, w). keep_rest d b p n ps \<bind> (\<lambda>d. Some (d, w))) = Some (d', w')"
  shows "same_demux d d'"
proof -
  obtain p1 d1 w1 where lp: "swfilter_loop env d b p n ps w = Some (p1, d1, w1)"
    using assms by (cases "swfilter_loop env d b p n ps w") auto
  then have "keep_rest d1 b p1 n ps = Some d'" using assms by (cases "keep_rest d1 b p1 n ps") auto
  then show ?thesis using swfilter_loop_same [OF lp] keep_rest_same same_demux_trans by blast
qed

lemma swfilter_same:
  assumes "dvb_dmx_swfilter_pktsize env d b n ps w = Some (d', w')"
  shows "same_demux d d'"
proof -
  define i where "i = tsbufp d"
  define j where "j = to_u64 (int ps - int i)"
  define tail where "tail p d w = swfilter_loop env d b p n ps w \<bind>
    (\<lambda>(p, d, w). keep_rest d b p n ps \<bind> (\<lambda>d. Some (d, w)))" for p d w
  define pkt where "pkt tb p = (if p ! 0 = 0x47 then dvb_dmx_swfilter_packet env (d\<lparr>tsbuf := tb\<rparr>) p w
    else Some (d\<lparr>tsbuf := tb\<rparr>, w)) \<bind> (\<lambda>(d, w). Some (nat j, d\<lparr>tsbufp := 0\<rparr>, w))" for tb p
  have tail: "tail p d1 w1 = Some (d', w') \<Longrightarrow> same_demux d1 d'" for p d1 w1
    unfolding tail_def by (rule swfilter_rest_same)
  consider (none) "i = 0" | (more) "i \<noteq> 0" "int n < j" | (full) "i \<noteq> 0" "\<not> int n < j" by blast
  then show ?thesis
  proof cases
    case none
    then have "dvb_dmx_swfilter_pktsize env d b n ps w = tail 0 d w"
      by (simp add: dvb_dmx_swfilter_pktsize_def i_def [symmetric] tail_def)
    then show ?thesis using assms tail by simp
  next
    case more
    then have eq: "dvb_dmx_swfilter_pktsize env d b n ps w = memrd b 0 n \<bind> (\<lambda>bs. memwr (tsbuf d) i bs \<bind>
        (\<lambda>tb. Some (d\<lparr>tsbuf := tb, tsbufp := i + n\<rparr>, w)))"
      by (simp add: dvb_dmx_swfilter_pktsize_def i_def [symmetric] j_def [symmetric])
    then show ?thesis using assms unfolding eq by (auto simp: bind_eq_Some_conv same_demux_tsbuf dest!: memwr_length)
  next
    case full
    then have eq: "dvb_dmx_swfilter_pktsize env d b n ps w = (memrd b 0 (nat j) \<bind> (\<lambda>bs. memwr (tsbuf d) i bs \<bind>
        (\<lambda>tb. memrd tb 0 188 \<bind> (\<lambda>p. pkt tb p)))) \<bind> (\<lambda>(p, d, w). tail p d w)"
      by (simp add: dvb_dmx_swfilter_pktsize_def i_def [symmetric] j_def [symmetric] tail_def pkt_def Let_def)
    obtain bs tb p q d1 w1 where st: "memwr (tsbuf d) i bs = Some tb" "pkt tb p = Some (q, d1, w1)"
      "tail q d1 w1 = Some (d', w')"
      using assms unfolding eq by (auto simp: bind_eq_Some_conv)
    have "same_demux d (d\<lparr>tsbuf := tb\<rparr>)" using memwr_length [OF st(1)] by (simp add: same_demux_tsbuf)
    moreover obtain d2 where "same_demux (d\<lparr>tsbuf := tb\<rparr>) d2" "d1 = d2\<lparr>tsbufp := 0\<rparr>"
      using st(2) swfilter_packet_same [of env "d\<lparr>tsbuf := tb\<rparr>" p w]
      same_demux_refl [of "d\<lparr>tsbuf := tb\<rparr>"]
      by (cases "p ! 0 = 0x47") (auto simp: pkt_def bind_eq_Some_conv simp del: same_demux_refl)
    ultimately have "same_demux d d1" using same_demux_tsbuf(2) same_demux_trans by blast
    then show ?thesis using tail [OF st(3)] same_demux_trans by blast
  qed
qed

section \<open>Reachable states\<close>

text \<open>Initialisation establishes the invariant, whatever the allocated memory holds; the sizes are
  those of the arrays in the structures.\<close>

lemma init_ok:
  assumes "dvb_dmx_init (Some flts) (Some feeds) cnt d0 = (r, d)"
    and "\<forall>f\<in>set flts. flt_wf f" "\<forall>f\<in>set feeds. length (secbuf_base f) = DMX_MAX_SECFEED_SIZE"
    and "length (tsbuf d0) = 204" "length (pesfilter d0) = DMX_TS_PES_OTHER" "length (pids d0) = DMX_TS_PES_OTHER"
  shows "demux_ok d"
proof -
  have "d = d0\<lparr>cnt_storage := cnt, users := 0, dmx_filter := map (\<lambda>f. f\<lparr>flt_state := DMX_STATE_FREE\<rparr>) flts,
      dmx_feed := map (\<lambda>f. f\<lparr>fd_state := DMX_STATE_FREE\<rparr>) feeds, frontend_list := [],
      pesfilter := replicate 20 None, pids := replicate 20 0xffff,
      feed_list := [], tsbufp := 0, frontend := None, mutex := False\<rparr>"
    using assms(1,5,6) by (auto simp: dvb_dmx_init_def Let_def)
  then show ?thesis
    using assms(2-4) unfolding demux_ok_def demux_inv_def by (simp add: flt_wf_def)
qed

text \<open>One call of a client, of a driver, or of a client that writes the bytes of its filter.\<close>

inductive demux_step :: "'w dmx_env \<Rightarrow> dvb_demux \<times> 'w \<Rightarrow> dvb_demux \<times> 'w \<Rightarrow> bool" for env where
  alloc_ts: "dvbdmx_allocate_ts_feed intr d = Some (r, fd, d') \<Longrightarrow> demux_step env (d, w) (d', w)"
| set_ts: "\<lbrakk>in_use DMX_TYPE_TS fd d; dmx_ts_feed_set intr fd p tt pt sz d = Some (r, d')\<rbrakk> \<Longrightarrow> demux_step env (d, w) (d', w)"
| start_ts: "\<lbrakk>in_use DMX_TYPE_TS fd d; dmx_ts_feed_start_filtering env intr fd d w = Some (r, d', w')\<rbrakk> \<Longrightarrow>
    demux_step env (d, w) (d', w')"
| stop_ts: "\<lbrakk>in_use DMX_TYPE_TS fd d; dmx_ts_feed_stop_filtering env fd d w = Some (r, d', w')\<rbrakk> \<Longrightarrow>
    demux_step env (d, w) (d', w')"
| release_ts: "\<lbrakk>in_use DMX_TYPE_TS fd d; dvbdmx_release_ts_feed fd d = Some (r, d')\<rbrakk> \<Longrightarrow> demux_step env (d, w) (d', w)"
| alloc_sec: "dvbdmx_allocate_section_feed intr d = Some (r, fd, d') \<Longrightarrow> demux_step env (d, w) (d', w)"
| alloc_filter: "\<lbrakk>in_use DMX_TYPE_SEC fd d; dmx_section_feed_allocate_filter intr fd d = Some (r, fi, d')\<rbrakk> \<Longrightarrow>
    demux_step env (d, w) (d', w)"
| client_filter: "\<lbrakk>fi < length (dmx_filter d); length v = 18; length m = 18; length mo = 18\<rbrakk> \<Longrightarrow>
    demux_step env (d, w) (put_filter d fi ((dmx_filter d ! fi)\<lparr>filter_value := v, filter_mask := m, filter_mode := mo\<rparr>), w)"
| set_sec: "\<lbrakk>in_use DMX_TYPE_SEC fd d; dmx_section_feed_set intr fd p sz crc d = Some (r, d')\<rbrakk> \<Longrightarrow> demux_step env (d, w) (d', w)"
| start_sec: "\<lbrakk>in_use DMX_TYPE_SEC fd d; dmx_section_feed_start_filtering env intr fd d w = Some (r, d', w')\<rbrakk> \<Longrightarrow>
    demux_step env (d, w) (d', w')"
| stop_sec: "\<lbrakk>in_use DMX_TYPE_SEC fd d; dmx_section_feed_stop_filtering env fd d w = Some (r, d', w')\<rbrakk> \<Longrightarrow>
    demux_step env (d, w) (d', w')"
| release_filter: "\<lbrakk>in_use DMX_TYPE_SEC fd d; dmx_section_feed_release_filter env fd fi d w = Some (r, d', w')\<rbrakk> \<Longrightarrow>
    demux_step env (d, w) (d', w')"
| release_sec: "\<lbrakk>in_use DMX_TYPE_SEC fd d; dvbdmx_release_section_feed fd d = Some (r, d')\<rbrakk> \<Longrightarrow> demux_step env (d, w) (d', w)"
| open_dmx: "dvbdmx_open d = (r, d') \<Longrightarrow> demux_step env (d, w) (d', w)"
| close_dmx: "dvbdmx_close d = (r, d') \<Longrightarrow> demux_step env (d, w) (d', w)"
| write_dmx: "dvbdmx_write env mem p intr pend n d w = Some (r, d', w') \<Longrightarrow> demux_step env (d, w) (d', w')"
| add_fe: "dvbdmx_add_frontend fe d = (r, d') \<Longrightarrow> demux_step env (d, w) (d', w)"
| remove_fe: "dvbdmx_remove_frontend fe d = (r, d') \<Longrightarrow> demux_step env (d, w) (d', w)"
| connect_fe: "dvbdmx_connect_frontend fe d = Some (r, d') \<Longrightarrow> demux_step env (d, w) (d', w)"
| disconnect_fe: "dvbdmx_disconnect_frontend d = Some (r, d') \<Longrightarrow> demux_step env (d, w) (d', w)"
| packets: "dvb_dmx_swfilter_packets env d b n w = Some (d', w') \<Longrightarrow> demux_step env (d, w) (d', w')"
| stream: "dvb_dmx_swfilter env d b n w = Some (d', w') \<Longrightarrow> demux_step env (d, w) (d', w')"
| stream_204: "dvb_dmx_swfilter_204 env d b n w = Some (d', w') \<Longrightarrow> demux_step env (d, w) (d', w')"

text \<open>The invariant reads of a filter its owner, its state, its successor and the sizes of its arrays.\<close>

lemma demux_inv_filter_bytes:
  assumes inv: "demux_inv d" and len: "length flts = length (dmx_filter d)"
    and sel: "\<And>i. i < length flts \<Longrightarrow> flt_next (flts ! i) = flt_next (dmx_filter d ! i) \<and>
      flt_feed (flts ! i) = flt_feed (dmx_filter d ! i) \<and> flt_state (flts ! i) = flt_state (dmx_filter d ! i) \<and> flt_wf (flts ! i)"
  shows "demux_inv (d\<lparr>dmx_filter := flts\<rparr>)"
proof (rule demux_inv_filters [OF inv len])
  show "\<forall>f\<in>set flts. flt_wf f" using sel by (metis in_set_conv_nth)
next
  fix fd
  have own: "owns flts fd i" if "owns (dmx_filter d) fd i" for i
    using that sel len by (simp add: owns_def)
  have chain: "flt_chain flts p ch" if "flt_chain (dmx_filter d) p ch" for p ch
    using flt_chain_bounds [OF that] sel len by (intro flt_chain_map [OF that]) auto
  assume "feed_ok (dmx_filter d) (dmx_feed d ! fd) fd"
  then show "feed_ok flts (dmx_feed d ! fd) fd"
    unfolding feed_ok_def using own chain by (cases "fd_type (dmx_feed d ! fd)") (simp_all, blast+)
qed

lemma client_filter_ok:
  assumes "demux_ok d" "fi < length (dmx_filter d)" "length v = 18" "length m = 18" "length mo = 18"
  shows "demux_ok (put_filter d fi ((dmx_filter d ! fi)\<lparr>filter_value := v, filter_mask := m, filter_mode := mo\<rparr>))"
proof -
  have inv: "demux_inv d" using assms(1) by (simp add: demux_ok_def)
  define x where "x = (dmx_filter d ! fi)\<lparr>filter_value := v, filter_mask := m, filter_mode := mo\<rparr>"
  have x: "flt_wf x" "flt_next x = flt_next (dmx_filter d ! fi)" "flt_feed x = flt_feed (dmx_filter d ! fi)"
    "flt_state x = flt_state (dmx_filter d ! fi)"
    using demux_inv_sel(3) [OF inv assms(2)] assms(3-5) by (simp_all add: flt_wf_def x_def)
  have "demux_inv (d\<lparr>dmx_filter := (dmx_filter d)[fi := x]\<rparr>)"
    by (rule demux_inv_filter_bytes [OF inv]) (use x assms(2) demux_inv_sel(3) [OF inv] in \<open>simp_all add: nth_list_update\<close>)
  then show ?thesis using assms(1) unfolding x_def by (simp add: demux_ok_def put_filter_def)
qed

lemma write_ok:
  assumes "demux_ok d" "dvbdmx_write env mem p intr pend n d w = Some (r, d', w')"
  shows "demux_ok d'"
proof -
  have d': "d' = d \<or> (\<exists>d1. same_demux (d\<lparr>mutex := True\<rparr>) d1 \<and> d' = mutex_unlock d1)"
    using assms by (auto simp: dvbdmx_write_def mutex_lock_def bind_eq_Some_conv dvb_dmx_swfilter_def
        dest!: swfilter_same split: if_splits sum.splits)
  have "demux_ok (mutex_unlock d1)" if "same_demux (d\<lparr>mutex := True\<rparr>) d1" for d1
    using that assms(1) by (intro demux_ok_same [OF assms(1)]) (simp add: same_demux_def mutex_unlock_def demux_ok_def)
  then show ?thesis using d' assms(1) by auto
qed

lemmas call_ok = ts_alloc_ok ts_feed_set_ok ts_start_ok ts_stop_ok ts_release_ok section_alloc_ok filter_allocate_ok
  section_set_ok section_start_inv section_stop_ok release_filter_inv section_release_ok client_filter_ok write_ok

lemma demux_step_ok:
  "demux_step env s s' \<Longrightarrow> demux_ok (fst s) \<Longrightarrow> demux_ok (fst s')"
proof (induction rule: demux_step.induct)
  case (open_dmx d r d' w)
  then show ?case by (auto simp: dvbdmx_open_def demux_ok_def demux_inv_def split: if_splits)
next
  case (close_dmx d r d' w)
  then show ?case by (auto simp: dvbdmx_close_def demux_ok_def demux_inv_def split: if_splits)
next
  case (add_fe fe d r d' w)
  then show ?case by (auto simp: dvbdmx_add_frontend_def demux_ok_def demux_inv_def)
next
  case (remove_fe fe d r d' w)
  then show ?case by (auto simp: dvbdmx_remove_frontend_def demux_ok_def demux_inv_def split: if_splits)
next
  case (connect_fe fe d r d' w)
  then show ?case by (auto simp: dvbdmx_connect_frontend_def mutex_lock_def mutex_unlock_def demux_ok_def demux_inv_def split: if_splits)
next
  case (disconnect_fe d r d' w)
  then show ?case by (auto simp: dvbdmx_disconnect_frontend_def mutex_lock_def mutex_unlock_def demux_ok_def demux_inv_def split: if_splits)
next
  case (packets d b n w d' w')
  then show ?case by (auto simp: dvb_dmx_swfilter_packets_def intro: demux_ok_same dest!: swfilter_packets_same)
next
  case (stream d b n w d' w')
  then show ?case by (auto simp: dvb_dmx_swfilter_def intro: demux_ok_same dest!: swfilter_same)
next
  case (stream_204 d b n w d' w')
  then show ?case by (auto simp: dvb_dmx_swfilter_204_def intro: demux_ok_same dest!: swfilter_same)
qed (auto intro: call_ok)

text \<open>C3. The invariant holds in every state the demux can reach: from an initialised demux, whatever calls
  clients and drivers make, the mutex is free between calls, the filters of every section feed in use
  form a list that ends and is shared with no other feed, the feed list has each feed once and none that is
  free, and the number of users stays between 0 and 10.\<close>

theorem demux_reachable_ok:
  assumes "dvb_dmx_init (Some flts) (Some feeds) cnt d0 = (r, d)"
    and "\<forall>f\<in>set flts. flt_wf f" and "\<forall>f\<in>set feeds. length (secbuf_base f) = DMX_MAX_SECFEED_SIZE"
    and "length (tsbuf d0) = 204" and "length (pesfilter d0) = DMX_TS_PES_OTHER" and "length (pids d0) = DMX_TS_PES_OTHER"
    and "(demux_step env)\<^sup>*\<^sup>* (d, w) (d', w')"
  shows "demux_ok d'"
proof -
  have "demux_ok (fst (d', w'))"
    using assms(7) init_ok [OF assms(1-6)]
    by (induction "(d', w')" arbitrary: d' w' rule: rtranclp_induct) (auto dest: demux_step_ok)
  then show ?thesis by simp
qed

definition fresh_demux :: dvb_demux where
  "fresh_demux = snd (dvb_dmx_init (Some [all_filter]) (Some [blank_feed\<lparr>secbuf_base := replicate DMX_MAX_SECFEED_SIZE 0\<rparr>])
     None (blank_demux\<lparr>tsbuf := replicate 204 0, pesfilter := replicate DMX_TS_PES_OTHER None, pids := replicate DMX_TS_PES_OTHER 0\<rparr>))"

lemma fresh_section_feed:
  "\<exists>d. dvbdmx_allocate_section_feed False fresh_demux = Some (0, Some 0, d) \<and> fd_type (dmx_feed d ! 0) = DMX_TYPE_SEC"
  by (simp add: fresh_demux_def dvb_dmx_init_def dvbdmx_allocate_section_feed_def dvb_dmx_feed_alloc_def
      mutex_lock_def mutex_unlock_def put_feed_def blank_demux_def blank_feed_def)

theorem demux_reachable_ok_witness:
  "\<exists>d. (demux_step log_env)\<^sup>*\<^sup>* (fresh_demux, []) (d, []) \<and> fd_type (dmx_feed d ! 0) = DMX_TYPE_SEC \<and> demux_ok d"
proof -
  obtain d where d: "dvbdmx_allocate_section_feed False fresh_demux = Some (0, Some 0, d)"
    "fd_type (dmx_feed d ! 0) = DMX_TYPE_SEC"
    using fresh_section_feed by blast
  then have steps: "(demux_step log_env)\<^sup>*\<^sup>* (fresh_demux, []) (d, [])"
    by (blast intro: demux_step.alloc_sec)
  have "demux_ok d"
    by (rule demux_reachable_ok [OF _ _ _ _ _ _ steps, of "[all_filter]" "[blank_feed\<lparr>secbuf_base := replicate DMX_MAX_SECFEED_SIZE 0\<rparr>]"
          None "blank_demux\<lparr>tsbuf := replicate 204 0, pesfilter := replicate DMX_TS_PES_OTHER None, pids := replicate DMX_TS_PES_OTHER 0\<rparr>" 0])
      (simp_all add: fresh_demux_def dvb_dmx_init_def all_filter_wf)
  then show ?thesis using steps d(2) by blast
qed

end
