(* ===== verification/Dvb_Math.thy ===== *)
theory Dvb_Math
  imports Dvb_Prelude Complex_Main "HOL-Library.Log_Nat"
begin

text \<open>
  \<open>dvb_math.c\<close>: the fixed-point logarithms \<open>intlog2\<close> and \<open>intlog10\<close> that the frontends use for
  signal levels. The model computes on 32 and 64-bit words as the code does. The theorems
  relate the results to the real logarithm, show the scaling law the header file promises, and that
  both functions are monotone.
\<close>

section \<open>The functions\<close>

definition logtable :: "u16 list" where
  "logtable =
     [0x0000, 0x0171, 0x02e0, 0x044e, 0x05ba, 0x0725, 0x088e, 0x09f7, 0x0b5d, 0x0cc3, 0x0e27, 0x0f8a,
      0x10eb, 0x124b, 0x13aa, 0x1508, 0x1664, 0x17bf, 0x1919, 0x1a71, 0x1bc8, 0x1d1e, 0x1e73, 0x1fc6,
      0x2119, 0x226a, 0x23ba, 0x2508, 0x2656, 0x27a2, 0x28ed, 0x2a37, 0x2b80, 0x2cc8, 0x2e0f, 0x2f54,
      0x3098, 0x31dc, 0x331e, 0x345f, 0x359f, 0x36de, 0x381b, 0x3958, 0x3a94, 0x3bce, 0x3d08, 0x3e41,
      0x3f78, 0x40af, 0x41e4, 0x4319, 0x444c, 0x457f, 0x46b0, 0x47e1, 0x4910, 0x4a3f, 0x4b6c, 0x4c99,
      0x4dc5, 0x4eef, 0x5019, 0x5142, 0x526a, 0x5391, 0x54b7, 0x55dc, 0x5700, 0x5824, 0x5946, 0x5a68,
      0x5b89, 0x5ca8, 0x5dc7, 0x5ee5, 0x6003, 0x611f, 0x623a, 0x6355, 0x646f, 0x6588, 0x66a0, 0x67b7,
      0x68ce, 0x69e4, 0x6af8, 0x6c0c, 0x6d20, 0x6e32, 0x6f44, 0x7055, 0x7165, 0x7274, 0x7383, 0x7490,
      0x759d, 0x76aa, 0x77b5, 0x78c0, 0x79ca, 0x7ad3, 0x7bdb, 0x7ce3, 0x7dea, 0x7ef0, 0x7ff6, 0x80fb,
      0x81ff, 0x8302, 0x8405, 0x8507, 0x8608, 0x8709, 0x8809, 0x8908, 0x8a06, 0x8b04, 0x8c01, 0x8cfe,
      0x8dfa, 0x8ef5, 0x8fef, 0x90e9, 0x91e2, 0x92db, 0x93d2, 0x94ca, 0x95c0, 0x96b6, 0x97ab, 0x98a0,
      0x9994, 0x9a87, 0x9b7a, 0x9c6c, 0x9d5e, 0x9e4f, 0x9f3f, 0xa02e, 0xa11e, 0xa20c, 0xa2fa, 0xa3e7,
      0xa4d4, 0xa5c0, 0xa6ab, 0xa796, 0xa881, 0xa96a, 0xaa53, 0xab3c, 0xac24, 0xad0c, 0xadf2, 0xaed9,
      0xafbe, 0xb0a4, 0xb188, 0xb26c, 0xb350, 0xb433, 0xb515, 0xb5f7, 0xb6d9, 0xb7ba, 0xb89a, 0xb97a,
      0xba59, 0xbb38, 0xbc16, 0xbcf4, 0xbdd1, 0xbead, 0xbf8a, 0xc065, 0xc140, 0xc21b, 0xc2f5, 0xc3cf,
      0xc4a8, 0xc580, 0xc658, 0xc730, 0xc807, 0xc8de, 0xc9b4, 0xca8a, 0xcb5f, 0xcc34, 0xcd08, 0xcddc,
      0xceaf, 0xcf82, 0xd054, 0xd126, 0xd1f7, 0xd2c8, 0xd399, 0xd469, 0xd538, 0xd607, 0xd6d6, 0xd7a4,
      0xd872, 0xd93f, 0xda0c, 0xdad9, 0xdba5, 0xdc70, 0xdd3b, 0xde06, 0xded0, 0xdf9a, 0xe063, 0xe12c,
      0xe1f5, 0xe2bd, 0xe385, 0xe44c, 0xe513, 0xe5d9, 0xe69f, 0xe765, 0xe82a, 0xe8ef, 0xe9b3, 0xea77,
      0xeb3b, 0xebfe, 0xecc1, 0xed83, 0xee45, 0xef06, 0xefc8, 0xf088, 0xf149, 0xf209, 0xf2c8, 0xf387,
      0xf446, 0xf505, 0xf5c3, 0xf680, 0xf73e, 0xf7fb, 0xf8b7, 0xf973, 0xfa2f, 0xfaea, 0xfba5, 0xfc60,
      0xfd1a, 0xfdd4, 0xfe8e, 0xff47]"

text \<open>\<open>fls\<close>: the position of the highest bit that is set, counted from 1, and 0 for 0.\<close>

definition fls :: "u32 \<Rightarrow> nat" where
  "fls x = floorlog 2 (unat x)"

definition log_at :: "u32 \<Rightarrow> u32" where
  "log_at i = ucast (logtable ! unat i)"

definition intlog2 :: "u32 \<Rightarrow> u32" where
  "intlog2 v =
     (if v = 0 then 0
      else let msb = fls v - 1;
               significand = push_bit (31 - msb) v;
               logentry = drop_bit 23 significand AND 0xff;
               interpolation = drop_bit 15 ((significand AND 0x7fffff) *
                 ((log_at ((logentry + 1) AND 0xff) - log_at logentry) AND 0xffff))
           in push_bit 24 (of_nat msb) + push_bit 8 (log_at logentry) + interpolation)"

definition intlog10 :: "u32 \<Rightarrow> u32" where
  "intlog10 v =
     (if v = 0 then 0
      else let log = ucast (intlog2 v) :: u64 in ucast (drop_bit 31 (log * 646456993)))"

section \<open>The computation on natural numbers\<close>

text \<open>The table with the entry the wrap-around of the index stands for.\<close>

definition tbl :: "nat \<Rightarrow> nat" where
  "tbl i = (if i = 256 then 65536 else unat (logtable ! i))"

text \<open>Linear interpolation in the table at a significand between \<open>2 ^ 31\<close> and \<open>2 ^ 32\<close>.\<close>

definition interp :: "nat \<Rightarrow> nat" where
  "interp s = (let e = s div 2 ^ 23 - 256; r = s mod 2 ^ 23 in
     256 * tbl e + r * (tbl (e + 1) - tbl e) div 2 ^ 15)"

lemma length_logtable [simp]: "length logtable = 256"
  by (simp add: logtable_def)

text \<open>Both bounds on the steps of the table, and later its accuracy, are checked along the list.\<close>

fun steps_within :: "nat \<Rightarrow> nat list \<Rightarrow> bool" where
  "steps_within m (a # b # xs) \<longleftrightarrow> a < b \<and> b \<le> a + m \<and> steps_within m (b # xs)"
| "steps_within m _ \<longleftrightarrow> True"

definition table :: "nat list" where
  "table = map unat logtable @ [65536]"

lemma tbl_nth: "i \<le> 256 \<Longrightarrow> tbl i = table ! i"
  by (auto simp: tbl_def table_def nth_append)

lemma steps_within_nth:
  "steps_within m xs \<Longrightarrow> Suc i < length xs \<Longrightarrow> xs ! i < xs ! Suc i \<and> xs ! Suc i \<le> xs ! i + m"
proof (induction m xs arbitrary: i rule: steps_within.induct)
  case (1 m a b xs)
  then show ?case by (cases i) auto
qed simp_all

lemma table_steps: "steps_within 369 table"
  by (simp add: table_def logtable_def)

lemma tbl_steps: "e < 256 \<Longrightarrow> tbl e < tbl (e + 1) \<and> tbl (e + 1) \<le> tbl e + 369"
  using steps_within_nth [OF table_steps, of e] by (simp add: tbl_nth table_def)

lemma unat_bound: "unat (x :: 'a :: len word) < 2 ^ LENGTH('a)"
  by (rule order_less_le_trans [OF unsigned_less]) simp

lemma unat_and_masks:
  fixes x :: u32
  shows "unat (x AND 0xff) = unat x mod 2 ^ 8" "unat (x AND 0xffff) = unat x mod 2 ^ 16"
    "unat (x AND 0x7fffff) = unat x mod 2 ^ 23"
proof -
  have m: "(0xff :: u32) = mask 8" "(0xffff :: u32) = mask 16" "(0x7fffff :: u32) = mask 23"
    by (simp_all add: mask_eq_exp_minus_1)
  show "unat (x AND 0xff) = unat x mod 2 ^ 8" "unat (x AND 0xffff) = unat x mod 2 ^ 16"
    "unat (x AND 0x7fffff) = unat x mod 2 ^ 23"
    unfolding m take_bit_eq_mask [symmetric] unsigned_take_bit_eq by (simp_all add: take_bit_eq_mod)
qed

lemma unat_shifts:
  fixes x :: u32
  shows "unat (drop_bit n x) = unat x div 2 ^ n"
    and "unat x * 2 ^ n < 2 ^ 32 \<Longrightarrow> unat (push_bit n x) = unat x * 2 ^ n"
  unfolding unsigned_drop_bit_eq unsigned_push_bit_eq using unat_bound [of x]
  by (simp_all add: drop_bit_eq_div push_bit_eq_mult take_bit_eq_mod)

definition msb_of :: "u32 \<Rightarrow> nat" where
  "msb_of v = fls v - 1"

definition significand_of :: "u32 \<Rightarrow> nat" where
  "significand_of v = unat v * 2 ^ (31 - msb_of v)"

lemma msb_of_bounds:
  assumes "v \<noteq> 0"
  shows "2 ^ msb_of v \<le> unat v" "unat v < 2 ^ (msb_of v + 1)" "msb_of v \<le> 31"
proof -
  have pos: "0 < unat v" using assms by (simp add: unat_gt_0)
  then have f: "floorlog 2 (unat v) > 0" using floorlog_eq_zero_iff [of 2 "unat v"] by linarith
  have b: "2 ^ (floorlog 2 (unat v) - 1) \<le> unat v \<and> unat v < 2 ^ floorlog 2 (unat v)"
    using floorlog_bounds [of "unat v" 2] pos by simp
  then show b1: "2 ^ msb_of v \<le> unat v" and "unat v < 2 ^ (msb_of v + 1)"
    using f by (simp_all add: msb_of_def fls_def)
  have "unat v < 2 ^ 32" using unat_bound [of v] by simp
  then have "(2 :: nat) ^ msb_of v < 2 ^ 32" using b1 by linarith
  then show "msb_of v \<le> 31" using power_less_imp_less_exp [of "2 :: nat" "msb_of v" 32] by simp
qed

lemma significand_bounds:
  assumes "v \<noteq> 0"
  shows "2 ^ 31 \<le> significand_of v" "significand_of v < 2 ^ 32"
proof -
  have e: "(2 :: nat) ^ 31 = 2 ^ msb_of v * 2 ^ (31 - msb_of v)"
    "(2 :: nat) ^ 32 = 2 ^ (msb_of v + 1) * 2 ^ (31 - msb_of v)"
    using msb_of_bounds(3) [OF assms] by (simp_all flip: power_add)
  show "2 ^ 31 \<le> significand_of v" "significand_of v < 2 ^ 32"
    unfolding e significand_of_def using msb_of_bounds(1,2) [OF assms] by simp_all
qed

lemma unat_log_at: "e < 256 \<Longrightarrow> unat x = e \<Longrightarrow> unat (log_at x) = tbl e"
  unfolding log_at_def tbl_def unsigned_ucast_eq using unat_bound [of "logtable ! e"] by (simp add: take_bit_eq_mod)

lemma tbl_less: "e < 256 \<Longrightarrow> tbl e < 2 ^ 16"
  using unat_bound [of "logtable ! e"] by (simp add: tbl_def)

lemma unat_log_diff:
  assumes "k < 256" "unat a = k" "unat b = (k + 1) mod 256"
  shows "unat ((log_at b - log_at a) AND 0xffff) = tbl (k + 1) - tbl k"
proof -
  have b: "unat (log_at b) = tbl ((k + 1) mod 256)" by (rule unat_log_at) (use assms in simp_all)
  have a: "unat (log_at a) = tbl k" by (rule unat_log_at) (use assms in simp_all)
  show ?thesis
  proof (cases "k = 255")
    case True
    then show ?thesis using a b unfolding unat_and_masks unat_sub_if_size
      by (simp add: tbl_def logtable_def word_size)
  next
    case False
    then have "unat (log_at b - log_at a) = tbl (k + 1) - tbl k"
      using a b assms(1) tbl_steps [of k] by (simp add: unat_sub word_le_nat_alt)
    then show ?thesis using tbl_less [of "k + 1"] False assms(1) unfolding unat_and_masks by simp
  qed
qed

text \<open>The words never overflow: the code computes the interpolation on natural numbers.\<close>

lemma unat_intlog2:
  assumes "v \<noteq> 0"
  shows "unat (intlog2 v) = msb_of v * 2 ^ 24 + interp (significand_of v)"
proof -
  define m where "m = msb_of v"
  define s where "s = push_bit (31 - m) v"
  define e where "e = drop_bit 23 s AND 0xff"
  define k where "k = unat s div 2 ^ 23 - 256"
  define D where "D = (log_at ((e + 1) AND 0xff) - log_at e) AND 0xffff"
  note sb = significand_bounds [OF assms, unfolded significand_of_def, folded m_def]
  have us: "unat s = unat v * 2 ^ (31 - m)" using sb unfolding s_def by (intro unat_shifts(2))
  have k: "unat s div 2 ^ 23 = k + 256" "k < 256" using sb unfolding us [symmetric] k_def by auto
  have ue: "unat e = k" unfolding e_def unat_and_masks unat_shifts k(1) using k(2) by simp
  have ue1: "unat ((e + 1) AND 0xff) = (k + 1) mod 256"
    unfolding unat_and_masks unat_word_ariths ue using k(2) by simp
  have uD: "unat D = tbl (k + 1) - tbl k"
    unfolding D_def using k(2) ue ue1 by (rule unat_log_diff)
  have prod: "unat s mod 2 ^ 23 * (tbl (k + 1) - tbl k) \<le> 2 ^ 23 * 369"
    using tbl_steps [OF k(2)] by (intro mult_le_mono) (simp_all add: le_diff_conv mod_le_divisor)
  have uP: "unat ((s AND 0x7fffff) * D) = unat s mod 2 ^ 23 * (tbl (k + 1) - tbl k)"
    unfolding unat_word_ariths unat_and_masks uD using prod by (intro mod_less) simp
  have "unat (intlog2 v) = unat (push_bit 24 (of_nat m) + push_bit 8 (log_at e) + drop_bit 15 ((s AND 0x7fffff) * D))"
    using assms by (simp add: intlog2_def Let_def m_def msb_of_def s_def e_def D_def)
  also have "\<dots> = m * 2 ^ 24 + 256 * tbl k + unat s mod 2 ^ 23 * (tbl (k + 1) - tbl k) div 2 ^ 15"
  proof -
    have "unat (of_nat m :: u32) = m" using msb_of_bounds(3) [OF assms] by (simp add: m_def unat_of_nat)
    then have "unat (push_bit 24 (of_nat m) :: u32) = m * 2 ^ 24" "m \<le> 31"
      using msb_of_bounds(3) [OF assms] unat_shifts(2) [of "of_nat m" 24] by (simp_all add: m_def)
    moreover have "unat (push_bit 8 (log_at e)) = 256 * tbl k" "tbl k < 2 ^ 16"
      using unat_log_at [OF k(2) ue] tbl_less [OF k(2)] unat_shifts(2) [of "log_at e" 8] by simp_all
    moreover have "unat (drop_bit 15 ((s AND 0x7fffff) * D)) = unat s mod 2 ^ 23 * (tbl (k + 1) - tbl k) div 2 ^ 15"
      unfolding unat_shifts uP ..
    moreover have "unat s mod 2 ^ 23 * (tbl (k + 1) - tbl k) div 2 ^ 15 \<le> 2 ^ 23 * 369 div 2 ^ 15"
      using prod by (rule div_le_mono)
    ultimately show ?thesis unfolding unat_word_ariths by simp
  qed
  also have "\<dots> = m * 2 ^ 24 + interp (unat s)"
    using k by (simp add: interp_def Let_def)
  finally show ?thesis by (simp add: us m_def significand_of_def)
qed

section \<open>Monotonicity and scaling\<close>

lemma interp_bounds:
  assumes "2 ^ 31 \<le> s" "s < 2 ^ 32"
  shows "256 * tbl (s div 2 ^ 23 - 256) \<le> interp s" "interp s < 256 * tbl (s div 2 ^ 23 - 256 + 1)"
proof -
  define e where "e = s div 2 ^ 23 - 256"
  have e: "e < 256" using assms by (simp add: e_def)
  have st: "tbl e < tbl (e + 1)" using tbl_steps [OF e] by simp
  have "s mod 2 ^ 23 * (tbl (e + 1) - tbl e) < 2 ^ 23 * (tbl (e + 1) - tbl e)" using st by simp
  then have "s mod 2 ^ 23 * (tbl (e + 1) - tbl e) div 2 ^ 15 < 256 * (tbl (e + 1) - tbl e)"
    by (simp add: div_less_iff_less_mult)
  then show "256 * tbl (s div 2 ^ 23 - 256) \<le> interp s" "interp s < 256 * tbl (s div 2 ^ 23 - 256 + 1)"
    using st unfolding interp_def Let_def e_def [symmetric] by auto
qed

lemma tbl_mono: "i \<le> j \<Longrightarrow> j \<le> 256 \<Longrightarrow> tbl i \<le> tbl j"
proof (induction j rule: dec_induct)
  case (step n)
  then show ?case using tbl_steps [of n] by simp
qed simp

lemma interp_mono:
  assumes "2 ^ 31 \<le> s" "s \<le> t" "t < 2 ^ 32"
  shows "interp s \<le> interp t"
proof (cases "s div 2 ^ 23 = t div 2 ^ 23")
  case True
  then have "s mod 2 ^ 23 \<le> t mod 2 ^ 23"
    using assms(2) by (simp add: diff_le_mono flip: minus_div_mult_eq_mod)
  then show ?thesis using True by (simp add: interp_def Let_def div_le_mono)
next
  case False
  then have lt: "s div 2 ^ 23 - 256 + 1 \<le> t div 2 ^ 23 - 256"
    using div_le_mono [OF assms(2), of "2 ^ 23"] div_le_mono [OF assms(1), of "2 ^ 23"] by simp
  have "interp s \<le> 256 * tbl (s div 2 ^ 23 - 256 + 1)" using interp_bounds [of s] assms by simp
  also have "\<dots> \<le> 256 * tbl (t div 2 ^ 23 - 256)" using lt assms by (simp add: tbl_mono)
  also have "\<dots> \<le> interp t" using interp_bounds [of t] assms by simp
  finally show ?thesis .
qed

lemma interp_less: "2 ^ 31 \<le> s \<Longrightarrow> s < 2 ^ 32 \<Longrightarrow> interp s < 2 ^ 24"
proof -
  assume s: "2 ^ 31 \<le> s" "s < 2 ^ 32"
  then have "tbl (s div 2 ^ 23 - 256 + 1) \<le> tbl 256" by (intro tbl_mono) auto
  then show "interp s < 2 ^ 24" using interp_bounds(2) [OF s] by (simp add: tbl_def [of 256])
qed

section \<open>Accuracy\<close>

lemma ln_one_plus_bounds:
  assumes "0 \<le> (y :: real)"
  shows "y - y\<^sup>2 / 2 \<le> ln (1 + y)" "ln (1 + y) \<le> y - y\<^sup>2 / 2 + y ^ 3 / 3"
proof -
  have "(\<lambda>x. ln (1 + x) - (x - x\<^sup>2 / 2)) 0 \<le> (\<lambda>x. ln (1 + x) - (x - x\<^sup>2 / 2)) y"
  proof (rule DERIV_nonneg_imp_nondecreasing [OF assms])
    fix x :: real assume x: "0 \<le> x" "x \<le> y"
    have "((\<lambda>x. ln (1 + x) - (x - x\<^sup>2 / 2)) has_real_derivative (1 / (1 + x) - (1 - x))) (at x)"
      using x by (auto intro!: derivative_eq_intros)
    moreover have "1 / (1 + x) - (1 - x) = x\<^sup>2 / (1 + x)" using x by (simp add: field_simps power2_eq_square)
    ultimately show "\<exists>d. ((\<lambda>x. ln (1 + x) - (x - x\<^sup>2 / 2)) has_real_derivative d) (at x) \<and> 0 \<le> d"
      using x by (auto intro!: exI)
  qed
  then show "y - y\<^sup>2 / 2 \<le> ln (1 + y)" by simp
  have "(\<lambda>x. x - x\<^sup>2 / 2 + x ^ 3 / 3 - ln (1 + x)) 0 \<le> (\<lambda>x. x - x\<^sup>2 / 2 + x ^ 3 / 3 - ln (1 + x)) y"
  proof (rule DERIV_nonneg_imp_nondecreasing [OF assms])
    fix x :: real assume x: "0 \<le> x" "x \<le> y"
    have "((\<lambda>x. x - x\<^sup>2 / 2 + x ^ 3 / 3 - ln (1 + x)) has_real_derivative (1 - x + x\<^sup>2 - 1 / (1 + x))) (at x)"
      using x by (auto intro!: derivative_eq_intros simp: power2_eq_square)
    moreover have "1 - x + x\<^sup>2 - 1 / (1 + x) = x ^ 3 / (1 + x)" using x by (simp add: field_simps power2_eq_square power3_eq_cube)
    ultimately show "\<exists>d. ((\<lambda>x. x - x\<^sup>2 / 2 + x ^ 3 / 3 - ln (1 + x)) has_real_derivative d) (at x) \<and> 0 \<le> d"
      using x by (auto intro!: exI)
  qed
  then show "ln (1 + y) \<le> y - y\<^sup>2 / 2 + y ^ 3 / 3" by simp
qed


text \<open>The logarithms of \<open>n / 256\<close>, scaled by \<open>2 ^ 32\<close>, lie between two sums of integers.\<close>

definition ln_low :: "int \<Rightarrow> int" where
  "ln_low n = 2 ^ 32 * (2 * n - 1) div (2 * n\<^sup>2)"

definition ln_high :: "int \<Rightarrow> int" where
  "ln_high n = 2 ^ 32 * (6 * n\<^sup>2 - 3 * n + 2) div (6 * n ^ 3) + 1"

lemma ln_low_high:
  assumes "0 < n"
  shows "real_of_int (ln_low n) \<le> 2 ^ 32 * ln (1 + 1 / n)" "2 ^ 32 * ln (1 + 1 / n) \<le> real_of_int (ln_high n)"
proof -
  have "real_of_int (ln_low n) \<le> 2 ^ 32 * (2 * n - 1) / (2 * n\<^sup>2)"
    using real_of_int_div4 [of "2 ^ 32 * (2 * n - 1)" "2 * n\<^sup>2"] by (simp add: ln_low_def)
  also have "\<dots> = 2 ^ 32 * (1 / n - (1 / n)\<^sup>2 / 2)"
    using assms by (simp add: field_simps power2_eq_square)
  also have "\<dots> \<le> 2 ^ 32 * ln (1 + 1 / n)" using assms by (intro mult_left_mono ln_one_plus_bounds) simp_all
  finally show "real_of_int (ln_low n) \<le> 2 ^ 32 * ln (1 + 1 / n)" .
  have "2 ^ 32 * ln (1 + 1 / n) \<le> 2 ^ 32 * (1 / n - (1 / n)\<^sup>2 / 2 + (1 / n) ^ 3 / 3)"
    using assms by (intro mult_left_mono ln_one_plus_bounds) simp_all
  also have "\<dots> = 2 ^ 32 * (6 * n\<^sup>2 - 3 * n + 2) / (6 * n ^ 3)"
    using assms by (simp add: field_simps power2_eq_square power3_eq_cube)
  also have "\<dots> \<le> real_of_int (ln_high n)"
    using real_of_int_div3 [of "2 ^ 32 * (6 * n\<^sup>2 - 3 * n + 2)" "6 * n ^ 3"] by (simp add: ln_high_def)
  finally show "2 ^ 32 * ln (1 + 1 / n) \<le> real_of_int (ln_high n)" .
qed

text \<open>Along the table each entry is within 11/16 of \<open>65536\<close> times the binary logarithm.\<close>

fun accurate :: "int \<Rightarrow> int \<Rightarrow> int \<Rightarrow> int \<Rightarrow> int \<Rightarrow> int list \<Rightarrow> bool" where
  "accurate H L n lo hi [] \<longleftrightarrow> True"
| "accurate H L n lo hi (t # ts) \<longleftrightarrow>
     (16 * t - 11) * H \<le> 2 ^ 20 * lo \<and> 2 ^ 20 * hi \<le> (16 * t + 11) * L
     \<and> (ts = [] \<longrightarrow> L \<le> lo \<and> hi \<le> H)
     \<and> accurate H L (n + 1) (lo + ln_low n) (hi + ln_high n) ts"

definition table_z :: "int list" where
  "table_z = [0, 369, 736, 1102, 1466, 1829, 2190, 2551, 2909, 3267, 3623, 3978, 4331, 4683, 5034, 5384, 5732,
     6079, 6425, 6769, 7112, 7454, 7795, 8134, 8473, 8810, 9146, 9480, 9814, 10146, 10477, 10807, 11136,
     11464, 11791, 12116, 12440, 12764, 13086, 13407, 13727, 14046, 14363, 14680, 14996, 15310, 15624,
     15937, 16248, 16559, 16868, 17177, 17484, 17791, 18096, 18401, 18704, 19007, 19308, 19609, 19909,
     20207, 20505, 20802, 21098, 21393, 21687, 21980, 22272, 22564, 22854, 23144, 23433, 23720, 24007,
     24293, 24579, 24863, 25146, 25429, 25711, 25992, 26272, 26551, 26830, 27108, 27384, 27660, 27936,
     28210, 28484, 28757, 29029, 29300, 29571, 29840, 30109, 30378, 30645, 30912, 31178, 31443, 31707,
     31971, 32234, 32496, 32758, 33019, 33279, 33538, 33797, 34055, 34312, 34569, 34825, 35080, 35334,
     35588, 35841, 36094, 36346, 36597, 36847, 37097, 37346, 37595, 37842, 38090, 38336, 38582, 38827,
     39072, 39316, 39559, 39802, 40044, 40286, 40527, 40767, 41006, 41246, 41484, 41722, 41959, 42196,
     42432, 42667, 42902, 43137, 43370, 43603, 43836, 44068, 44300, 44530, 44761, 44990, 45220, 45448,
     45676, 45904, 46131, 46357, 46583, 46809, 47034, 47258, 47482, 47705, 47928, 48150, 48372, 48593,
     48813, 49034, 49253, 49472, 49691, 49909, 50127, 50344, 50560, 50776, 50992, 51207, 51422, 51636,
     51850, 52063, 52276, 52488, 52700, 52911, 53122, 53332, 53542, 53751, 53960, 54169, 54377, 54584,
     54791, 54998, 55204, 55410, 55615, 55820, 56025, 56229, 56432, 56635, 56838, 57040, 57242, 57443,
     57644, 57845, 58045, 58245, 58444, 58643, 58841, 59039, 59237, 59434, 59631, 59827, 60023, 60219,
     60414, 60609, 60803, 60997, 61190, 61384, 61576, 61769, 61961, 62152, 62343, 62534, 62725, 62915,
     63104, 63294, 63483, 63671, 63859, 64047, 64234, 64421, 64608, 64794, 64980, 65166, 65351, 65536]"

lemma table_z: "map int (map unat logtable @ [65536]) = table_z"
  by (simp add: logtable_def table_z_def)


lemma table_accurate: "accurate 2977044610 2977036143 256 0 0 table_z"
  by code_simp

lemma accurate_nth:
  assumes "accurate H L n lo hi ts" "0 < n" "j < length ts"
    and "real_of_int lo \<le> 2 ^ 32 * ln (n / 256)" "2 ^ 32 * ln (n / 256) \<le> real_of_int hi"
  shows "\<exists>lo hi. real_of_int lo \<le> 2 ^ 32 * ln ((n + int j) / 256) \<and> 2 ^ 32 * ln ((n + int j) / 256) \<le> real_of_int hi
    \<and> (16 * ts ! j - 11) * H \<le> 2 ^ 20 * lo \<and> 2 ^ 20 * hi \<le> (16 * ts ! j + 11) * L
    \<and> (Suc j = length ts \<longrightarrow> L \<le> lo \<and> hi \<le> H)"
  using assms
proof (induction H L n lo hi ts arbitrary: j rule: accurate.induct)
  case (2 H L n lo hi t ts)
  show ?case
  proof (cases j)
    case 0
    then show ?thesis using "2.prems" by auto
  next
    case (Suc i)
    have "real_of_int (n + 1) / 256 = n / 256 * (1 + 1 / n)" using "2.prems"(2) by (simp add: field_simps)
    moreover have "ln (n / 256 * (1 + 1 / n)) = ln (n / 256) + ln (1 + 1 / n)"
      using "2.prems"(2) by (intro ln_mult_pos) (simp_all add: add_pos_pos)
    ultimately have "real_of_int (lo + ln_low n) \<le> 2 ^ 32 * ln (real_of_int (n + 1) / 256)"
      "2 ^ 32 * ln (real_of_int (n + 1) / 256) \<le> real_of_int (hi + ln_high n)"
      using ln_low_high [OF "2.prems"(2)] "2.prems"(4,5) by (simp_all add: algebra_simps)
    then show ?thesis using "2.IH" [of i] "2.prems" Suc by (simp add: algebra_simps)
  qed
qed simp

lemma table_z_length: "length table_z = 257"
  by (simp flip: table_z add: logtable_def)

lemma log_table_bounds:
  assumes "i \<le> 256"
  defines "T \<equiv> real_of_int (table_z ! i)" and "l \<equiv> 2 ^ 32 * ln ((256 + real i) / 256)"
  shows "(16 * T - 11) * 2977044610 \<le> 2 ^ 20 * l" "2 ^ 20 * l \<le> (16 * T + 11) * 2977036143"
    "i = 256 \<Longrightarrow> 2977036143 \<le> l \<and> l \<le> 2977044610"
proof -
  obtain lo hi where b: "real_of_int lo \<le> l" "l \<le> real_of_int hi"
    and t: "(16 * table_z ! i - 11) * 2977044610 \<le> 2 ^ 20 * lo" "2 ^ 20 * hi \<le> (16 * table_z ! i + 11) * 2977036143"
    and e: "i = 256 \<longrightarrow> 2977036143 \<le> lo \<and> hi \<le> 2977044610"
    using accurate_nth [OF table_accurate, of i] assms(1) unfolding l_def by (auto simp: table_z_length)
  have "real_of_int ((16 * table_z ! i - 11) * 2977044610) \<le> real_of_int (2 ^ 20 * lo)"
    "real_of_int (2 ^ 20 * hi) \<le> real_of_int ((16 * table_z ! i + 11) * 2977036143)"
    using t by (simp_all only: of_int_le_iff)
  then show "(16 * T - 11) * 2977044610 \<le> 2 ^ 20 * l" "2 ^ 20 * l \<le> (16 * T + 11) * 2977036143"
    using b by (simp_all add: T_def)
  show "2977036143 \<le> l \<and> l \<le> 2977044610" if "i = 256"
    using b e that by auto
qed

lemma ratio_within:
  fixes T l m :: real
  assumes "0 \<le> T" "0 \<le> l" "0 < L" "L \<le> m" "m \<le> H" "(16 * T - 11) * H \<le> 2 ^ 20 * l" "2 ^ 20 * l \<le> (16 * T + 11) * L"
  shows "\<bar>T - 65536 * (l / m)\<bar> \<le> 11 / 16"
proof -
  have m: "0 < m" using assms(3,4) by linarith
  have up: "2 ^ 20 * l \<le> (16 * T + 11) * m"
    using assms(1,4,7) mult_left_mono [of L m "16 * T + 11"] by linarith
  have lo: "(16 * T - 11) * m \<le> 2 ^ 20 * l"
  proof (cases "0 \<le> 16 * T - 11")
    case True
    then show ?thesis using assms(5,6) mult_left_mono [of m H "16 * T - 11"] by linarith
  next
    case False
    then have "(16 * T - 11) * m \<le> 0" using m by (intro mult_nonpos_nonneg) linarith+
    moreover have "0 \<le> 2 ^ 20 * l" using assms(2) by simp
    ultimately show ?thesis by (rule order_trans)
  qed
  have "16 * T - 11 \<le> 2 ^ 20 * l / m" "2 ^ 20 * l / m \<le> 16 * T + 11"
    using lo up m by (simp_all only: pos_le_divide_eq pos_divide_le_eq)
  then have "16 * T - 11 \<le> 1048576 * (l / m)" "1048576 * (l / m) \<le> 16 * T + 11" by simp_all
  then show ?thesis unfolding abs_le_iff by linarith
qed

lemma table_accuracy:
  assumes "i \<le> 256"
  shows "\<bar>real (table ! i) - 65536 * log 2 ((256 + real i) / 256)\<bar> \<le> 11 / 16"
proof -
  have T: "real_of_int (table_z ! i) = real (table ! i)"
    using assms unfolding table_z [symmetric] table_def by (subst nth_map) simp_all
  have m: "2977036143 \<le> 2 ^ 32 * ln (2 :: real)" "2 ^ 32 * ln (2 :: real) \<le> 2977044610"
    using log_table_bounds(3) [of 256] by simp_all
  have "\<bar>real (table ! i) - 65536 * (2 ^ 32 * ln ((256 + real i) / 256) / (2 ^ 32 * ln 2))\<bar> \<le> 11 / 16"
    using log_table_bounds(1,2) [OF assms] unfolding T by (intro ratio_within [OF _ _ _ m]) simp_all
  then show ?thesis unfolding log_def by (subst (asm) mult_divide_mult_cancel_left) simp_all
qed

lemma chord_error:
  fixes x :: real and n :: nat
  assumes "0 \<le> x" "x \<le> 1" "256 \<le> n"
  shows "\<bar>ln (1 + x / n) - x * ln (1 + 1 / n)\<bar> \<le> 97 / 50331648"
proof -
  define y where "y = 1 / real n"
  have y: "0 \<le> y" "y \<le> 1 / 256" using assms(3) by (simp_all add: y_def field_simps)
  have sq: "y\<^sup>2 \<le> (1 / 256)\<^sup>2" "y ^ 3 \<le> (1 / 256) ^ 3" using y by (intro power_mono; simp)+
  have xx: "0 \<le> x * (1 - x)" using assms by (intro mult_nonneg_nonneg) simp_all
  have xx': "x * (1 - x) \<le> 1 / 4"
    using zero_le_power2 [of "x - 1 / 2"] by (simp add: power2_eq_square algebra_simps)
  have x3: "0 \<le> x ^ 3" "x ^ 3 \<le> 1" using assms by (simp_all add: power_le_one)
  have b: "x * y - (x * y)\<^sup>2 / 2 \<le> ln (1 + x * y)" "ln (1 + x * y) \<le> x * y - (x * y)\<^sup>2 / 2 + (x * y) ^ 3 / 3"
    using assms(1) y by (simp_all add: ln_one_plus_bounds)
  have c: "x * (y - y\<^sup>2 / 2) \<le> x * ln (1 + y)" "x * ln (1 + y) \<le> x * (y - y\<^sup>2 / 2 + y ^ 3 / 3)"
    using assms(1) y by (simp_all add: mult_left_mono ln_one_plus_bounds)
  have "x * (1 - x) * y\<^sup>2 \<le> 1 / 4 * (1 / 256)\<^sup>2" "x ^ 3 * y ^ 3 \<le> 1 * (1 / 256) ^ 3" "x * y ^ 3 \<le> 1 * (1 / 256) ^ 3"
    using xx xx' sq x3 assms y by (intro mult_mono; simp)+
  moreover have "0 \<le> x * (1 - x) * y\<^sup>2" "0 \<le> x ^ 3 * y ^ 3" "0 \<le> x * y ^ 3" using xx x3 assms y by simp_all
  moreover have "ln (1 + x * y) - x * ln (1 + y) \<le> x * (1 - x) * y\<^sup>2 / 2 + x ^ 3 * y ^ 3 / 3"
    using b(2) c(1) by (simp add: algebra_simps diff_divide_distrib power2_eq_square power3_eq_cube)
  moreover have "x * (1 - x) * y\<^sup>2 / 2 - x * y ^ 3 / 3 \<le> ln (1 + x * y) - x * ln (1 + y)"
    using b(1) c(2) by (simp add: algebra_simps diff_divide_distrib power2_eq_square)
  ultimately have "\<bar>ln (1 + x * y) - x * ln (1 + y)\<bar> \<le> 97 / 50331648"
    unfolding abs_le_iff power_one_over by simp
  then show ?thesis by (simp add: y_def)
qed

lemma div_real:
  assumes "0 < d"
  shows "real (p div d) \<le> real p / real d" "real p / real d - 1 < real (p div d)"
proof -
  have p: "real p = real d * real (p div d) + real (p mod d)"
    by (simp only: of_nat_mult [symmetric] of_nat_add [symmetric] mult_div_mod_eq)
  have "real (p mod d) < real d" using assms by simp
  then show "real (p div d) \<le> real p / real d" "real p / real d - 1 < real (p div d)"
    using assms unfolding p by (simp_all add: field_simps)
qed

lemma interp_linear:
  assumes "2 ^ 31 \<le> s" "s < 2 ^ 32"
  defines "e \<equiv> s div 2 ^ 23 - 256" and "x \<equiv> real (s mod 2 ^ 23) / 2 ^ 23"
  shows "real (interp s) \<le> 256 * ((1 - x) * tbl e + x * tbl (e + 1))"
    "256 * ((1 - x) * tbl e + x * tbl (e + 1)) - 1 < real (interp s)"
proof -
  have e: "e < 256" using assms(1,2) by (simp add: e_def)
  define P where "P = s mod 2 ^ 23 * (tbl (e + 1) - tbl e)"
  have P: "256 * ((1 - x) * tbl e + x * tbl (e + 1)) = 256 * tbl e + real P / 2 ^ 15"
    using tbl_steps [OF e] unfolding P_def x_def by (simp add: of_nat_diff field_simps)
  have "real (interp s) = 256 * tbl e + real (P div 2 ^ 15)"
    by (simp add: interp_def Let_def e_def P_def)
  moreover have "real (P div 2 ^ 15) \<le> real P / 2 ^ 15" "real P / 2 ^ 15 - 1 < real (P div 2 ^ 15)"
    using div_real [of "2 ^ 15" P] by simp_all
  ultimately show "real (interp s) \<le> 256 * ((1 - x) * tbl e + x * tbl (e + 1))"
    "256 * ((1 - x) * tbl e + x * tbl (e + 1)) - 1 < real (interp s)"
    unfolding P by linarith+
qed

lemma ln_2_lower: "69 / 100 \<le> ln (2 :: real)"
  using log_table_bounds(3) [of 256] by simp

lemma log_factor:
  assumes "0 < n" "0 \<le> x"
  shows "log 2 ((real n + x) / 256) = log 2 (real n / 256) + ln (1 + x / real n) / ln 2"
proof -
  have "(real n + x) / 256 = real n / 256 * (1 + x / real n)" using assms by (simp add: field_simps)
  moreover have "ln (real n / 256 * (1 + x / real n)) = ln (real n / 256) + ln (1 + x / real n)"
    using assms by (intro ln_mult_pos) (simp_all add: add_pos_nonneg)
  ultimately show ?thesis by (simp add: log_def add_divide_distrib)
qed

lemma convex_error:
  fixes x :: real
  assumes "0 \<le> x" "x \<le> 1" "\<bar>a - a'\<bar> \<le> c" "\<bar>b - b'\<bar> \<le> c"
  shows "\<bar>((1 - x) * a + x * b) - ((1 - x) * a' + x * b')\<bar> \<le> c"
proof -
  have "((1 - x) * a + x * b) - ((1 - x) * a' + x * b') = (1 - x) * (a - a') + x * (b - b')"
    by (simp add: algebra_simps)
  also have "\<bar>\<dots>\<bar> \<le> (1 - x) * \<bar>a - a'\<bar> + x * \<bar>b - b'\<bar>"
    using assms(1,2) abs_triangle_ineq [of "(1 - x) * (a - a')" "x * (b - b')"] by (simp add: abs_mult)
  also have "\<dots> \<le> (1 - x) * c + x * c" using assms by (intro add_mono mult_left_mono) simp_all
  finally show ?thesis by (simp add: algebra_simps)
qed

lemma tbl_accuracy: "i \<le> 256 \<Longrightarrow> \<bar>real (tbl i) - 65536 * log 2 (real (256 + i) / 256)\<bar> \<le> 11 / 16"
  using table_accuracy [of i] by (simp add: tbl_nth)

lemma interp_accuracy:
  assumes "2 ^ 31 \<le> s" "s < 2 ^ 32"
  shows "\<bar>real (interp s) - 2 ^ 24 * log 2 (real s / 2 ^ 31)\<bar> < 226"
proof -
  define e where "e = s div 2 ^ 23 - 256"
  define x where "x = real (s mod 2 ^ 23) / 2 ^ 23"
  define n where "n = 256 + e"
  define g where "g i = log 2 (real (256 + i) / 256)" for i :: nat
  have e: "e < 256" using assms by (simp add: e_def)
  have x: "0 \<le> x" "x \<le> 1" by (simp_all add: x_def)
  have "real s = real (2 ^ 23 * n + s mod 2 ^ 23)" using assms by (simp add: n_def e_def del: of_nat_add)
  also have "\<dots> = 2 ^ 23 * (real n + x)" unfolding of_nat_add of_nat_mult by (simp add: x_def algebra_simps)
  finally have s31: "real s / 2 ^ 31 = (real n + x) / 256" by simp
  have s: "log 2 (real s / 2 ^ 31) = g e + ln (1 + x / n) / ln 2"
    unfolding s31 using log_factor [of n x] x(1) by (simp add: g_def n_def)
  have g1: "g (e + 1) = g e + ln (1 + 1 / n) / ln 2"
    using log_factor [of n 1] by (simp add: g_def n_def add.commute)
  define \<delta> where "\<delta> = (ln (1 + x / n) - x * ln (1 + 1 / n)) / ln 2"
  have "\<bar>\<delta>\<bar> \<le> 97 / 50331648 / (69 / 100)"
    unfolding \<delta>_def abs_divide using chord_error [OF x, of n] ln_2_lower
    by (intro frac_le) (simp_all add: n_def)
  moreover have "log 2 (real s / 2 ^ 31) = (1 - x) * g e + x * g (e + 1) + \<delta>"
    unfolding s g1 \<delta>_def by (simp add: field_simps)
  moreover have "\<bar>((1 - x) * tbl e + x * tbl (e + 1)) - ((1 - x) * (65536 * g e) + x * (65536 * g (e + 1)))\<bar> \<le> 11 / 16"
    using e unfolding g_def by (intro convex_error [OF x] tbl_accuracy) simp_all
  moreover have "(1 - x) * (65536 * g e) + x * (65536 * g (e + 1)) = 65536 * ((1 - x) * g e + x * g (e + 1))"
    by (simp add: algebra_simps)
  ultimately show ?thesis
    using interp_linear [OF assms, folded e_def x_def] unfolding abs_le_iff abs_less_iff by (simp add: algebra_simps)
qed

section \<open>The theorems\<close>

lemma intlog2_0 [simp]: "intlog2 0 = 0" and intlog10_0 [simp]: "intlog10 0 = 0"
  by (simp_all add: intlog2_def intlog10_def)

lemma unat_intlog2_less: "unat (intlog2 v) < 2 ^ 29"
proof (cases "v = 0")
  case False
  then show ?thesis
    using unat_intlog2 [OF False] msb_of_bounds(3) [OF False] interp_less [OF significand_bounds [OF False]] by simp
qed simp

lemma unat_intlog10: "unat (intlog10 v) = unat (intlog2 v) * 646456993 div 2 ^ 31"
proof -
  have y: "unat (intlog2 v) < 2 ^ 29" by (rule unat_intlog2_less)
  have "unat (ucast (intlog2 v) :: u64) = unat (intlog2 v)"
    unfolding unsigned_ucast_eq using y by (simp add: take_bit_eq_mod)
  then have "unat (ucast (intlog2 v) * 646456993 :: u64) = unat (intlog2 v) * 646456993"
    unfolding unat_word_ariths using y by simp
  then have d: "unat (drop_bit 31 (ucast (intlog2 v) * 646456993 :: u64)) = unat (intlog2 v) * 646456993 div 2 ^ 31"
    unfolding unsigned_drop_bit_eq using y by (simp add: drop_bit_eq_div take_bit_eq_mod)
  have "unat (intlog2 v) * 646456993 div 2 ^ 31 < 2 ^ 32" using y by simp
  then have "unat (ucast (drop_bit 31 (ucast (intlog2 v) * 646456993 :: u64)) :: u32) = unat (intlog2 v) * 646456993 div 2 ^ 31"
    unfolding unsigned_ucast_eq d by (simp add: take_bit_eq_mod)
  then show ?thesis by (simp add: intlog10_def Let_def)
qed

lemma intlog2_error:
  assumes "v \<noteq> 0"
  shows "\<bar>real (unat (intlog2 v)) - 2 ^ 24 * log 2 (real (unat v))\<bar> < 226"
proof -
  define a where "a = real (unat v)"
  have a: "0 < a" using assms by (simp add: a_def unat_gt_0 del: of_nat_unat)
  have "log 2 (a * 2 ^ (31 - msb_of v) / 2 ^ 31) = log 2 a + log 2 (2 ^ (31 - msb_of v)) - log 2 (2 ^ 31)"
    using a by (simp only: log_divide_pos log_mult_pos zero_less_power zero_less_numeral mult_pos_pos)
  also have "\<dots> = log 2 a - msb_of v"
    using msb_of_bounds(3) [OF assms] by (simp add: log_nat_power [of 2 2 31, simplified] of_nat_diff)
  finally have "log 2 (real (significand_of v) / 2 ^ 31) = log 2 (real (unat v)) - msb_of v"
    by (simp add: significand_of_def a_def)
  then show ?thesis
    using interp_accuracy [OF significand_bounds [OF assms]] unat_intlog2 [OF assms]
    by (simp add: algebra_simps del: of_nat_unat)
qed

text \<open>Powers of 5 are bounded by repeated squaring with mantissas of 30 bits.\<close>

lemma square_up:
  fixes m m' :: real
  assumes "5 ^ n \<le> m * 2 ^ e" "5 ^ a * m\<^sup>2 \<le> m' * 2 ^ k" "n' = 2 * n + a" "e' = 2 * e + k"
  shows "5 ^ n' \<le> m' * 2 ^ e'"
proof -
  have "(5 :: real) ^ n' = 5 ^ a * (5 ^ n)\<^sup>2" unfolding assms(3) power_add power_even_eq by simp
  also have "\<dots> \<le> 5 ^ a * (m * 2 ^ e)\<^sup>2" using assms(1) by (intro mult_left_mono power_mono) simp_all
  also have "\<dots> = 5 ^ a * m\<^sup>2 * 2 ^ (2 * e)" unfolding power_mult_distrib power_even_eq by simp
  also have "\<dots> \<le> m' * 2 ^ k * 2 ^ (2 * e)" using assms(2) by (intro mult_right_mono) simp_all
  finally show ?thesis by (simp add: assms(4) power_add mult.commute mult.left_commute)
qed

lemma square_down:
  fixes m m' :: real
  assumes "m * 2 ^ e \<le> 5 ^ n" "m' * 2 ^ k \<le> 5 ^ a * m\<^sup>2" "n' = 2 * n + a" "e' = 2 * e + k" "0 \<le> m"
  shows "m' * 2 ^ e' \<le> 5 ^ n'"
proof -
  have "m' * 2 ^ e' = m' * 2 ^ k * 2 ^ (2 * e)" by (simp add: assms(4) power_add)
  also have "\<dots> \<le> 5 ^ a * m\<^sup>2 * 2 ^ (2 * e)" using assms(2) by (intro mult_right_mono) simp_all
  also have "\<dots> = 5 ^ a * (m * 2 ^ e)\<^sup>2" unfolding power_mult_distrib power_even_eq by simp
  also have "\<dots> \<le> 5 ^ a * (5 ^ n)\<^sup>2" using assms(1,5) by (intro mult_left_mono power_mono) simp_all
  finally show ?thesis unfolding assms(3) power_add power_even_eq by (simp add: mult.commute)
qed

lemma pow5_up: "5 ^ 497 \<le> (2 :: real) ^ 1154"
proof -
  have u0: "5 ^ 31 \<le> (1058791185 :: real) * 2 ^ 42" by simp
  have u1: "5 ^ 62 \<le> (1044048717 :: real) * 2 ^ 114" by (rule square_up [OF u0, where a = 0 and k = 30]) simp_all
  have u2: "5 ^ 124 \<le> (1015176740 :: real) * 2 ^ 258" by (rule square_up [OF u1, where a = 0 and k = 30]) simp_all
  have u3: "5 ^ 248 \<le> (959805971 :: real) * 2 ^ 546" by (rule square_up [OF u2, where a = 0 and k = 30]) simp_all
  have u4: "5 ^ 497 \<le> (1072449962 :: real) * 2 ^ 1124" by (rule square_up [OF u3, where a = 1 and k = 32]) simp_all
  have "1072449962 \<le> (2 :: real) ^ 30" by simp
  then have "1072449962 * 2 ^ 1124 \<le> (2 :: real) ^ 30 * 2 ^ 1124" by (intro mult_right_mono) (simp_all only: zero_le_power zero_le_numeral)
  then show ?thesis using u4 by (simp only: power_add [symmetric]) (simp only: order_trans add_numeral_left numeral_plus_numeral arith_simps)
qed

lemma pow5_down: "2 ^ 1832 \<le> (5 :: real) ^ 789"
proof -
  have d0: "(888178419 :: real) * 2 ^ 26 \<le> 5 ^ 24" by simp
  have d1: "(918354960 :: real) * 2 ^ 84 \<le> 5 ^ 49" by (rule square_down [OF d0, where a = 1 and k = 32]) simp_all
  have d2: "(785454951 :: real) * 2 ^ 198 \<le> 5 ^ 98" by (rule square_down [OF d1, where a = 0 and k = 30]) simp_all
  have d3: "(718212081 :: real) * 2 ^ 428 \<le> 5 ^ 197" by (rule square_down [OF d2, where a = 1 and k = 32]) simp_all
  have d4: "(960805627 :: real) * 2 ^ 885 \<le> 5 ^ 394" by (rule square_down [OF d3, where a = 0 and k = 29]) simp_all
  have d5: "(537342539 :: real) * 2 ^ 1803 \<le> 5 ^ 789" by (rule square_down [OF d4, where a = 1 and k = 33]) simp_all
  have "(2 :: real) ^ 29 \<le> 537342539" by simp
  then have "(2 :: real) ^ 29 * 2 ^ 1803 \<le> 537342539 * 2 ^ 1803" by (intro mult_right_mono) (simp_all only: zero_le_power zero_le_numeral)
  then show ?thesis using d5 by (simp only: power_add [symmetric]) (simp only: order_trans add_numeral_left numeral_plus_numeral arith_simps)
qed

lemma log_pow_le:
  assumes "0 < k" "0 < (j :: nat)"
  shows "(10 :: real) ^ j \<le> 2 ^ k \<Longrightarrow> real j / real k \<le> log 10 2" "(2 :: real) ^ k \<le> 10 ^ j \<Longrightarrow> log 10 2 \<le> real j / real k"
proof -
  assume "(10 :: real) ^ j \<le> 2 ^ k"
  then have "log 10 (10 ^ j) \<le> log 10 (2 ^ k)" by (subst log_le_cancel_iff) simp_all
  then show "real j / real k \<le> log 10 2" using assms by (simp add: log_nat_power field_simps)
next
  assume "(2 :: real) ^ k \<le> 10 ^ j"
  then have "log 10 (2 ^ k) \<le> log 10 (10 ^ j)" by (subst log_le_cancel_iff) simp_all
  then show "log 10 2 \<le> real j / real k" using assms by (simp add: log_nat_power field_simps)
qed

lemma pow10: "(10 :: real) ^ n = 2 ^ n * 5 ^ n"
  by (simp flip: power_mult_distrib)

lemma log10_2_bounds: "497 / 1651 \<le> log 10 2" "log 10 2 \<le> 789 / 2621"
proof -
  have "(2 :: real) ^ 497 * 5 ^ 497 \<le> 2 ^ 497 * 2 ^ 1154" by (intro mult_left_mono pow5_up zero_le_power zero_le_numeral)
  also have "(2 :: real) ^ 497 * 2 ^ 1154 = 2 ^ 1651" unfolding power_add [symmetric] by (simp only: arith_simps)
  finally have "real 497 / real 1651 \<le> log 10 2"
    unfolding pow10 [symmetric] by (intro log_pow_le(1)) (simp_all only: zero_less_numeral)
  then show "497 / 1651 \<le> log 10 2" by simp
  have "(2 :: real) ^ 2621 = 2 ^ 789 * 2 ^ 1832" unfolding power_add [symmetric] by (simp only: arith_simps)
  also have "\<dots> \<le> 2 ^ 789 * 5 ^ 789" by (intro mult_left_mono pow5_down zero_le_power zero_le_numeral)
  finally have "log 10 2 \<le> real 789 / real 2621"
    unfolding pow10 [symmetric] by (intro log_pow_le(2)) (simp_all only: zero_less_numeral)
  then show "log 10 2 \<le> 789 / 2621" by simp
qed
lemma intlog10_error:
  assumes "v \<noteq> 0"
  shows "\<bar>real (unat (intlog10 v)) - 2 ^ 24 * log 10 (real (unat v))\<bar> < 242"
proof -
  define y where "y = real (unat (intlog2 v))"
  define c :: real where "c = 646456993 / 2 ^ 31"
  define k where "k = log 10 (2 :: real)"
  have y: "0 \<le> y" "y \<le> 2 ^ 29" using unat_intlog2_less [of v] by (simp_all add: y_def del: of_nat_unat)
  have q: "real (unat (intlog10 v)) \<le> y * c" "y * c - 1 < real (unat (intlog10 v))"
    using div_real [of "2 ^ 31" "unat (intlog2 v) * 646456993"] by (simp_all add: unat_intlog10 y_def c_def)
  have k: "497 / 1651 \<le> k" "k \<le> 789 / 2621" using log10_2_bounds by (simp_all add: k_def)
  have "y * \<bar>c - k\<bar> \<le> 2 ^ 29 * \<bar>c - k\<bar>" using y by (intro mult_right_mono) simp_all
  also have "\<dots> \<le> 171" using k by (simp add: c_def abs_if)
  finally have cl: "\<bar>y * c - y * k\<bar> \<le> 171" using y by (simp add: abs_mult flip: right_diff_distrib)
  have "2 ^ 24 * log 10 (real (unat v)) = 2 ^ 24 * log 2 (real (unat v)) * k"
    by (simp add: k_def log_def)
  moreover have "\<bar>y * k - 2 ^ 24 * log 2 (real (unat v)) * k\<bar> \<le> 226 * (789 / 2621)"
    using intlog2_error [OF assms] k unfolding left_diff_distrib [symmetric] abs_mult y_def
    by (intro mult_mono) simp_all
  ultimately show ?thesis using q cl unfolding abs_le_iff abs_less_iff by linarith
qed

text \<open>C24. \<open>intlog2\<close> returns the binary logarithm of every positive value, scaled by \<open>2 ^ 24\<close>, with an error
  of less than \<open>2 ^ 8\<close>, that is less than one step of the table; and \<open>intlog10\<close> the decimal one, with the same bound.\<close>

theorem intlog_accuracy:
  assumes "v \<noteq> 0"
  shows "\<bar>real (unat (intlog2 v)) - 2 ^ 24 * log 2 (real (unat v))\<bar> < 2 ^ 8 \<and>
    \<bar>real (unat (intlog10 v)) - 2 ^ 24 * log 10 (real (unat v))\<bar> < 2 ^ 8"
  using intlog2_error [OF assms] intlog10_error [OF assms] by simp

theorem intlog_accuracy_witness:
  "\<bar>real (unat (intlog2 1000)) - 2 ^ 24 * log 2 1000\<bar> < 2 ^ 8 \<and> \<bar>real (unat (intlog10 1000)) - 2 ^ 24 * 3\<bar> < 2 ^ 8"
proof -
  have "log 10 (1000 :: real) = 3" using log_nat_power [of 10 10 3] by simp
  then show ?thesis using intlog_accuracy [of 1000] by simp
qed

lemma msb_of_unique: "2 ^ k \<le> unat v \<Longrightarrow> unat v < 2 ^ (k + 1) \<Longrightarrow> msb_of v = k"
proof -
  assume k: "2 ^ k \<le> unat v" "unat v < 2 ^ (k + 1)"
  then have "v \<noteq> 0" by (cases "v = 0") simp_all
  then have "(2 :: nat) ^ k < 2 ^ (msb_of v + 1)" "(2 :: nat) ^ msb_of v < 2 ^ (k + 1)"
    using k msb_of_bounds(1,2) [of v] by linarith+
  then show ?thesis by (simp only: power_strict_increasing_iff one_less_numeral_iff semiring_norm)
qed

lemma intlog2_unat_mono:
  assumes "unat v \<le> unat w"
  shows "unat (intlog2 v) \<le> unat (intlog2 w)"
proof (cases "v = 0")
  case False
  with assms have w: "w \<noteq> 0" by (auto simp: unat_eq_0)
  note v = False
  have le: "msb_of v \<le> msb_of w"
  proof (rule ccontr)
    assume "\<not> msb_of v \<le> msb_of w"
    then have "(2 :: nat) ^ (msb_of w + 1) \<le> 2 ^ msb_of v" by (intro power_increasing) simp_all
    then show False using msb_of_bounds(1) [OF v] msb_of_bounds(2) [OF w] assms by linarith
  qed
  show ?thesis
  proof (cases "msb_of v = msb_of w")
    case True
    then have "significand_of v \<le> significand_of w" using assms by (simp add: significand_of_def)
    then show ?thesis
      using True interp_mono significand_bounds [OF v] significand_bounds [OF w]
      by (simp add: unat_intlog2 [OF v] unat_intlog2 [OF w])
  next
    case False
    then have "(msb_of v + 1) * 2 ^ 24 \<le> msb_of w * 2 ^ 24" using le by simp
    then show ?thesis
      using interp_less [OF significand_bounds [OF v]] by (simp add: unat_intlog2 [OF v] unat_intlog2 [OF w])
  qed
qed simp

text \<open>Both logarithms are monotone on all values, zero included.\<close>

theorem intlog_mono:
  assumes "v \<le> w"
  shows "intlog2 v \<le> intlog2 w \<and> intlog10 v \<le> intlog10 w"
  using intlog2_unat_mono [of v w] assms
  by (simp add: word_le_nat_alt unat_intlog10 div_le_mono)

theorem intlog_mono_witness: "intlog2 1000 \<le> intlog2 1001 \<and> intlog10 1000 \<le> intlog10 1001"
  using intlog_mono [of 1000 1001] by simp

text \<open>The scaling law of the header file: \<open>intlog2 (v * 2 ^ x) = intlog2 v + x * 2 ^ 24\<close>, exactly, whenever
  the product fits the argument.\<close>

theorem intlog2_scale:
  assumes "v \<noteq> 0" and "unat v * 2 ^ x < 2 ^ 32"
  shows "unat (intlog2 (push_bit x v)) = unat (intlog2 v) + x * 2 ^ 24"
proof -
  have u: "unat (push_bit x v) = unat v * 2 ^ x" using assms(2) by (rule unat_shifts(2))
  have p: "push_bit x v \<noteq> 0" using u assms(1) by (auto simp: unat_eq_0)
  have m: "msb_of (push_bit x v) = msb_of v + x"
    using msb_of_bounds(1,2) [OF assms(1)] by (intro msb_of_unique) (simp_all add: u power_add)
  have "significand_of (push_bit x v) = significand_of v"
    using msb_of_bounds(3) [OF p] unfolding significand_of_def u m by (simp flip: power_add)
  then show ?thesis by (simp add: unat_intlog2 [OF p] unat_intlog2 [OF assms(1)] m algebra_simps)
qed

theorem intlog2_scale_witness: "unat (intlog2 (push_bit 13 1000)) = unat (intlog2 1000) + 13 * 2 ^ 24"
  using intlog2_scale [of 1000 13] by simp

end
