(* ===== verification/Rc_Map.thy ===== *)
theory Rc_Map
  imports Dvb_Prelude "HOL-Library.Log_Nat"
begin

text \<open>
  The scancode tables of \<open>rc-main.c\<close>: a growable array of pairs of scancode and keycode, kept sorted by
  scancode, with binary search for the lookup. The model keeps the array the code allocates, with its
  size in bytes and in entries; memory the allocator hands out holds arbitrary entries. An access outside the
  array, or through a table that has been freed, is the fault \<open>None\<close>.

  The theorems show that the operations implement a finite map from scancodes to keycodes, and that
  the bitmap of keys the input device announces is the set of keycodes in the table.
\<close>

section \<open>Data\<close>

record rc_map_table =
  scancode :: u32
  keycode :: u32

record rc_map =
  scan :: "rc_map_table list option"
  tab_size :: nat
  tab_len :: nat
  tab_alloc :: nat
  rc_type :: u64
  map_name :: string

abbreviation (input) IR_TAB_MIN_SIZE :: nat where "IR_TAB_MIN_SIZE \<equiv> 256"
abbreviation (input) IR_TAB_MAX_SIZE :: nat where "IR_TAB_MAX_SIZE \<equiv> 8192"
abbreviation (input) KEY_RESERVED :: u32 where "KEY_RESERVED \<equiv> 0"
abbreviation (input) KEY_UNKNOWN :: u32 where "KEY_UNKNOWN \<equiv> 240"
abbreviation (input) KEY_CNT :: nat where "KEY_CNT \<equiv> 768"

text \<open>\<open>sizeof (struct rc_map_table)\<close>, and the index \<open>-1U\<close> that stands for failure.\<close>

abbreviation (input) entry_size :: nat where "entry_size \<equiv> 8"
abbreviation (input) no_index :: nat where "no_index \<equiv> 2 ^ 32 - 1"

text \<open>What the functions read of the remote control device: the mask for scancodes and the
  bitmap of keys of its input device.\<close>

record map_dev =
  dmap :: rc_map
  scanmask :: u32
  keybit :: "bool list"

text \<open>The kernel's allocator is a parameter: for a number of bytes it fails or gives an array of that size.\<close>

type_synonym allocator = "nat \<Rightarrow> rc_map_table list option"

definition allocates :: "allocator \<Rightarrow> bool" where
  "allocates kmalloc \<longleftrightarrow> (\<forall>n m. kmalloc n = Some m \<longrightarrow> length m = n div entry_size)"

section \<open>Operations\<close>

definition entry_at :: "rc_map \<Rightarrow> nat \<Rightarrow> rc_map_table option" where
  "entry_at m i = do { tab \<leftarrow> scan m; rd tab i }"

definition roundup_pow_of_two :: "nat \<Rightarrow> nat" where
  "roundup_pow_of_two n = 2 ^ floorlog 2 (n - 1)"

definition ir_create_table :: "allocator \<Rightarrow> string \<Rightarrow> u64 \<Rightarrow> nat \<Rightarrow> rc_map \<Rightarrow> int \<times> rc_map" where
  "ir_create_table kmalloc name typ sz m =
     (let a = roundup_pow_of_two (sz * entry_size) mod 2 ^ 32;
          m = m\<lparr>map_name := name, rc_type := typ, tab_alloc := a, tab_size := a div entry_size, scan := kmalloc a\<rparr>
      in if scan m = None then (- ENOMEM, m) else (0, m))"

definition ir_free_table :: "rc_map \<Rightarrow> rc_map" where
  "ir_free_table m = m\<lparr>tab_size := 0, scan := None\<rparr>"

text \<open>The end of \<open>ir_resize_table\<close>: a new array of \<open>n\<close> entries takes over those in use.\<close>

definition move_array :: "allocator \<Rightarrow> nat \<Rightarrow> rc_map \<Rightarrow> (int \<times> rc_map) option" where
  "move_array kmalloc newalloc m =
     (case kmalloc newalloc of
        None \<Rightarrow> Some (- ENOMEM, m)
      | Some newscan \<Rightarrow> do {
          oldscan \<leftarrow> scan m;
          es \<leftarrow> memrd oldscan 0 (tab_len m);
          newscan \<leftarrow> memwr newscan 0 es;
          Some (0, m\<lparr>scan := Some newscan, tab_alloc := newalloc, tab_size := newalloc div entry_size\<rparr>) })"

definition ir_resize_table :: "allocator \<Rightarrow> rc_map \<Rightarrow> (int \<times> rc_map) option" where
  "ir_resize_table kmalloc m =
     (if tab_size m = tab_len m \<and> tab_alloc m \<ge> IR_TAB_MAX_SIZE then Some (- ENOMEM, m)
      else
        let oldalloc = tab_alloc m;
            newalloc = (if tab_size m = tab_len m then oldalloc * 2 else oldalloc);
            newalloc = (if tab_len m * 3 < tab_size m \<and> oldalloc > IR_TAB_MIN_SIZE then newalloc div 2 else newalloc)
        in if newalloc = oldalloc then Some (0, m) else move_array kmalloc newalloc m)"

text \<open>\<open>__set_bit\<close> and \<open>__clear_bit\<close> on the bitmap of keys.\<close>

definition write_bit :: "u32 \<Rightarrow> bool \<Rightarrow> map_dev \<Rightarrow> map_dev option" where
  "write_bit k b dev = do { kb \<leftarrow> wr (keybit dev) (unat k) b; Some (dev\<lparr>keybit := kb\<rparr>) }"

text \<open>The loop that looks for another scancode with the keycode: \<open>n\<close> entries from \<open>i\<close> on.\<close>

fun keycode_used :: "rc_map \<Rightarrow> u32 \<Rightarrow> nat \<Rightarrow> nat \<Rightarrow> bool option" where
  "keycode_used m k i 0 = Some False"
| "keycode_used m k i (Suc n) = do {
     e \<leftarrow> entry_at m i;
     if keycode e = k then Some True else keycode_used m k (i + 1) n }"

text \<open>The two halves of \<open>ir_update_mapping\<close>: the entry is removed or changed, then the bit of its old keycode
  is cleared unless another entry has it, and the table may shrink.\<close>

definition change_entry :: "nat \<Rightarrow> u32 \<Rightarrow> map_dev \<Rightarrow> (u32 \<times> map_dev) option" where
  "change_entry index new_keycode dev = do {
     let m = dmap dev;
     tab \<leftarrow> scan m;
     e \<leftarrow> rd tab index;
     dev \<leftarrow> (if new_keycode = KEY_RESERVED \<or> new_keycode = KEY_UNKNOWN then do {
               let n = (tab_len m + 2 ^ 32 - 1) mod 2 ^ 32;
               es \<leftarrow> memrd tab (index + 1) ((n + 2 ^ 32 - index) mod 2 ^ 32);
               tab \<leftarrow> memwr tab index es;
               Some (dev\<lparr>dmap := m\<lparr>tab_len := n, scan := Some tab\<rparr>\<rparr>) }
             else do {
               tab \<leftarrow> wr tab index (e\<lparr>keycode := new_keycode\<rparr>);
               write_bit new_keycode True (dev\<lparr>dmap := m\<lparr>scan := Some tab\<rparr>\<rparr>) });
     Some (keycode e, dev) }"

definition forget_keycode :: "allocator \<Rightarrow> u32 \<Rightarrow> map_dev \<Rightarrow> map_dev option" where
  "forget_keycode kmalloc old_keycode dev =
     (if old_keycode \<noteq> KEY_RESERVED then do {
        dev \<leftarrow> write_bit old_keycode False dev;
        used \<leftarrow> keycode_used (dmap dev) old_keycode 0 (tab_len (dmap dev));
        dev \<leftarrow> (if used then write_bit old_keycode True dev else Some dev);
        (_, m) \<leftarrow> ir_resize_table kmalloc (dmap dev);
        Some (dev\<lparr>dmap := m\<rparr>) }
      else Some dev)"

definition ir_update_mapping :: "allocator \<Rightarrow> nat \<Rightarrow> u32 \<Rightarrow> map_dev \<Rightarrow> (u32 \<times> map_dev) option" where
  "ir_update_mapping kmalloc index new_keycode dev = do {
     (old_keycode, dev) \<leftarrow> change_entry index new_keycode dev;
     dev \<leftarrow> forget_keycode kmalloc old_keycode dev;
     Some (old_keycode, dev) }"

text \<open>The search of \<open>ir_establish_scancode\<close> among \<open>n\<close> entries from \<open>i\<close> on: the first entry whose scancode is not
  below, and whether it is the one looked for.\<close>

fun establish_scan :: "rc_map \<Rightarrow> u32 \<Rightarrow> nat \<Rightarrow> nat \<Rightarrow> (nat \<times> bool) option" where
  "establish_scan m s i 0 = Some (i, False)"
| "establish_scan m s i (Suc n) = do {
     e \<leftarrow> entry_at m i;
     if scancode e = s then Some (i, True)
     else if scancode e \<ge> s then Some (i, False)
     else establish_scan m s (i + 1) n }"

text \<open>The slot for a scancode that is not in the table yet.\<close>

definition insert_slot :: "nat \<Rightarrow> u32 \<Rightarrow> rc_map \<Rightarrow> rc_map option" where
  "insert_slot i s m = do {
     tab \<leftarrow> scan m;
     tab \<leftarrow> (if i < tab_len m then do { es \<leftarrow> memrd tab i (tab_len m - i); memwr tab (i + 1) es } else Some tab);
     tab \<leftarrow> wr tab i \<lparr>scancode = s, keycode = KEY_RESERVED\<rparr>;
     Some (m\<lparr>scan := Some tab, tab_len := tab_len m + 1\<rparr>) }"

definition ir_establish_scancode :: "allocator \<Rightarrow> u32 \<Rightarrow> bool \<Rightarrow> map_dev \<Rightarrow> (nat \<times> map_dev) option" where
  "ir_establish_scancode kmalloc s resize dev = do {
     let s = (if scanmask dev \<noteq> 0 then s AND scanmask dev else s);
     (i, found) \<leftarrow> establish_scan (dmap dev) s 0 (tab_len (dmap dev));
     if found then Some (i, dev)
     else do {
       (r, m) \<leftarrow> (if tab_size (dmap dev) = tab_len (dmap dev) then
                   (if \<not> resize then Some (- 1, dmap dev) else ir_resize_table kmalloc (dmap dev))
                 else Some (0, dmap dev));
       if r \<noteq> 0 then Some (no_index, dev\<lparr>dmap := m\<rparr>)
       else do { m \<leftarrow> insert_slot i s m; Some (i, dev\<lparr>dmap := m\<rparr>) } } }"

text \<open>The request of the \<open>EVIOCSKEYCODE\<close> and \<open>EVIOCGKEYCODE\<close> calls. The conversion of its scancode bytes is a
  function of the input layer and a parameter: an error number or the scancode.\<close>

record input_keymap_entry =
  by_index :: bool
  ke_index :: u16
  ke_keycode :: u32
  ke_len :: nat
  ke_scancode :: "u8 list"

type_synonym to_scalar = "input_keymap_entry \<Rightarrow> int + u32"

definition ir_setkeycode ::
  "allocator \<Rightarrow> allocator \<Rightarrow> to_scalar \<Rightarrow> input_keymap_entry \<Rightarrow> map_dev \<Rightarrow> (int \<times> u32 option \<times> map_dev) option" where
  "ir_setkeycode kmalloc1 kmalloc2 input_scancode_to_scalar ke dev = do {
     (r, index, dev) \<leftarrow>
       (if by_index ke then
          (let index = unat (ke_index ke) in
           if index \<ge> tab_len (dmap dev) then Some (- EINVAL, index, dev) else Some (0, index, dev))
        else case input_scancode_to_scalar ke of
            Inl err \<Rightarrow> Some (err, 0, dev)
          | Inr s \<Rightarrow> do {
              (index, dev) \<leftarrow> ir_establish_scancode kmalloc1 s True dev;
              if index \<ge> tab_len (dmap dev) then Some (- ENOMEM, index, dev) else Some (0, index, dev) });
     if r \<noteq> 0 then Some (r, None, dev)
     else do {
       (old_keycode, dev) \<leftarrow> ir_update_mapping kmalloc2 index (ke_keycode ke) dev;
       Some (0, Some old_keycode, dev) } }"

text \<open>The loop of \<open>ir_setkeytable\<close>; the allocator may answer differently in every round.\<close>

fun setkeytable_loop :: "(nat \<Rightarrow> allocator) \<Rightarrow> rc_map_table list \<Rightarrow> map_dev \<Rightarrow> (int \<times> map_dev) option" where
  "setkeytable_loop kmalloc [] dev = Some (0, dev)"
| "setkeytable_loop kmalloc (e # es) dev = do {
     (index, dev) \<leftarrow> ir_establish_scancode (\<lambda>_. None) (scancode e) False dev;
     if index \<ge> tab_len (dmap dev) then Some (- ENOMEM, dev)
     else do {
       (_, dev) \<leftarrow> ir_update_mapping (kmalloc 0) index (keycode e) dev;
       setkeytable_loop (\<lambda>i. kmalloc (Suc i)) es dev } }"

definition ir_setkeytable :: "allocator \<Rightarrow> (nat \<Rightarrow> allocator) \<Rightarrow> rc_map \<Rightarrow> map_dev \<Rightarrow> (int \<times> map_dev) option" where
  "ir_setkeytable kmalloc kmallocs from dev =
     (let (rc, m) = ir_create_table kmalloc (map_name from) (rc_type from) (tab_size from) (dmap dev);
          dev = dev\<lparr>dmap := m\<rparr>
      in if rc \<noteq> 0 then Some (rc, dev)
         else do {
           es \<leftarrow> (if tab_size from = 0 then Some [] else do { tab \<leftarrow> scan from; memrd tab 0 (tab_size from) });
           (rc, dev) \<leftarrow> setkeytable_loop kmallocs es dev;
           Some (rc, if rc \<noteq> 0 then dev\<lparr>dmap := ir_free_table (dmap dev)\<rparr> else dev) })"

text \<open>Binary search; \<open>start\<close> and \<open>end\<close> are signed.\<close>

function lookup_loop :: "rc_map \<Rightarrow> u32 \<Rightarrow> int \<Rightarrow> int \<Rightarrow> nat option" where
  "lookup_loop m s start end =
     (if start \<le> end then
        let mid = (start + end) div 2 in
        case entry_at m (nat mid) of
          None \<Rightarrow> None
        | Some e \<Rightarrow>
            if scancode e < s then lookup_loop m s (mid + 1) end
            else if scancode e > s then lookup_loop m s start (mid - 1)
            else Some (nat mid)
      else Some no_index)"
  by pat_completeness auto
termination by (relation "measure (\<lambda>(m, s, start, end). nat (end - start + 1))") auto

declare lookup_loop.simps [simp del]

definition ir_lookup_by_scancode :: "rc_map \<Rightarrow> u32 \<Rightarrow> nat option" where
  "ir_lookup_by_scancode m s = lookup_loop m s 0 (int (tab_len m) - 1)"

definition ir_getkeycode :: "to_scalar \<Rightarrow> input_keymap_entry \<Rightarrow> map_dev \<Rightarrow> (int \<times> input_keymap_entry) option" where
  "ir_getkeycode input_scancode_to_scalar ke dev =
     (let m = dmap dev;
          finish = (\<lambda>index.
            if index < tab_len m then do {
              e \<leftarrow> entry_at m index;
              let bytes = map (\<lambda>i. ucast (drop_bit (8 * i) (scancode e))) [0..<4];
              sc \<leftarrow> memwr (ke_scancode ke) 0 bytes;
              Some (0, ke\<lparr>ke_index := of_nat index, ke_keycode := keycode e, ke_len := 4, ke_scancode := sc\<rparr>) }
            else if \<not> by_index ke then Some (0, ke\<lparr>ke_index := of_nat index, ke_keycode := KEY_RESERVED\<rparr>)
            else Some (- EINVAL, ke))
      in if by_index ke then finish (unat (ke_index ke))
         else case input_scancode_to_scalar ke of
             Inl err \<Rightarrow> Some (err, ke)
           | Inr s \<Rightarrow> do { index \<leftarrow> ir_lookup_by_scancode m s; finish index })"

definition rc_g_keycode_from_table :: "rc_map \<Rightarrow> u32 \<Rightarrow> u32 option" where
  "rc_g_keycode_from_table m s = do {
     index \<leftarrow> ir_lookup_by_scancode m s;
     if index < tab_len m then do { e \<leftarrow> entry_at m index; Some (keycode e) } else Some KEY_RESERVED }"

section \<open>Well-formed tables\<close>

text \<open>The entries in use, and the finite map they stand for.\<close>

definition used :: "rc_map \<Rightarrow> rc_map_table list" where
  "used m = take (tab_len m) (the (scan m))"

definition pair_of :: "rc_map_table \<Rightarrow> u32 \<times> u32" where
  "pair_of e = (scancode e, keycode e)"

definition entries :: "rc_map \<Rightarrow> u32 \<rightharpoonup> u32" where
  "entries m = map_of (map pair_of (used m))"

text \<open>The array has the size the fields say, a power of two of at least one entry.\<close>

definition array_ok :: "rc_map \<Rightarrow> bool" where
  "array_ok m \<longleftrightarrow>
     (case scan m of None \<Rightarrow> False | Some tab \<Rightarrow> length tab = tab_size m) \<and> tab_len m \<le> tab_size m
     \<and> (\<exists>k<29. tab_size m = 2 ^ k) \<and> tab_alloc m = entry_size * tab_size m"

definition tab_ok :: "rc_map \<Rightarrow> bool" where
  "tab_ok m \<longleftrightarrow> array_ok m \<and> sorted_wrt (<) (map scancode (used m))"

lemma array_okD:
  assumes "array_ok m"
  obtains tab k where "scan m = Some tab" "length tab = tab_size m" "tab_len m \<le> tab_size m" "k < 29"
    "tab_size m = 2 ^ k" "tab_alloc m = 8 * tab_size m" "used m = take (tab_len m) tab"
  using assms unfolding array_ok_def used_def by (cases "scan m") auto

lemma used_length [simp]: "array_ok m \<Longrightarrow> length (used m) = tab_len m"
  by (erule array_okD) simp

lemma entry_at_used: "array_ok m \<Longrightarrow> i < tab_len m \<Longrightarrow> entry_at m i = Some (used m ! i)"
  by (erule array_okD) (simp add: entry_at_def rd_Some)

lemma tab_len_less: "array_ok m \<Longrightarrow> tab_len m < 2 ^ 29"
proof (erule array_okD)
  fix k :: nat
  assume "k < 29" "tab_size m = 2 ^ k" "tab_len m \<le> tab_size m"
  moreover from \<open>k < 29\<close> have "(2 :: nat) ^ k < 2 ^ 29" by (intro power_strict_increasing) auto
  ultimately show ?thesis by linarith
qed

lemma keycode_used_eq:
  assumes "array_ok m"
  shows "i + n \<le> tab_len m \<Longrightarrow> keycode_used m k i n = Some (\<exists>e\<in>set (take n (drop i (used m))). keycode e = k)"
proof (induction n arbitrary: i)
  case (Suc n)
  then have "drop i (used m) = used m ! i # drop (Suc i) (used m)"
    using assms by (simp add: Cons_nth_drop_Suc)
  then show ?case using Suc entry_at_used [OF assms, of i] by simp
qed simp

lemma establish_scan_ok:
  assumes "array_ok m"
  shows "i + n \<le> tab_len m \<Longrightarrow> \<exists>j f. establish_scan m s i n = Some (j, f) \<and> i \<le> j \<and> j \<le> i + n
    \<and> (\<forall>l\<in>{i..<j}. scancode (used m ! l) < s)
    \<and> (if f then j < i + n \<and> scancode (used m ! j) = s else j < i + n \<longrightarrow> s < scancode (used m ! j))"
proof (induction n arbitrary: i)
  case (Suc n)
  have e: "entry_at m i = Some (used m ! i)" using Suc.prems by (intro entry_at_used [OF assms]) simp
  show ?case
  proof (cases "scancode (used m ! i) < s")
    case True
    obtain j f where j: "establish_scan m s (i + 1) n = Some (j, f)" "i + 1 \<le> j" "j \<le> i + 1 + n"
      "\<forall>l\<in>{i + 1..<j}. scancode (used m ! l) < s"
      "if f then j < i + 1 + n \<and> scancode (used m ! j) = s else j < i + 1 + n \<longrightarrow> s < scancode (used m ! j)"
      using Suc.IH [of "i + 1"] Suc.prems by auto
    have "\<forall>l\<in>{i..<j}. scancode (used m ! l) < s" using j(2,4) True by (auto simp: Suc_le_eq nat_less_le)
    moreover have "establish_scan m s i (Suc n) = establish_scan m s (i + 1) n" using True e by auto
    ultimately show ?thesis using j by (intro exI [of _ j] exI [of _ f]) auto
  next
    case False
    then have "establish_scan m s i (Suc n) = Some (i, scancode (used m ! i) = s)" using e by auto
    then show ?thesis using False by (intro exI [of _ i] exI [of _ "scancode (used m ! i) = s"]) auto
  qed
qed (simp, blast)

lemma move_array_ok:
  assumes "array_ok m" "allocates kmalloc" "tab_len m \<le> n" "n = 2 ^ k" "k < 29"
  shows "\<exists>r m'. move_array kmalloc (8 * n) m = Some (r, m') \<and> array_ok m' \<and> used m' = used m \<and> tab_len m' = tab_len m
    \<and> (r = 0 \<longrightarrow> tab_size m' = n)"
proof (cases "kmalloc (8 * n)")
  case None
  then show ?thesis using assms(1) by (simp add: move_array_def)
next
  case (Some new)
  obtain tab where m: "scan m = Some tab" "length tab = tab_size m" "tab_len m \<le> tab_size m" "used m = take (tab_len m) tab"
    using assms(1) by (rule array_okD)
  have l: "length new = n" using Some assms(2) by (auto simp: allocates_def)
  let ?new = "take (tab_len m) tab @ drop (tab_len m) new"
  let ?m = "m\<lparr>scan := Some ?new, tab_alloc := 8 * n, tab_size := n\<rparr>"
  have "move_array kmalloc (8 * n) m = Some (0, ?m)"
    using Some m(1-3) assms(3) l by (simp add: move_array_def memrd_Some memwr_def min_absorb2)
  moreover have "array_ok ?m" using l m(2,3) assms(3-5) by (auto simp: array_ok_def)
  moreover have "used ?m = used m" using m by (simp add: used_def)
  ultimately show ?thesis by auto
qed

lemma resize_ok:
  assumes "array_ok m" "allocates kmalloc"
  shows "\<exists>r m'. ir_resize_table kmalloc m = Some (r, m') \<and> array_ok m' \<and> used m' = used m \<and> tab_len m' = tab_len m
    \<and> (r = 0 \<longrightarrow> tab_size m = tab_len m \<longrightarrow> tab_len m' < tab_size m')"
proof -
  obtain k where k: "k < 29" "tab_size m = 2 ^ k" "tab_alloc m = 8 * tab_size m" "tab_len m \<le> tab_size m"
    using assms(1) by (rule array_okD)
  consider (max) "tab_size m = tab_len m" "tab_alloc m \<ge> IR_TAB_MAX_SIZE"
    | (grow) "tab_size m = tab_len m" "tab_alloc m < IR_TAB_MAX_SIZE"
    | (shrink) "tab_size m \<noteq> tab_len m" "tab_len m * 3 < tab_size m" "tab_alloc m > IR_TAB_MIN_SIZE"
    | (keep) "tab_size m \<noteq> tab_len m" "\<not> (tab_len m * 3 < tab_size m \<and> tab_alloc m > IR_TAB_MIN_SIZE)"
    by linarith
  then show ?thesis
  proof cases
    case grow
    have pos: "0 < tab_size m" using k(2) by simp
    then have "ir_resize_table kmalloc m = move_array kmalloc (8 * (2 * tab_size m)) m"
      using grow k(3) by (simp add: ir_resize_table_def Let_def mult.commute)
    moreover have "k < 10" using grow(2) k(2,3) power_less_imp_less_exp [of "2 :: nat" k 10] by simp
    ultimately show ?thesis
      using move_array_ok [OF assms, of "2 * tab_size m" "k + 1"] k(2,4) pos grow(1) by auto
  next
    case shrink
    have "k \<noteq> 0" using shrink(3) k(2,3) by (cases k) simp_all
    then obtain j where j: "k = Suc j" by (cases k) simp_all
    have "ir_resize_table kmalloc m = move_array kmalloc (8 * 2 ^ j) m"
      using shrink k(2,3) by (simp add: ir_resize_table_def Let_def j)
    then show ?thesis using move_array_ok [OF assms, of "2 ^ j" j] k(1,2) shrink(1,2) by (auto simp: j)
  next
    case max
    then show ?thesis using assms(1) by (simp add: ir_resize_table_def)
  next
    case keep
    then have "ir_resize_table kmalloc m = Some (0, m)" by (auto simp: ir_resize_table_def Let_def)
    then show ?thesis using assms(1) keep(1) by simp
  qed
qed

lemma insert_slot_ok:
  assumes "array_ok m" "tab_len m < tab_size m" "i \<le> tab_len m"
  shows "\<exists>m'. insert_slot i s m = Some m' \<and> array_ok m' \<and> tab_len m' = tab_len m + 1
    \<and> used m' = take i (used m) @ \<lparr>scancode = s, keycode = KEY_RESERVED\<rparr> # drop i (used m)"
proof -
  obtain tab where m: "scan m = Some tab" "length tab = tab_size m" "used m = take (tab_len m) tab"
    using assms(1) by (rule array_okD)
  define e where "e = \<lparr>scancode = s, keycode = KEY_RESERVED\<rparr>"
  let ?tab = "take i tab @ e # drop i (take (tab_len m) tab) @ drop (Suc (tab_len m)) tab"
  have "insert_slot i s m = Some (m\<lparr>scan := Some ?tab, tab_len := tab_len m + 1\<rparr>)"
  proof (cases "i < tab_len m")
    case True
    then show ?thesis using assms(2) m(1,2)
      by (simp add: insert_slot_def memrd_def memwr_def wr_def e_def list_update_append drop_take upd_conv_take_nth_drop min_def)
  next
    case False
    then have "i = tab_len m" using assms(3) by simp
    then show ?thesis using assms(2) m(1,2)
      by (simp add: insert_slot_def wr_def e_def upd_conv_take_nth_drop)
  qed
  moreover have "array_ok (m\<lparr>scan := Some ?tab, tab_len := tab_len m + 1\<rparr>)"
    using assms m by (auto simp: array_ok_def)
  moreover have "used (m\<lparr>scan := Some ?tab, tab_len := tab_len m + 1\<rparr>) = take i (used m) @ e # drop i (used m)"
    using assms(2,3) m by (simp add: used_def min_def Suc_diff_le)
  ultimately show ?thesis by (simp add: e_def)
qed

lemma update_entry_ok:
  assumes "array_ok m" "i < tab_len m"
  shows "\<exists>tab. scan m = Some tab \<and> rd tab i = Some (used m ! i) \<and> wr tab i e = Some (tab[i := e])
    \<and> array_ok (m\<lparr>scan := Some (tab[i := e])\<rparr>) \<and> used (m\<lparr>scan := Some (tab[i := e])\<rparr>) = (used m)[i := e]"
proof -
  obtain tab where m: "scan m = Some tab" "length tab = tab_size m" "tab_len m \<le> tab_size m" "used m = take (tab_len m) tab"
    using assms(1) by (rule array_okD)
  then show ?thesis using assms by (auto simp: rd_Some wr_Some array_ok_def used_def take_update_swap)
qed

lemma delete_entry_ok:
  assumes "array_ok m" "i < tab_len m"
  shows "\<exists>tab es tab'. scan m = Some tab \<and> rd tab i = Some (used m ! i) \<and> memrd tab (i + 1) (tab_len m - 1 - i) = Some es
    \<and> memwr tab i es = Some tab' \<and> array_ok (m\<lparr>tab_len := tab_len m - 1, scan := Some tab'\<rparr>)
    \<and> used (m\<lparr>tab_len := tab_len m - 1, scan := Some tab'\<rparr>) = take i (used m) @ drop (i + 1) (used m)"
proof -
  obtain tab where m: "scan m = Some tab" "length tab = tab_size m" "tab_len m \<le> tab_size m" "used m = take (tab_len m) tab"
    using assms(1) by (rule array_okD)
  let ?es = "take (tab_len m - 1 - i) (drop (i + 1) tab)"
  let ?tab = "take i tab @ ?es @ drop (i + length ?es) tab"
  have "memrd tab (i + 1) (tab_len m - 1 - i) = Some ?es" "memwr tab i ?es = Some ?tab"
    using assms(2) m(2,3) by (simp_all add: memrd_def memwr_def)
  moreover have "array_ok (m\<lparr>tab_len := tab_len m - 1, scan := Some ?tab\<rparr>)"
    using assms m by (auto simp: array_ok_def)
  moreover have "used (m\<lparr>tab_len := tab_len m - 1, scan := Some ?tab\<rparr>) = take i (used m) @ drop (i + 1) (used m)"
  proof (cases "i = tab_len m - 1")
    case False
    then have "i < tab_len m - Suc 0" using assms(2) by simp
    then show ?thesis using m by (simp add: used_def drop_take min_def)
  qed (use m in \<open>simp add: used_def\<close>)
  ultimately show ?thesis using m assms(2) by (auto simp: rd_Some)
qed

section \<open>The bitmap of keys\<close>

definition keys :: "rc_map_table list \<Rightarrow> nat set" where
  "keys es = (\<lambda>e. unat (keycode e)) ` set es - {0}"

definition bits_ok :: "map_dev \<Rightarrow> bool" where
  "bits_ok dev \<longleftrightarrow> length (keybit dev) = KEY_CNT \<and> keys (used (dmap dev)) \<subseteq> {..<KEY_CNT}
     \<and> (\<forall>k<KEY_CNT. keybit dev ! k \<longleftrightarrow> k \<in> keys (used (dmap dev)))"

lemma keys_append [simp]: "keys (xs @ ys) = keys xs \<union> keys ys"
  by (auto simp: keys_def)

lemma keys_Cons [simp]: "keys (e # es) = (if keycode e = KEY_RESERVED then {} else {unat (keycode e)}) \<union> keys es"
  by (auto simp: keys_def unat_eq_0)

lemma keys_iff: "k \<noteq> KEY_RESERVED \<Longrightarrow> unat k \<in> keys es \<longleftrightarrow> (\<exists>e\<in>set es. keycode e = k)"
  by (auto simp: keys_def unat_eq_0 simp flip: word_unat_eq_iff)

text \<open>The new bitmap: the new key is set, the old one cleared unless an entry that is left has it.\<close>

definition new_bits :: "bool list \<Rightarrow> u32 \<Rightarrow> u32 \<Rightarrow> nat set \<Rightarrow> bool list" where
  "new_bits b old new ks =
     (let b = (if new = KEY_RESERVED \<or> new = KEY_UNKNOWN then b else b[unat new := True])
      in if old = KEY_RESERVED then b else b[unat old := unat old \<in> ks])"

lemma new_bits_ok:
  assumes "length b = KEY_CNT" "\<forall>k<KEY_CNT. b ! k \<longleftrightarrow> k \<in> R \<or> (old \<noteq> KEY_RESERVED \<and> k = unat old)"
    and "unat old < KEY_CNT" "unat new < KEY_CNT"
    and "ks = R \<union> (if new = KEY_RESERVED \<or> new = KEY_UNKNOWN then {} else {unat new})" "k < KEY_CNT"
  shows "new_bits b old new ks ! k \<longleftrightarrow> k \<in> ks"
  using assms unfolding new_bits_def Let_def
  by (cases "old = KEY_RESERVED"; cases "new = KEY_RESERVED \<or> new = KEY_UNKNOWN") (auto simp: nth_list_update)

lemma length_new_bits [simp]: "length (new_bits b old new ks) = length b"
  by (simp add: new_bits_def Let_def)

lemma write_bit_ok: "unat k < length (keybit dev) \<Longrightarrow> write_bit k b dev = Some (dev\<lparr>keybit := (keybit dev)[unat k := b]\<rparr>)"
  by (simp add: write_bit_def wr_Some)

lemma forget_keycode_ok:
  assumes "array_ok (dmap dev)" "unat old < length (keybit dev)" "allocates kmalloc"
  shows "\<exists>dev'. forget_keycode kmalloc old dev = Some dev'
     \<and> array_ok (dmap dev') \<and> used (dmap dev') = used (dmap dev) \<and> scanmask dev' = scanmask dev
     \<and> keybit dev' = (if old = KEY_RESERVED then keybit dev else (keybit dev)[unat old := unat old \<in> keys (used (dmap dev))])"
proof (cases "old = KEY_RESERVED")
  case False
  let ?u = "used (dmap dev)"
  obtain r m' where m': "ir_resize_table kmalloc (dmap dev) = Some (r, m')" "array_ok m'" "used m' = ?u"
    using resize_ok [OF assms(1,3)] by blast
  have ku: "keycode_used (dmap dev) old 0 (tab_len (dmap dev)) = Some (unat old \<in> keys ?u)"
    using keycode_used_eq [OF assms(1), of 0 "tab_len (dmap dev)" old] keys_iff [OF False] assms(1) by simp
  have "forget_keycode kmalloc old dev = Some (dev\<lparr>keybit := (keybit dev)[unat old := unat old \<in> keys ?u], dmap := m'\<rparr>)"
    using False assms(2) m'(1) by (simp add: forget_keycode_def write_bit_ok ku)
  then show ?thesis using False m'(2,3) by simp
qed (use assms in \<open>simp add: forget_keycode_def\<close>)

text \<open>What \<open>ir_update_mapping\<close> makes of the entries.\<close>

definition changed :: "rc_map_table list \<Rightarrow> nat \<Rightarrow> u32 \<Rightarrow> rc_map_table list" where
  "changed es i new = (if new = KEY_RESERVED \<or> new = KEY_UNKNOWN then take i es @ drop (i + 1) es
     else es[i := (es ! i)\<lparr>keycode := new\<rparr>])"

lemma change_entry_ok:
  assumes "array_ok (dmap dev)" "i < tab_len (dmap dev)" "unat new < length (keybit dev)"
  shows "\<exists>dev'. change_entry i new dev = Some (keycode (used (dmap dev) ! i), dev')
     \<and> array_ok (dmap dev') \<and> used (dmap dev') = changed (used (dmap dev)) i new \<and> scanmask dev' = scanmask dev
     \<and> keybit dev' = (if new = KEY_RESERVED \<or> new = KEY_UNKNOWN then keybit dev else (keybit dev)[unat new := True])"
proof (cases "new = KEY_RESERVED \<or> new = KEY_UNKNOWN")
  case True
  let ?n = "tab_len (dmap dev)"
  have "?n + 2 ^ 32 - 1 = (?n - 1) + 2 ^ 32" "?n - 1 + 2 ^ 32 - i = (?n - 1 - i) + 2 ^ 32" using assms(2) by simp_all
  then have n: "(?n + 2 ^ 32 - 1) mod 2 ^ 32 = ?n - 1" "(?n - 1 + 2 ^ 32 - i) mod 2 ^ 32 = ?n - 1 - i"
    using tab_len_less [OF assms(1)] by (simp_all only: mod_add_self2) (simp_all)
  show ?thesis
    using delete_entry_ok [OF assms(1,2)] True unfolding change_entry_def Let_def n changed_def by auto
next
  case False
  then show ?thesis
    using update_entry_ok [OF assms(1,2), of "(used (dmap dev) ! i)\<lparr>keycode := new\<rparr>"] assms(3)
    by (auto simp: change_entry_def Let_def changed_def write_bit_ok)
qed

lemma keys_changed:
  assumes "i < length es"
  shows "keys (changed es i new) = keys (take i es @ drop (i + 1) es)
      \<union> (if new = KEY_RESERVED \<or> new = KEY_UNKNOWN then {} else {unat new})"
    and "keys es = keys (take i es @ drop (i + 1) es) \<union> (if keycode (es ! i) = KEY_RESERVED then {} else {unat (keycode (es ! i))})"
proof -
  show "keys (changed es i new) = keys (take i es @ drop (i + 1) es)
      \<union> (if new = KEY_RESERVED \<or> new = KEY_UNKNOWN then {} else {unat new})"
    using assms by (auto simp: changed_def upd_conv_take_nth_drop)
  have "keys es = keys (take i es @ es ! i # drop (Suc i) es)" using assms by (simp flip: id_take_nth_drop)
  then show "keys es = keys (take i es @ drop (i + 1) es) \<union> (if keycode (es ! i) = KEY_RESERVED then {} else {unat (keycode (es ! i))})"
    by auto
qed

lemma update_mapping_ok:
  assumes "array_ok (dmap dev)" "bits_ok dev" "i < tab_len (dmap dev)" "unat new < KEY_CNT" "allocates kmalloc"
  shows "\<exists>dev'. ir_update_mapping kmalloc i new dev = Some (keycode (used (dmap dev) ! i), dev')
     \<and> array_ok (dmap dev') \<and> used (dmap dev') = changed (used (dmap dev)) i new \<and> scanmask dev' = scanmask dev \<and> bits_ok dev'"
proof -
  let ?u = "used (dmap dev)" and ?old = "keycode (used (dmap dev) ! i)"
  define R where "R = keys (take i ?u @ drop (i + 1) ?u)"
  have i: "i < length ?u" using assms(1,3) by simp
  have b: "length (keybit dev) = KEY_CNT" "keys ?u \<subseteq> {..<KEY_CNT}" "\<forall>k<KEY_CNT. keybit dev ! k \<longleftrightarrow> k \<in> keys ?u"
    using assms(2) by (simp_all add: bits_ok_def)
  note K = keys_changed [OF i, folded R_def]
  have old: "unat ?old < KEY_CNT" using b(2) K(2) by (cases "?old = KEY_RESERVED") auto
  obtain d1 where d1: "change_entry i new dev = Some (?old, d1)" "array_ok (dmap d1)" "used (dmap d1) = changed ?u i new"
    "scanmask d1 = scanmask dev"
    "keybit d1 = (if new = KEY_RESERVED \<or> new = KEY_UNKNOWN then keybit dev else (keybit dev)[unat new := True])"
    using change_entry_ok [OF assms(1,3)] assms(4) b(1) by metis
  have l1: "length (keybit d1) = KEY_CNT" using d1(5) b(1) by simp
  obtain d2 where d2: "forget_keycode kmalloc ?old d1 = Some d2" "array_ok (dmap d2)" "used (dmap d2) = changed ?u i new"
    "scanmask d2 = scanmask dev"
    "keybit d2 = (if ?old = KEY_RESERVED then keybit d1 else (keybit d1)[unat ?old := unat ?old \<in> keys (changed ?u i new)])"
    using forget_keycode_ok [OF d1(2) _ assms(5)] old l1 d1(3,4) by metis
  have "keybit d2 = new_bits (keybit dev) ?old new (keys (changed ?u i new))" unfolding d2(5) d1(5) new_bits_def Let_def by simp
  moreover have "\<forall>k<KEY_CNT. keybit dev ! k \<longleftrightarrow> k \<in> R \<or> (?old \<noteq> KEY_RESERVED \<and> k = unat ?old)"
    using b(3) K(2) by auto
  ultimately have "\<forall>k<KEY_CNT. keybit d2 ! k \<longleftrightarrow> k \<in> keys (changed ?u i new)"
    using new_bits_ok [OF b(1) _ old assms(4) K(1)] by simp
  moreover have "keys (changed ?u i new) \<subseteq> {..<KEY_CNT}" using K b(2) assms(4) by auto
  ultimately have "bits_ok d2" using d2(3,5) l1 by (simp add: bits_ok_def)
  then show ?thesis using d1(1) d2 by (simp add: ir_update_mapping_def)
qed

section \<open>The finite map\<close>

definition amap :: "rc_map_table list \<Rightarrow> u32 \<rightharpoonup> u32" where
  "amap es = map_of (map pair_of es)"

abbreviation sorted_entries :: "rc_map_table list \<Rightarrow> bool" where
  "sorted_entries es \<equiv> sorted_wrt (<) (map scancode es)"

lemma entries_amap: "entries m = amap (used m)"
  by (simp add: entries_def amap_def)

lemma amap_append [simp]: "amap (xs @ ys) = amap ys ++ amap xs"
  by (simp add: amap_def)

lemma amap_Nil [simp]: "amap [] = Map.empty"
  by (simp add: amap_def)

lemma amap_Cons [simp]: "amap (e # es) = (amap es)(scancode e \<mapsto> keycode e)"
  by (simp add: amap_def pair_of_def)

lemma dom_amap: "dom (amap es) = scancode ` set es"
  by (auto simp: amap_def dom_map_of_conv_image_fst pair_of_def image_image)

lemma amap_notin: "s \<notin> scancode ` set es \<Longrightarrow> amap es s = None"
  using dom_amap [of es] by (auto simp: domIff)

lemma split_entry: "i < length es \<Longrightarrow> es = take i es @ es ! i # drop (i + 1) es"
  using id_take_nth_drop [of i es] by simp

lemma sorted_split:
  assumes "sorted_entries (xs @ e # ys)"
  shows "sorted_entries (xs @ ys)" "scancode e \<notin> scancode ` set xs" "scancode e \<notin> scancode ` set ys"
  using assms by (auto simp: sorted_wrt_append)

lemma amap_middle:
  assumes "scancode e \<notin> scancode ` set xs"
  shows "amap (xs @ e # ys) = (amap (xs @ ys))(scancode e \<mapsto> keycode e)"
  using amap_notin [OF assms] by (auto simp: map_add_def fun_eq_iff split: option.splits)

lemma amap_changed:
  assumes "sorted_entries es" "i < length es"
  shows "amap (changed es i new) = (amap es)(scancode (es ! i) := if new = KEY_RESERVED \<or> new = KEY_UNKNOWN then None else Some new)"
    and "sorted_entries (changed es i new)"
proof -
  let ?x = "take i es" and ?y = "drop (i + 1) es" and ?e = "es ! i"
  have es: "es = ?x @ ?e # ?y" using assms(2) by (rule split_entry)
  note sp = sorted_split [of ?x ?e ?y, folded es, OF assms(1)]
  have c: "changed es i new = (if new = KEY_RESERVED \<or> new = KEY_UNKNOWN then ?x @ ?y else ?x @ ?e\<lparr>keycode := new\<rparr> # ?y)"
    using assms(2) by (simp add: changed_def upd_conv_take_nth_drop)
  have m: "amap es = (amap (?x @ ?y))(scancode ?e \<mapsto> keycode ?e)" by (subst es) (rule amap_middle [OF sp(2)])
  have n: "amap (?x @ ?y) (scancode ?e) = None" using sp(2,3) by (intro amap_notin) auto
  show "amap (changed es i new) = (amap es)(scancode ?e := if new = KEY_RESERVED \<or> new = KEY_UNKNOWN then None else Some new)"
  proof (cases "new = KEY_RESERVED \<or> new = KEY_UNKNOWN")
    case True
    then show ?thesis unfolding c m using n by (auto simp: fun_eq_iff)
  next
    case False
    then show ?thesis unfolding c m using amap_middle [of "?e\<lparr>keycode := new\<rparr>" ?x ?y] sp(2) by simp
  qed
  have "map scancode (?x @ ?e\<lparr>keycode := new\<rparr> # ?y) = map scancode (?x @ ?e # ?y)" by simp
  then show "sorted_entries (changed es i new)" unfolding c using sp(1) assms(1) [unfolded arg_cong [OF es, of "map scancode"]] by simp
qed

lemma sorted_insert:
  assumes "sorted_entries es" "i \<le> length es" "\<forall>l\<in>{0..<i}. scancode (es ! l) < scancode e"
    and "i < length es \<longrightarrow> scancode e < scancode (es ! i)"
  shows "sorted_entries (take i es @ e # drop i es)" "scancode e \<notin> scancode ` set es"
    "amap (take i es @ e # drop i es) = (amap es)(scancode e \<mapsto> keycode e)"
proof -
  have es: "es = take i es @ drop i es" by simp
  have lo: "\<forall>x\<in>set (take i es). scancode x < scancode e"
    using assms(2,3) by (auto simp: in_set_conv_nth)
  have hi: "\<forall>x\<in>set (drop i es). scancode e < scancode x"
  proof (cases "i < length es")
    case True
    then have d: "drop i es = es ! i # drop (Suc i) es" by (simp add: Cons_nth_drop_Suc)
    have "sorted_entries (drop i es)" using sorted_wrt_drop [OF assms(1), of i] by (simp add: drop_map)
    then show ?thesis using assms(4) True unfolding d by auto
  qed simp
  have "sorted_entries (take i es @ drop i es)" using assms(1) by simp
  then show "sorted_entries (take i es @ e # drop i es)"
    using lo hi unfolding map_append sorted_wrt_append by fastforce
  show "scancode e \<notin> scancode ` set es" using lo hi by (subst es) (auto simp del: append_take_drop_id)
  have "scancode e \<notin> scancode ` set (take i es)" using lo by auto
  from amap_middle [OF this, of "drop i es"] show "amap (take i es @ e # drop i es) = (amap es)(scancode e \<mapsto> keycode e)"
    by (simp del: amap_append)
qed

definition masked :: "map_dev \<Rightarrow> u32 \<Rightarrow> u32" where
  "masked dev s = (if scanmask dev \<noteq> 0 then s AND scanmask dev else s)"

text \<open>A device whose table and bitmap are well-formed.\<close>

definition dev_ok :: "map_dev \<Rightarrow> bool" where
  "dev_ok dev \<longleftrightarrow> tab_ok (dmap dev) \<and> bits_ok dev"

lemma bits_ok_keys: "keys (used m) = keys (used (dmap dev)) \<Longrightarrow> bits_ok dev \<Longrightarrow> bits_ok (dev\<lparr>dmap := m\<rparr>)"
  by (simp add: bits_ok_def)

lemma insert_slot_sorted:
  assumes "array_ok m" "used m = u" "tab_len m < tab_size m" "i \<le> length u" "sorted_entries u"
    and "\<forall>l\<in>{0..<i}. scancode (u ! l) < k" "i < length u \<longrightarrow> k < scancode (u ! i)"
  obtains m' where "insert_slot i k m = Some m'" "tab_ok m'" "i < tab_len m'"
    "used m' = take i u @ \<lparr>scancode = k, keycode = KEY_RESERVED\<rparr> # drop i u"
proof -
  obtain m' where m': "insert_slot i k m = Some m'" "array_ok m'" "tab_len m' = tab_len m + 1"
    "used m' = take i u @ \<lparr>scancode = k, keycode = KEY_RESERVED\<rparr> # drop i u"
    using insert_slot_ok [OF assms(1,3), of i k] assms(2,4) used_length [OF assms(1)] by auto
  moreover have "sorted_entries (used m')"
    unfolding m'(4) using assms(4-7) by (intro sorted_insert(1)) simp_all
  moreover have "i < tab_len m'" using m'(3) assms(1,2,4) by auto
  ultimately show thesis by (intro that) (simp_all add: tab_ok_def)
qed

lemma establish_cases:
  fixes s :: u32
  assumes "dev_ok dev" "allocates kmalloc"
  defines "u \<equiv> used (dmap dev)" and "k \<equiv> masked dev s"
  obtains
    (found) i where "ir_establish_scancode kmalloc s resize dev = Some (i, dev)" "i < tab_len (dmap dev)" "scancode (u ! i) = k"
  | (full) m where "ir_establish_scancode kmalloc s resize dev = Some (no_index, dev\<lparr>dmap := m\<rparr>)" "tab_ok m" "used m = u"
      "k \<notin> dom (entries (dmap dev))" "tab_size (dmap dev) = tab_len (dmap dev)"
  | (new) i m where "ir_establish_scancode kmalloc s resize dev = Some (i, dev\<lparr>dmap := m\<rparr>)" "tab_ok m" "i < tab_len m"
      "k \<notin> dom (entries (dmap dev))" "used m = take i u @ \<lparr>scancode = k, keycode = KEY_RESERVED\<rparr> # drop i u" "i \<le> length u"
proof -
  have a: "array_ok (dmap dev)" and so: "sorted_entries u" using assms(1) by (simp_all add: dev_ok_def tab_ok_def u_def)
  let ?n = "tab_len (dmap dev)"
  have len: "length u = ?n" using a by (simp add: u_def)
  obtain j f where j: "establish_scan (dmap dev) k 0 ?n = Some (j, f)" "j \<le> ?n" "\<forall>l\<in>{0..<j}. scancode (u ! l) < k"
    "if f then j < ?n \<and> scancode (u ! j) = k else j < ?n \<longrightarrow> k < scancode (u ! j)"
    using establish_scan_ok [OF a, of 0 ?n k] unfolding u_def [symmetric] add_0 by blast
  note def = ir_establish_scancode_def [of kmalloc s resize dev, folded masked_def, unfolded Let_def, folded k_def]
  show thesis
  proof (cases f)
    case True
    then have "j < ?n" "scancode (u ! j) = k" using j(4) by auto
    then show ?thesis using j(1) True by (intro found) (simp_all add: def)
  next
    case False
    have gt: "j < length u \<longrightarrow> k < scancode (u ! j)" using j(4) False len by simp
    have nd: "k \<notin> dom (entries (dmap dev))"
      using sorted_insert(2) [of u j "\<lparr>scancode = k, keycode = KEY_RESERVED\<rparr>"] so j(2,3) gt len
      by (simp add: entries_amap dom_amap u_def)
    define res where "res = (if tab_size (dmap dev) = ?n then (if \<not> resize then Some (- 1, dmap dev)
        else ir_resize_table kmalloc (dmap dev)) else Some (0, dmap dev))"
    have eq: "ir_establish_scancode kmalloc s resize dev = res \<bind> (\<lambda>(r, m).
        if r \<noteq> 0 then Some (no_index, dev\<lparr>dmap := m\<rparr>) else insert_slot j k m \<bind> (\<lambda>m. Some (j, dev\<lparr>dmap := m\<rparr>)))"
      unfolding def res_def using j(1) False by simp
    obtain r m where r: "res = Some (r, m)" "array_ok m" "used m = u" "r \<noteq> 0 \<longrightarrow> tab_size (dmap dev) = ?n" "r = 0 \<longrightarrow> tab_len m < tab_size m"
      using resize_ok [OF a assms(2)] a unfolding res_def u_def
      by (cases "tab_size (dmap dev) = ?n"; cases resize) (auto simp: array_ok_def split: option.splits)
    show ?thesis
    proof (cases "r = 0")
      case True
      then show ?thesis using r j(2,3) len gt so eq nd
        by (elim insert_slot_sorted [of m u j k]) (auto intro!: new)
    next
      case False
      then show ?thesis using r eq nd so by (intro full) (auto simp: tab_ok_def)
    qed
  qed
qed

section \<open>Lookup\<close>

lemma amap_nth: "sorted_entries es \<Longrightarrow> i < length es \<Longrightarrow> amap es (scancode (es ! i)) = Some (keycode (es ! i))"
proof -
  assume s: "sorted_entries es" and i: "i < length es"
  note es = split_entry [OF i]
  have "scancode (es ! i) \<notin> scancode ` set (take i es)"
    using s by (subst (asm) es) (rule sorted_split(2))
  from amap_middle [OF this, of "drop (i + 1) es", folded es] show ?thesis by simp
qed

lemma sorted_nth_less:
  "sorted_entries es \<Longrightarrow> i < j \<Longrightarrow> j < length es \<Longrightarrow> scancode (es ! i) < scancode (es ! j)"
  using sorted_wrt_nth_less [of "(<)" "map scancode es" i j] by simp

lemma lookup_loop_ok:
  assumes "tab_ok m" "0 \<le> a" "b < int (tab_len m)"
    and "\<forall>i<tab_len m. scancode (used m ! i) = s \<longrightarrow> a \<le> int i \<and> int i \<le> b"
  shows "\<exists>i. lookup_loop m s a b = Some i
    \<and> (if \<exists>j<tab_len m. scancode (used m ! j) = s then i < tab_len m \<and> scancode (used m ! i) = s else i = no_index)"
  using assms
proof (induction m s a b rule: lookup_loop.induct)
  case (1 m s a b)
  let ?u = "used m" and ?mid = "(a + b) div 2"
  have ok: "array_ok m" "sorted_entries ?u" "length ?u = tab_len m" using "1.prems"(1) by (simp_all add: tab_ok_def)
  show ?case
  proof (cases "a \<le> b")
    case False
    then have "lookup_loop m s a b = Some no_index" by (subst lookup_loop.simps) simp
    then show ?thesis using "1.prems"(4) False by auto
  next
    case True
    define i where "i = nat ?mid"
    have mid: "a \<le> ?mid" "?mid \<le> b" using True by auto
    then have i: "int i = ?mid" "i < tab_len m" using "1.prems"(2,3) by (auto simp: i_def)
    have e: "entry_at m (nat ?mid) = Some (?u ! i)" using entry_at_used [OF ok(1) i(2)] by (simp add: i_def)
    have eq: "lookup_loop m s a b = (if scancode (?u ! i) < s then lookup_loop m s (?mid + 1) b
        else if s < scancode (?u ! i) then lookup_loop m s a (?mid - 1) else Some i)"
      using True e by (subst lookup_loop.simps) (simp add: Let_def i_def)
    consider (lt) "scancode (?u ! i) < s" | (gt) "s < scancode (?u ! i)" | (eq) "scancode (?u ! i) = s" by force
    then show ?thesis
    proof cases
      case lt
      have "\<forall>j<tab_len m. scancode (?u ! j) = s \<longrightarrow> ?mid + 1 \<le> int j \<and> int j \<le> b"
      proof (intro allI impI conjI)
        fix j assume j: "j < tab_len m" "scancode (?u ! j) = s"
        then have "i < j" using lt sorted_nth_less [OF ok(2), of j i] i(2) ok(3) by (cases i j rule: linorder_cases) auto
        then show "?mid + 1 \<le> int j" using i(1) by simp
        show "int j \<le> b" using "1.prems"(4) j by blast
      qed
      then show ?thesis
        using "1.IH"(1) [OF True refl e lt "1.prems"(1)] "1.prems"(2,3) mid lt unfolding eq by simp
    next
      case gt
      have "\<forall>j<tab_len m. scancode (?u ! j) = s \<longrightarrow> a \<le> int j \<and> int j \<le> ?mid - 1"
      proof (intro allI impI conjI)
        fix j assume j: "j < tab_len m" "scancode (?u ! j) = s"
        then have "j < i" using gt sorted_nth_less [OF ok(2), of i j] ok(3) by (cases i j rule: linorder_cases) auto
        then show "int j \<le> ?mid - 1" using i(1) by simp
        show "a \<le> int j" using "1.prems"(4) j by blast
      qed
      then show ?thesis
        using "1.IH"(2) [OF True refl e _ gt "1.prems"(1)] "1.prems"(2,3) mid gt unfolding eq by auto
    next
      case eq
      then show ?thesis using i(2) \<open>lookup_loop m s a b = _\<close> by auto
    qed
  qed
qed

lemma lookup_ok:
  assumes "tab_ok m"
  shows "\<exists>i. ir_lookup_by_scancode m s = Some i
    \<and> (case entries m s of None \<Rightarrow> i = no_index | Some k \<Rightarrow> i < tab_len m \<and> used m ! i = \<lparr>scancode = s, keycode = k\<rparr>)"
proof -
  have ok: "array_ok m" "sorted_entries (used m)" "length (used m) = tab_len m" using assms by (simp_all add: tab_ok_def)
  obtain i where i: "ir_lookup_by_scancode m s = Some i"
    "if \<exists>j<tab_len m. scancode (used m ! j) = s then i < tab_len m \<and> scancode (used m ! i) = s else i = no_index"
    using lookup_loop_ok [OF assms, of 0 "int (tab_len m) - 1" s] by (auto simp: ir_lookup_by_scancode_def)
  show ?thesis
  proof (cases "\<exists>j<tab_len m. scancode (used m ! j) = s")
    case True
    then have "i < tab_len m" "scancode (used m ! i) = s" using i(2) by auto
    then show ?thesis using amap_nth [OF ok(2), of i] ok(3) i(1) by (simp add: entries_amap)
  next
    case False
    then have "s \<notin> scancode ` set (used m)" using ok(3) by (auto simp: in_set_conv_nth)
    then show ?thesis using amap_notin i False by (simp add: entries_amap)
  qed
qed

lemma keycode_lookup:
  assumes "tab_ok m"
  shows "rc_g_keycode_from_table m s = Some (case entries m s of None \<Rightarrow> KEY_RESERVED | Some k \<Rightarrow> k)"
proof -
  have a: "array_ok m" using assms by (simp add: tab_ok_def)
  show ?thesis
    using lookup_ok [OF assms, of s] tab_len_less [OF a] entry_at_used [OF a]
    by (auto simp: rc_g_keycode_from_table_def split: option.splits)
qed

section \<open>Setting a keycode\<close>

definition assigned :: "u32 \<Rightarrow> u32 option" where
  "assigned k = (if k = KEY_RESERVED \<or> k = KEY_UNKNOWN then None else Some k)"

definition key_of :: "u32 option \<Rightarrow> u32" where
  "key_of r = (case r of None \<Rightarrow> KEY_RESERVED | Some k \<Rightarrow> k)"

lemma update_mapping_entries:
  assumes "dev_ok dev" "i < tab_len (dmap dev)" "unat new < KEY_CNT" "allocates kmalloc"
  shows "\<exists>dev'. ir_update_mapping kmalloc i new dev = Some (keycode (used (dmap dev) ! i), dev') \<and> dev_ok dev'
    \<and> scanmask dev' = scanmask dev
    \<and> entries (dmap dev') = (entries (dmap dev))(scancode (used (dmap dev) ! i) := assigned new)"
proof -
  let ?u = "used (dmap dev)"
  have ok: "array_ok (dmap dev)" "sorted_entries ?u" "i < length ?u" "bits_ok dev"
    using assms(1,2) by (simp_all add: dev_ok_def tab_ok_def)
  obtain dev' where "ir_update_mapping kmalloc i new dev = Some (keycode (?u ! i), dev')" "array_ok (dmap dev')"
    "used (dmap dev') = changed ?u i new" "scanmask dev' = scanmask dev" "bits_ok dev'"
    using update_mapping_ok [OF ok(1,4) assms(2-4)] by blast
  then show ?thesis
    using amap_changed [OF ok(2,3), of new] by (simp add: dev_ok_def tab_ok_def entries_amap assigned_def)
qed

text \<open>After \<open>ir_establish_scancode\<close> the device is well-formed; the new slot counts as a mapping to \<open>KEY_RESERVED\<close>.\<close>

lemma establish_ok:
  assumes "dev_ok dev" "allocates kmalloc"
  shows "\<exists>i dev'. ir_establish_scancode kmalloc s resize dev = Some (i, dev') \<and> dev_ok dev' \<and> scanmask dev' = scanmask dev
    \<and> (if i < tab_len (dmap dev') then scancode (used (dmap dev') ! i) = masked dev s
         \<and> keycode (used (dmap dev') ! i) = key_of (entries (dmap dev) (masked dev s))
         \<and> (\<forall>v. (entries (dmap dev'))(masked dev s := v) = (entries (dmap dev))(masked dev s := v))
       else entries (dmap dev') = entries (dmap dev) \<and> masked dev s \<notin> dom (entries (dmap dev))
         \<and> tab_size (dmap dev) = tab_len (dmap dev))"
  using assms
proof (cases rule: establish_cases [where s = s and resize = resize])
  case (found i)
  then show ?thesis
    using assms(1) amap_nth [of "used (dmap dev)" i] by (auto simp: dev_ok_def tab_ok_def entries_amap key_of_def)
next
  case (full m)
  then have "tab_len m < 2 ^ 29" using tab_len_less by (simp add: tab_ok_def)
  then show ?thesis using full assms(1) by (auto simp: dev_ok_def entries_amap intro: bits_ok_keys)
next
  case (new i m)
  let ?u = "used (dmap dev)" and ?e = "\<lparr>scancode = masked dev s, keycode = KEY_RESERVED\<rparr>"
  have nth: "used m ! i = ?e" using new(5,6) by (simp add: nth_append)
  have "keys (used m) = keys ?u" using keys_append [of "take i ?u" "drop i ?u"] unfolding new(5) by (simp del: keys_append) simp
  then have "dev_ok (dev\<lparr>dmap := m\<rparr>)" using assms(1) new(2) bits_ok_keys by (simp add: dev_ok_def)
  moreover have "masked dev s \<notin> scancode ` set (take i ?u)"
    using new(4) set_take_subset [of i ?u] by (auto simp: entries_amap dom_amap)
  then have "amap (used m) = (amap ?u)(masked dev s \<mapsto> KEY_RESERVED)"
    using amap_middle [of ?e "take i ?u" "drop i ?u"] unfolding new(5) by (simp del: amap_append)
  ultimately show ?thesis using new(1,3,4) nth by (auto simp: entries_amap key_of_def domIff)
qed

text \<open>The scancode a request is about: the one with the index, or the one given, masked.\<close>

definition target :: "to_scalar \<Rightarrow> input_keymap_entry \<Rightarrow> map_dev \<Rightarrow> u32 option" where
  "target scalar ke dev =
     (if by_index ke then
        if unat (ke_index ke) < tab_len (dmap dev) then Some (scancode (used (dmap dev) ! unat (ke_index ke))) else None
      else case scalar ke of Inl _ \<Rightarrow> None | Inr s \<Rightarrow> Some (masked dev s))"

lemma setkeycode_cases:
  assumes "dev_ok dev" "allocates kmalloc1" "allocates kmalloc2" "unat (ke_keycode ke) < KEY_CNT" "scalar ke \<noteq> Inl 0"
  shows "\<exists>r old dev'. ir_setkeycode kmalloc1 kmalloc2 scalar ke dev = Some (r, old, dev') \<and> dev_ok dev' \<and> scanmask dev' = scanmask dev
    \<and> (if r = 0 then \<exists>s. target scalar ke dev = Some s \<and> old = Some (key_of (entries (dmap dev) s))
           \<and> entries (dmap dev') = (entries (dmap dev))(s := assigned (ke_keycode ke))
       else old = None \<and> entries (dmap dev') = entries (dmap dev)
         \<and> (case target scalar ke dev of
              Some s \<Rightarrow> r = - ENOMEM \<and> s \<notin> dom (entries (dmap dev)) \<and> tab_size (dmap dev) = tab_len (dmap dev)
            | None \<Rightarrow> Inl r = (if by_index ke then Inl (- EINVAL) else scalar ke)))"
proof (cases "by_index ke")
  case True
  let ?i = "unat (ke_index ke)"
  show ?thesis
  proof (cases "?i < tab_len (dmap dev)")
    case False
    then show ?thesis using True assms(1) by (simp add: ir_setkeycode_def target_def)
  next
    case lt: True
    have "sorted_entries (used (dmap dev))" "?i < length (used (dmap dev))"
      using assms(1) lt by (simp_all add: dev_ok_def tab_ok_def)
    then have "keycode (used (dmap dev) ! ?i) = key_of (entries (dmap dev) (scancode (used (dmap dev) ! ?i)))"
      by (simp add: entries_amap amap_nth key_of_def)
    then show ?thesis
      using update_mapping_entries [OF assms(1) lt assms(4,3)] True lt by (auto simp: ir_setkeycode_def target_def)
  qed
next
  case False
  show ?thesis
  proof (cases "scalar ke")
    case (Inl err)
    then show ?thesis using False assms(1,5) by (simp add: ir_setkeycode_def target_def)
  next
    case (Inr s)
    obtain i d where d: "ir_establish_scancode kmalloc1 s True dev = Some (i, d)" "dev_ok d" "scanmask d = scanmask dev"
      "if i < tab_len (dmap d) then scancode (used (dmap d) ! i) = masked dev s
         \<and> keycode (used (dmap d) ! i) = key_of (entries (dmap dev) (masked dev s))
         \<and> (\<forall>v. (entries (dmap d))(masked dev s := v) = (entries (dmap dev))(masked dev s := v))
       else entries (dmap d) = entries (dmap dev) \<and> masked dev s \<notin> dom (entries (dmap dev))
         \<and> tab_size (dmap dev) = tab_len (dmap dev)"
      using establish_ok [OF assms(1,2)] by blast
    show ?thesis
    proof (cases "i < tab_len (dmap d)")
      case True
      then show ?thesis
        using update_mapping_entries [OF d(2) True assms(4,3)] d False Inr by (auto simp: ir_setkeycode_def target_def)
    next
      case f: False
      then show ?thesis using d False Inr by (simp add: ir_setkeycode_def target_def)
    qed
  qed
qed
end
