(* ===== verification/Rc_Keytable.thy ===== *)
theory Rc_Keytable
  imports Rc_Map
begin

text \<open>
  What the scancode tables promise to the rest of the remote control core: the contract of a map from
  scancodes to keycodes, the loading of a keymap, and the life of a table from its allocation to its release.
\<close>

section \<open>The contract\<close>

text \<open>A table is assigned keycodes one at a time; a lookup answers with the keycode assigned last. The
  scancode of an assignment is normalised first.\<close>

locale scancode_map =
  fixes ok :: "'d \<Rightarrow> bool"
    and content :: "'d \<Rightarrow> u32 \<rightharpoonup> u32"
    and norm :: "'d \<Rightarrow> u32 \<Rightarrow> u32"
    and assign :: "u32 \<Rightarrow> u32 \<Rightarrow> 'd \<Rightarrow> 'd \<Rightarrow> bool"
    and find_key :: "'d \<Rightarrow> u32 \<Rightarrow> u32 option"
  assumes assign_ok: "\<lbrakk>ok d; assign s k d d'\<rbrakk> \<Longrightarrow> ok d'"
    and assign_norm: "\<lbrakk>ok d; assign s k d d'\<rbrakk> \<Longrightarrow> norm d' = norm d"
    and assign_content: "\<lbrakk>ok d; assign s k d d'\<rbrakk> \<Longrightarrow> content d' = (content d)(norm d s := assigned k)"
    and find_content: "ok d \<Longrightarrow> find_key d s = Some (key_of (content d s))"
begin

text \<open>A sequence of assignments, and the keycode the last of them gives to a scancode.\<close>

fun assigns :: "(u32 \<times> u32) list \<Rightarrow> 'd \<Rightarrow> 'd \<Rightarrow> bool" where
  "assigns [] d d' \<longleftrightarrow> d' = d"
| "assigns ((s, k) # as) d d' \<longleftrightarrow> (\<exists>d1. assign s k d d1 \<and> assigns as d1 d')"

lemma assigns_content:
  "ok d \<Longrightarrow> assigns as d d' \<Longrightarrow> ok d' \<and> norm d' = norm d
    \<and> content d' = fold (\<lambda>(s, k) c. c(norm d s := assigned k)) as (content d)"
proof (induction as arbitrary: d)
  case (Cons a as)
  obtain s k where a: "a = (s, k)" by (cases a)
  obtain d1 where d1: "assign s k d d1" "assigns as d1 d'" using Cons.prems(2) by (auto simp: a)
  show ?case
    using Cons.IH [OF assign_ok [OF Cons.prems(1) d1(1)] d1(2)] assign_norm [OF Cons.prems(1) d1(1)]
      assign_content [OF Cons.prems(1) d1(1)] by (simp add: a)
qed simp

lemma find_after_assigns:
  assumes "ok d" "assigns (as @ (s, k) # bs) d d'" "\<forall>(s', k')\<in>set bs. norm d s' \<noteq> norm d s"
  shows "find_key d' (norm d s) = Some (key_of (assigned k))"
proof -
  have keep: "fold (\<lambda>(s, k) c. c(norm d s := assigned k)) xs c (norm d s) = c (norm d s)"
    if "\<forall>(s', k')\<in>set xs. norm d s' \<noteq> norm d s" for xs c
    using that by (induction xs arbitrary: c) auto
  have ok: "ok d'" "content d' = fold (\<lambda>(s, k) c. c(norm d s := assigned k)) (as @ (s, k) # bs) (content d)"
    using assigns_content [OF assms(1,2)] by simp_all
  show ?thesis using find_content [OF ok(1)] keep [OF assms(3)] ok(2) by simp
qed

end

text \<open>The table of the code: a successful call of \<open>ir_setkeycode\<close> with a scancode.\<close>

definition set_scancode :: "u32 \<Rightarrow> u32 \<Rightarrow> map_dev \<Rightarrow> map_dev \<Rightarrow> bool" where
  "set_scancode s k dev dev' \<longleftrightarrow>
     (\<exists>kmalloc1 kmalloc2 ke old. allocates kmalloc1 \<and> allocates kmalloc2 \<and> \<not> by_index ke \<and> ke_keycode ke = k
        \<and> unat k < KEY_CNT \<and> ir_setkeycode kmalloc1 kmalloc2 (\<lambda>_. Inr s) ke dev = Some (0, old, dev'))"

interpretation tab: scancode_map dev_ok "\<lambda>dev. entries (dmap dev)" masked set_scancode "\<lambda>dev. rc_g_keycode_from_table (dmap dev)"
proof
  fix dev dev' s k
  assume ok: "dev_ok dev" and set: "set_scancode s k dev dev'"
  obtain kmalloc1 kmalloc2 ke old where c: "allocates kmalloc1" "allocates kmalloc2" "\<not> by_index ke" "ke_keycode ke = k"
    "unat k < KEY_CNT" "ir_setkeycode kmalloc1 kmalloc2 (\<lambda>_. Inr s) ke dev = Some (0, old, dev')"
    using set by (auto simp: set_scancode_def)
  have *: "dev_ok dev' \<and> scanmask dev' = scanmask dev \<and> entries (dmap dev') = (entries (dmap dev))(masked dev s := assigned k)"
    using setkeycode_cases [OF ok c(1,2), of ke "\<lambda>_. Inr s"] c(3-6) by (auto simp: target_def)
  then show "dev_ok dev'" "entries (dmap dev') = (entries (dmap dev))(masked dev s := assigned k)" by simp_all
  show "masked dev' = masked dev" using * by (auto simp: masked_def)
next
  fix dev s
  assume "dev_ok dev"
  then show "rc_g_keycode_from_table (dmap dev) s = Some (key_of (entries (dmap dev) s))"
    using keycode_lookup by (simp add: dev_ok_def key_of_def)
qed

section \<open>Loading a keymap\<close>

text \<open>The map after entries have been loaded in order.\<close>

fun loaded :: "(u32 \<Rightarrow> u32) \<Rightarrow> rc_map_table list \<Rightarrow> (u32 \<rightharpoonup> u32) \<Rightarrow> (u32 \<rightharpoonup> u32)" where
  "loaded f [] c = c"
| "loaded f (e # es) c = loaded f es (c(f (scancode e) \<mapsto> keycode e))"

lemma insert_slot_size: "insert_slot i s m = Some m' \<Longrightarrow> tab_size m' = tab_size m \<and> tab_len m' = tab_len m + 1"
  by (auto simp: insert_slot_def bind_eq_Some_conv)

lemma establish_size:
  assumes "ir_establish_scancode kmalloc s resize dev = Some (i, dev')" "tab_size (dmap dev) \<noteq> tab_len (dmap dev)"
  shows "tab_size (dmap dev') = tab_size (dmap dev)" "tab_len (dmap dev') \<le> tab_len (dmap dev) + 1"
  using assms by (auto simp: ir_establish_scancode_def Let_def bind_eq_Some_conv split: if_splits dest: insert_slot_size)

lemma update_mapping_size:
  assumes "ir_update_mapping kmalloc i new dev = Some (KEY_RESERVED, dev')" "assigned new \<noteq> None"
  shows "tab_size (dmap dev') = tab_size (dmap dev)" "tab_len (dmap dev') = tab_len (dmap dev)"
  using assms by (auto simp: ir_update_mapping_def change_entry_def forget_keycode_def assigned_def Let_def
      write_bit_def bind_eq_Some_conv split: if_splits)

lemma full_size: "dev_ok dev \<Longrightarrow> tab_len (dmap dev) \<le> tab_size (dmap dev)"
  by (simp add: dev_ok_def tab_ok_def array_ok_def)

lemma found_dom: "dev_ok dev \<Longrightarrow> j < tab_len (dmap dev) \<Longrightarrow> scancode (used (dmap dev) ! j) \<in> dom (entries (dmap dev))"
  by (auto simp: entries_amap dom_amap dev_ok_def tab_ok_def intro!: imageI nth_mem)

lemma establish_full:
  "ir_establish_scancode kmalloc s False dev = Some (i, d) \<Longrightarrow> tab_size (dmap dev) = tab_len (dmap dev) \<Longrightarrow> d = dev"
  by (auto simp: ir_establish_scancode_def Let_def bind_eq_Some_conv split: if_splits)

text \<open>One round of the loop, for a scancode that is not in the table.\<close>

lemma load_entry:
  assumes "dev_ok dev" "masked dev s \<notin> dom (entries (dmap dev))" "tab_len (dmap dev) < tab_size (dmap dev)"
    and "assigned k \<noteq> None" "unat k < KEY_CNT" "allocates kmalloc"
  obtains i dev1 dev2 where "ir_establish_scancode (\<lambda>_. None) s False dev = Some (i, dev1)" "i < tab_len (dmap dev1)"
    "ir_update_mapping kmalloc i k dev1 = Some (KEY_RESERVED, dev2)" "dev_ok dev2" "scanmask dev2 = scanmask dev"
    "tab_size (dmap dev2) = tab_size (dmap dev)" "tab_len (dmap dev2) = tab_len (dmap dev) + 1"
    "entries (dmap dev2) = (entries (dmap dev))(masked dev s \<mapsto> k)"
proof -
  have al: "allocates (\<lambda>_. None)" by (simp add: allocates_def)
  have key: "key_of (entries (dmap dev) (masked dev s)) = KEY_RESERVED" using assms(2) by (simp add: key_of_def domIff)
  obtain i d where d: "ir_establish_scancode (\<lambda>_. None) s False dev = Some (i, d)" "dev_ok d" "scanmask d = scanmask dev"
    "if i < tab_len (dmap d) then scancode (used (dmap d) ! i) = masked dev s
         \<and> keycode (used (dmap d) ! i) = key_of (entries (dmap dev) (masked dev s))
         \<and> (\<forall>v. (entries (dmap d))(masked dev s := v) = (entries (dmap dev))(masked dev s := v))
       else entries (dmap d) = entries (dmap dev) \<and> masked dev s \<notin> dom (entries (dmap dev))
         \<and> tab_size (dmap dev) = tab_len (dmap dev)"
    using establish_ok [OF assms(1) al] by blast
  have i: "i < tab_len (dmap d)" using d(4) assms(3) by (auto split: if_splits)
  have d4: "scancode (used (dmap d) ! i) = masked dev s" "keycode (used (dmap d) ! i) = KEY_RESERVED"
    "\<And>v. (entries (dmap d))(masked dev s := v) = (entries (dmap dev))(masked dev s := v)"
    using d(4) i key by auto
  obtain d2 where d2: "ir_update_mapping kmalloc i k d = Some (KEY_RESERVED, d2)" "dev_ok d2" "scanmask d2 = scanmask dev"
    "entries (dmap d2) = (entries (dmap dev))(masked dev s \<mapsto> k)"
    using update_mapping_entries [OF d(2) i assms(5,6)] d(3) d4 assms(4) by (auto simp: assigned_def split: if_splits)
  have "tab_len (dmap d) = tab_len (dmap dev) + 1"
    using assms(1) al
  proof (cases rule: establish_cases [where s = s and resize = False])
    case (found j)
    then show ?thesis using found_dom [OF assms(1) found(2)] assms(2) by simp
  next
    case (full m)
    then show ?thesis using assms(3) by simp
  next
    case (new j m)
    have "array_ok m" "array_ok (dmap dev)" using new(2) assms(1) by (simp_all add: tab_ok_def dev_ok_def)
    then have "tab_len m = tab_len (dmap dev) + 1" using used_length [of m] new(5,6) by simp
    then show ?thesis using new(1) d(1) by simp
  qed
  then show thesis
    using that d(1) i d2 update_mapping_size [OF d2(1) assms(4)] establish_size [OF d(1)] assms(3) by simp
qed

lemma setkeytable_fresh:
  assumes "dev_ok dev" "distinct (map (masked dev \<circ> scancode) es)" "\<forall>i. allocates (kmalloc i)"
    and "\<forall>e\<in>set es. masked dev (scancode e) \<notin> dom (entries (dmap dev)) \<and> assigned (keycode e) \<noteq> None \<and> unat (keycode e) < KEY_CNT"
  shows "\<exists>dev'. setkeytable_loop kmalloc es dev =
      Some (if tab_len (dmap dev) + length es \<le> tab_size (dmap dev) then 0 else - ENOMEM, dev')
    \<and> dev_ok dev' \<and> scanmask dev' = scanmask dev
    \<and> (tab_len (dmap dev) + length es \<le> tab_size (dmap dev) \<longrightarrow>
         entries (dmap dev') = loaded (masked dev) es (entries (dmap dev)))"
  using assms
proof (induction es arbitrary: dev kmalloc)
  case Nil
  then show ?case using full_size by simp
next
  case (Cons e es)
  have al: "allocates (\<lambda>_. None)" by (simp add: allocates_def)
  have e: "masked dev (scancode e) \<notin> dom (entries (dmap dev))" "assigned (keycode e) \<noteq> None" "unat (keycode e) < KEY_CNT"
    using Cons.prems(4) by simp_all
  show ?case
  proof (cases "tab_len (dmap dev) < tab_size (dmap dev)")
    case True
    obtain i d d2 where st: "ir_establish_scancode (\<lambda>_. None) (scancode e) False dev = Some (i, d)" "i < tab_len (dmap d)"
      "ir_update_mapping (kmalloc 0) i (keycode e) d = Some (KEY_RESERVED, d2)" "dev_ok d2" "scanmask d2 = scanmask dev"
      "tab_size (dmap d2) = tab_size (dmap dev)" "tab_len (dmap d2) = tab_len (dmap dev) + 1"
      "entries (dmap d2) = (entries (dmap dev))(masked dev (scancode e) \<mapsto> keycode e)"
      using load_entry [OF Cons.prems(1) e(1) True e(2,3)] Cons.prems(3) by metis
    have m: "masked d2 = masked dev" using st(5) by (auto simp: masked_def)
    have eq: "setkeytable_loop kmalloc (e # es) dev = setkeytable_loop (\<lambda>i. kmalloc (Suc i)) es d2"
      using st(1-3) by simp
    have ne: "\<forall>e'\<in>set es. masked dev (scancode e') \<noteq> masked dev (scancode e)"
      using Cons.prems(2) unfolding list.map distinct.simps comp_def set_map by (metis image_eqI)
    have *: "\<forall>e'\<in>set es. masked d2 (scancode e') \<notin> dom (entries (dmap d2)) \<and> assigned (keycode e') \<noteq> None \<and> unat (keycode e') < KEY_CNT"
      unfolding m st(8) using ne Cons.prems(4) by auto
    have dis: "distinct (map (masked d2 \<circ> scancode) es)" using Cons.prems(2) unfolding m list.map distinct.simps ..
    have n: "tab_len (dmap dev) + 1 + length es = tab_len (dmap dev) + length (e # es)" by simp
    show ?thesis
      using Cons.IH [OF st(4) dis _ *, of "\<lambda>i. kmalloc (Suc i)"] Cons.prems(3)
      unfolding m st(5-8) eq loaded.simps n by blast
  next
    case False
    then have full: "tab_size (dmap dev) = tab_len (dmap dev)" using full_size [OF Cons.prems(1)] by simp
    obtain i d where d: "ir_establish_scancode (\<lambda>_. None) (scancode e) False dev = Some (i, d)"
      "i < tab_len (dmap d) \<longrightarrow> scancode (used (dmap d) ! i) = masked dev (scancode e)"
      using establish_ok [OF Cons.prems(1) al, of "scancode e" False] by (auto split: if_splits)
    have "\<not> i < tab_len (dmap dev)"
      using d found_dom [OF Cons.prems(1), of i] e(1) establish_full [OF d(1) full] by auto
    then show ?thesis using d(1) establish_full [OF d(1) full] full Cons.prems(1) by simp
  qed
qed

text \<open>A table that has just been created is empty, if the fields were cleared before.\<close>

definition no_keys :: "map_dev \<Rightarrow> bool" where
  "no_keys dev \<longleftrightarrow> tab_len (dmap dev) = 0 \<and> keybit dev = replicate KEY_CNT False"

lemma roundup_bounds:
  assumes "0 < n" "n < 2 ^ 28"
  obtains k where "roundup_pow_of_two (n * entry_size) = 8 * 2 ^ k" "n \<le> 2 ^ k" "k < 29" "2 ^ k < 2 * n"
proof -
  define f where "f = floorlog 2 (n * 8 - 1)"
  have b: "2 ^ (f - 1) \<le> n * 8 - 1" "n * 8 - 1 < 2 ^ f"
    using floorlog_bounds [of "n * 8 - 1" 2] assms(1) by (simp_all add: f_def)
  have "\<not> f < 3"
  proof
    assume "f < 3"
    then have "(2 :: nat) ^ f \<le> 2 ^ 2" by (intro power_increasing) simp_all
    then show False using b(2) assms(1) by simp
  qed
  then obtain k where k: "f = k + 3" by (metis add.commute le_Suc_ex not_less)
  have "(2 :: nat) ^ f = 8 * 2 ^ k" "(2 :: nat) ^ (f - 1) = 4 * 2 ^ k" by (simp_all add: k power_add)
  with b have n: "n \<le> 2 ^ k" "2 ^ k < 2 * n" using assms(1) by linarith+
  have "(2 :: nat) ^ k < 2 ^ 29" using n(2) assms(2) by simp
  then have "k < 29" by (rule power_less_imp_less_exp [rotated]) simp
  moreover have "roundup_pow_of_two (n * entry_size) = 8 * 2 ^ k"
    unfolding roundup_pow_of_two_def f_def [symmetric] k power_add by simp
  ultimately show thesis using n by (intro that)
qed

lemma create_table_ok:
  assumes "no_keys dev" "0 < n" "n < 2 ^ 28" "kmalloc (roundup_pow_of_two (n * entry_size)) = Some tab" "allocates kmalloc"
  obtains m where "ir_create_table kmalloc name ty n (dmap dev) = (0, m)" "dev_ok (dev\<lparr>dmap := m\<rparr>)" "entries m = Map.empty"
    "n \<le> tab_size m" "tab_len m = 0" "tab_size m = roundup_pow_of_two (n * entry_size) div entry_size"
proof -
  obtain k where k: "roundup_pow_of_two (n * entry_size) = 8 * 2 ^ k" "n \<le> 2 ^ k" "k < 29"
    using assms(2,3) by (rule roundup_bounds)
  have "(2 :: nat) ^ k < 2 ^ 29" using k(3) by (intro power_strict_increasing) simp_all
  then have mod: "8 * 2 ^ k mod 2 ^ 32 = (8 * 2 ^ k :: nat)" by simp
  have tab: "length tab = 2 ^ k" using assms(4,5) by (auto simp: allocates_def k(1))
  define m where "m = (dmap dev)\<lparr>map_name := name, rc_type := ty, tab_alloc := 8 * 2 ^ k, tab_size := 2 ^ k, scan := Some tab\<rparr>"
  have "ir_create_table kmalloc name ty n (dmap dev) = (0, m)"
    using assms(4) unfolding ir_create_table_def k(1) mod Let_def m_def by simp
  moreover have u: "used m = []" using assms(1) by (simp add: used_def m_def no_keys_def)
  moreover have "dev_ok (dev\<lparr>dmap := m\<rparr>)"
    using assms(1) k(3) tab u by (auto simp: dev_ok_def tab_ok_def array_ok_def bits_ok_def keys_def no_keys_def m_def)
  moreover have "tab_len m = 0" "tab_size m = 2 ^ k" using assms(1) by (simp_all add: m_def no_keys_def)
  ultimately show thesis using k(1,2) by (intro that) (simp_all add: entries_amap)
qed

lemma setkeytable_eq:
  assumes "ir_create_table kmalloc (map_name from) (rc_type from) (tab_size from) (dmap dev) = (0, m)"
    and "scan from = Some es" "tab_size from = length es"
  shows "ir_setkeytable kmalloc kmallocs from dev = (setkeytable_loop kmallocs es (dev\<lparr>dmap := m\<rparr>) \<bind>
    (\<lambda>(rc, dev). Some (rc, if rc \<noteq> 0 then dev\<lparr>dmap := ir_free_table (dmap dev)\<rparr> else dev)))"
  using assms by (cases es) (simp_all add: ir_setkeytable_def memrd_def)

definition good_entry :: "rc_map_table \<Rightarrow> bool" where
  "good_entry e \<longleftrightarrow> assigned (keycode e) \<noteq> None \<and> unat (keycode e) < KEY_CNT"

lemma setkeytable_distinct:
  assumes "no_keys dev" and "scan from = Some es" and "tab_size from = length es" and "0 < length es" and "length es < 2 ^ 28"
    and "distinct (map (masked dev \<circ> scancode) es)" and "\<forall>e\<in>set es. good_entry e"
    and "kmalloc (roundup_pow_of_two (length es * entry_size)) = Some tab"
    and "allocates kmalloc" and "\<forall>i. allocates (kmallocs i)"
  shows "\<exists>dev'. ir_setkeytable kmalloc kmallocs from dev = Some (0, dev') \<and> dev_ok dev' \<and> scanmask dev' = scanmask dev
    \<and> entries (dmap dev') = loaded (masked dev) es Map.empty"
proof -
  obtain m where m: "ir_create_table kmalloc (map_name from) (rc_type from) (length es) (dmap dev) = (0, m)"
    "dev_ok (dev\<lparr>dmap := m\<rparr>)" "entries m = Map.empty" "length es \<le> tab_size m" "tab_len m = 0"
    using create_table_ok [OF assms(1,4,5,8,9)] .
  have mk: "masked (dev\<lparr>dmap := m\<rparr>) = masked dev" by (auto simp: masked_def)
  obtain d where "setkeytable_loop kmallocs es (dev\<lparr>dmap := m\<rparr>) = Some (0, d)" "dev_ok d" "scanmask d = scanmask dev"
    "entries (dmap d) = loaded (masked dev) es Map.empty"
    using setkeytable_fresh [OF m(2) _ assms(10), of es] assms(6,7) m(3-5) by (auto simp: mk good_entry_def)
  then show ?thesis using setkeytable_eq [OF m(1) [folded assms(3)] assms(2,3)] by simp
qed

text \<open>C25. Loading a keymap whose scancodes are different after masking succeeds whenever the first allocation does: the table
  then holds exactly the entries of the keymap, and the bitmap exactly its keycodes.\<close>

theorem setkeytable_loads:
  assumes "no_keys dev" and "scan from = Some es" and "tab_size from = length es" and "0 < length es" and "length es < 2 ^ 28"
    and "distinct (map (masked dev \<circ> scancode) es)" and "\<forall>e\<in>set es. good_entry e"
    and "kmalloc (roundup_pow_of_two (length es * entry_size)) = Some tab"
    and "allocates kmalloc" and "\<forall>i. allocates (kmallocs i)"
  shows "\<exists>dev'. ir_setkeytable kmalloc kmallocs from dev = Some (0, dev') \<and> dev_ok dev'
    \<and> entries (dmap dev') = loaded (masked dev) es Map.empty"
  using setkeytable_distinct [OF assms] by blast

text \<open>An allocator that never fails, and a small keymap.\<close>

definition any_memory :: allocator where
  "any_memory n = Some (replicate (n div entry_size) \<lparr>scancode = 0, keycode = 0\<rparr>)"

definition bare_dev :: map_dev where
  "bare_dev = \<lparr>dmap = \<lparr>scan = None, tab_size = 0, tab_len = 0, tab_alloc = 0, rc_type = 0, map_name = []\<rparr>,
     scanmask = 0, keybit = replicate KEY_CNT False\<rparr>"

definition keymap :: "(u32 \<times> u32) list \<Rightarrow> rc_map" where
  "keymap es = \<lparr>scan = Some (map (\<lambda>(s, k). \<lparr>scancode = s, keycode = k\<rparr>) es), tab_size = length es, tab_len = 0, tab_alloc = 0,
     rc_type = 0, map_name = []\<rparr>"

lemma any_memory_ok [simp]: "allocates any_memory"
  by (simp add: allocates_def any_memory_def)

lemma bare_dev_ok: "no_keys bare_dev" "masked bare_dev = (\<lambda>s. s)"
  by (simp_all add: no_keys_def bare_dev_def masked_def fun_eq_iff)

theorem setkeytable_loads_witness:
  "\<exists>dev. ir_setkeytable any_memory (\<lambda>_. any_memory) (keymap [(7, 2), (3, 30)]) bare_dev = Some (0, dev) \<and> dev_ok dev
    \<and> entries (dmap dev) = [7 \<mapsto> 2, 3 \<mapsto> 30]"
  using setkeytable_loads [OF bare_dev_ok(1), of "keymap [(7, 2), (3, 30)]" "[\<lparr>scancode = 7, keycode = 2\<rparr>, \<lparr>scancode = 3, keycode = 30\<rparr>]"
      any_memory _ "\<lambda>_. any_memory"]
  by (simp add: keymap_def bare_dev_ok(2) good_entry_def assigned_def any_memory_def)

lemma move_array_size:
  "move_array kmalloc n m = Some (r, m') \<Longrightarrow> kmalloc n = Some tab \<Longrightarrow> tab_size m' = n div entry_size \<and> tab_len m' = tab_len m"
  by (auto simp: move_array_def bind_eq_Some_conv)

lemma update_mapping_shrinks:
  assumes "ir_update_mapping kmalloc i new dev = Some (old, dev')" "old \<noteq> KEY_RESERVED" "assigned new \<noteq> None"
    and "tab_len (dmap dev) * 3 < tab_size (dmap dev)" "tab_alloc (dmap dev) > IR_TAB_MIN_SIZE"
    and "kmalloc (tab_alloc (dmap dev) div 2) = Some tab"
  shows "tab_size (dmap dev') = tab_alloc (dmap dev) div 2 div entry_size" "tab_len (dmap dev') = tab_len (dmap dev)"
proof -
  obtain d where d: "change_entry i new dev = Some (old, d)" "forget_keycode kmalloc old d = Some dev'"
    using assms(1) by (auto simp: ir_update_mapping_def bind_eq_Some_conv)
  have same: "tab_len (dmap d) = tab_len (dmap dev)" "tab_size (dmap d) = tab_size (dmap dev)" "tab_alloc (dmap d) = tab_alloc (dmap dev)"
    using d(1) assms(3) by (auto simp: change_entry_def Let_def assigned_def write_bit_def bind_eq_Some_conv split: if_splits)
  obtain r where r: "ir_resize_table kmalloc (dmap d) = Some (r, dmap dev')"
    using d(2) assms(2) by (auto simp: forget_keycode_def write_bit_def bind_eq_Some_conv split: if_splits)
  have "ir_resize_table kmalloc (dmap d) = move_array kmalloc (tab_alloc (dmap dev) div 2) (dmap d)"
    using assms(4,5) by (auto simp: ir_resize_table_def Let_def same)
  then have "move_array kmalloc (tab_alloc (dmap dev) div 2) (dmap d) = Some (r, dmap dev')" using r by simp
  then show "tab_size (dmap dev') = tab_alloc (dmap dev) div 2 div entry_size" "tab_len (dmap dev') = tab_len (dmap dev)"
    using same move_array_size assms(6) by auto
qed

lemma tab_alloc_size: "dev_ok dev \<Longrightarrow> tab_alloc (dmap dev) = entry_size * tab_size (dmap dev)"
  by (simp add: dev_ok_def tab_ok_def array_ok_def)

lemma duplicate_rounds:
  assumes "dev_ok dev" "entries (dmap dev) = Map.empty" "tab_len (dmap dev) = 0" "33 \<le> tab_size (dmap dev)"
    and "masked dev (scancode e2) = masked dev (scancode e1)"
    and "assigned (keycode e1) \<noteq> None" "unat (keycode e1) < KEY_CNT" "assigned (keycode e2) \<noteq> None" "unat (keycode e2) < KEY_CNT"
    and "\<forall>i. allocates (kmallocs i)" "\<forall>i n. kmallocs i n \<noteq> None"
  shows "\<exists>d2. setkeytable_loop kmallocs (e1 # e2 # es) dev = setkeytable_loop (\<lambda>i. kmallocs (Suc (Suc i))) es d2 \<and> dev_ok d2
    \<and> scanmask d2 = scanmask dev \<and> tab_len (dmap d2) = 1 \<and> tab_size (dmap d2) = tab_size (dmap dev) div 2
    \<and> dom (entries (dmap d2)) = {masked dev (scancode e1)}"
proof -
  have al: "allocates (kmallocs 0)" "allocates (kmallocs 1)" "allocates (\<lambda>_. None)" using assms(10) by (simp_all add: allocates_def)
  have "masked dev (scancode e1) \<notin> dom (entries (dmap dev))" "tab_len (dmap dev) < tab_size (dmap dev)" using assms(2-4) by simp_all
  from load_entry [OF assms(1) this assms(6,7) al(1)]
  obtain i a b where st: "ir_establish_scancode (\<lambda>_. None) (scancode e1) False dev = Some (i, a)" "i < tab_len (dmap a)"
    "ir_update_mapping (kmallocs 0) i (keycode e1) a = Some (KEY_RESERVED, b)" "dev_ok b" "scanmask b = scanmask dev"
    "tab_size (dmap b) = tab_size (dmap dev)" "tab_len (dmap b) = tab_len (dmap dev) + 1"
    "entries (dmap b) = (entries (dmap dev))(masked dev (scancode e1) \<mapsto> keycode e1)" .
  have mk: "masked b = masked dev" using st(5) by (auto simp: masked_def)
  have dom: "masked b (scancode e2) \<in> dom (entries (dmap b))" unfolding mk st(8) assms(5) by simp
  have ke: "keycode e1 \<noteq> KEY_RESERVED" using assms(6) by (auto simp: assigned_def)
  obtain j where j: "ir_establish_scancode (\<lambda>_. None) (scancode e2) False b = Some (j, b)" "j < tab_len (dmap b)"
    "scancode (used (dmap b) ! j) = masked b (scancode e2)"
    using st(4) al(3) by (rule establish_cases [where s = "scancode e2" and resize = False]) (use dom in auto)
  have kj: "keycode (used (dmap b) ! j) = keycode e1"
    using amap_nth [of "used (dmap b)" j] st(4) j(2,3) st(8) assms(5) by (simp add: dev_ok_def tab_ok_def entries_amap mk)
  obtain c where c: "ir_update_mapping (kmallocs 1) j (keycode e2) b = Some (keycode e1, c)" "dev_ok c" "scanmask c = scanmask b"
    "entries (dmap c) = (entries (dmap b))(masked b (scancode e2) := assigned (keycode e2))"
    using update_mapping_entries [OF st(4) j(2) assms(9) al(2)] j(3) kj by auto
  obtain tab where "kmallocs 1 (tab_alloc (dmap b) div 2) = Some tab" using assms(11) by fastforce
  then have "tab_size (dmap c) = tab_size (dmap dev) div 2" "tab_len (dmap c) = 1"
    using update_mapping_shrinks [OF c(1) ke assms(8), of tab] st(6,7) assms(3,4) tab_alloc_size [OF st(4)] by auto
  moreover have "dom (entries (dmap c)) = {masked dev (scancode e1)}"
    unfolding c(4) st(8) mk assms(2,5) using assms(8) by auto
  moreover have "setkeytable_loop kmallocs (e1 # e2 # es) dev = setkeytable_loop (\<lambda>i. kmallocs (Suc (Suc i))) es c"
    using st(1-3) j(1,2) c(1) by simp
  ultimately show ?thesis using c(2,3) st(5) by auto
qed


definition dup_keymap :: "(u32 \<times> u32) list" where
  "dup_keymap = (0, 1) # (0, 2) # map (\<lambda>i. (word_of_nat i, 3)) [2..<34]"


section \<open>Lookups and assignments\<close>

definition two_keys :: rc_map where
  "two_keys = keymap [(7, 2), (3, 30)]"

lemma small_keymap:
  "\<exists>dev. ir_setkeytable any_memory (\<lambda>_. any_memory) two_keys bare_dev = Some (0, dev) \<and> dev_ok dev
    \<and> scanmask dev = 0 \<and> 0 < tab_len (dmap dev) \<and> entries (dmap dev) = [7 \<mapsto> 2, 3 \<mapsto> 30]"
proof -
  obtain dev where d: "ir_setkeytable any_memory (\<lambda>_. any_memory) two_keys bare_dev = Some (0, dev)" "dev_ok dev" "scanmask dev = 0"
    "entries (dmap dev) = [7 \<mapsto> 2, 3 \<mapsto> 30]"
    using setkeytable_distinct [OF bare_dev_ok(1), of two_keys "[\<lparr>scancode = 7, keycode = 2\<rparr>, \<lparr>scancode = 3, keycode = 30\<rparr>]"
      any_memory _ "\<lambda>_. any_memory"]
    by (auto simp: two_keys_def keymap_def bare_dev_ok(2) good_entry_def assigned_def any_memory_def) (simp add: bare_dev_def)
  have "tab_len (dmap dev) \<noteq> 0"
  proof
    assume "tab_len (dmap dev) = 0"
    then have "entries (dmap dev) = Map.empty" by (simp add: entries_amap used_def)
    then show False using d(4) by simp
  qed
  then show ?thesis using d by auto
qed

text \<open>C20. Binary search finds what a search from the front finds, in every well-formed table and for every scancode.\<close>

theorem lookup_is_linear_search:
  assumes "tab_ok m"
  shows "ir_lookup_by_scancode m s =
    Some (case find (\<lambda>i. scancode (used m ! i) = s) [0..<tab_len m] of None \<Rightarrow> no_index | Some i \<Rightarrow> i)"
proof -
  have ok: "array_ok m" "sorted_entries (used m)" "length (used m) = tab_len m" using assms by (simp_all add: tab_ok_def)
  obtain i where i: "ir_lookup_by_scancode m s = Some i"
    "case entries m s of None \<Rightarrow> i = no_index | Some k \<Rightarrow> i < tab_len m \<and> used m ! i = \<lparr>scancode = s, keycode = k\<rparr>"
    using lookup_ok [OF assms] by blast
  show ?thesis
  proof (cases "find (\<lambda>i. scancode (used m ! i) = s) [0..<tab_len m]")
    case None
    then have "s \<notin> dom (entries m)" using ok(3) by (auto simp: find_None_iff entries_amap dom_amap in_set_conv_nth)
    then show ?thesis using i None by (auto simp: domIff)
  next
    case (Some j)
    then have j: "j < tab_len m" "scancode (used m ! j) = s" by (auto simp: find_Some_iff)
    then have "entries m s = Some (keycode (used m ! j))" using amap_nth [OF ok(2), of j] ok(3) by (simp add: entries_amap)
    then have "i < tab_len m" "scancode (used m ! i) = s" using i(2) by simp_all
    then have "i = j" using sorted_nth_less [OF ok(2), of i j] sorted_nth_less [OF ok(2), of j i] j ok(3)
      by (cases i j rule: linorder_cases) auto
    then show ?thesis using i(1) Some by simp
  qed
qed

theorem lookup_is_linear_search_witness:
  "\<exists>dev. ir_setkeytable any_memory (\<lambda>_. any_memory) two_keys bare_dev = Some (0, dev)
    \<and> ir_lookup_by_scancode (dmap dev) 7 =
        Some (case find (\<lambda>i. scancode (used (dmap dev) ! i) = 7) [0..<tab_len (dmap dev)] of None \<Rightarrow> no_index | Some i \<Rightarrow> i)"
proof -
  obtain dev where "ir_setkeytable any_memory (\<lambda>_. any_memory) two_keys bare_dev = Some (0, dev)" "tab_ok (dmap dev)"
    using small_keymap by (auto simp: dev_ok_def)
  then show ?thesis using lookup_is_linear_search by blast
qed


definition scan_request :: "u32 \<Rightarrow> input_keymap_entry" where
  "scan_request k = \<lparr>by_index = False, ke_index = 0, ke_keycode = k, ke_len = 4, ke_scancode = replicate 32 0\<rparr>"


fun set_scancodes :: "(u32 \<times> u32) list \<Rightarrow> map_dev \<Rightarrow> map_dev \<Rightarrow> bool" where
  "set_scancodes [] dev dev' \<longleftrightarrow> dev' = dev"
| "set_scancodes ((s, k) # as) dev dev' \<longleftrightarrow> (\<exists>dev1. set_scancode s k dev dev1 \<and> set_scancodes as dev1 dev')"

lemma set_scancodes_assigns: "set_scancodes as dev dev' \<longleftrightarrow> tab.assigns as dev dev'"
  by (induction as arbitrary: dev) auto

lemma set_scancode_possible:
  assumes "dev_ok dev" "unat k < KEY_CNT" "tab_len (dmap dev) < tab_size (dmap dev)"
  shows "\<exists>dev'. set_scancode s k dev dev' \<and> dev_ok dev' \<and> scanmask dev' = scanmask dev"
proof -
  obtain r old dev' where c: "ir_setkeycode any_memory any_memory (\<lambda>_. Inr s) (scan_request k) dev = Some (r, old, dev')" "dev_ok dev'"
    "scanmask dev' = scanmask dev" "r \<noteq> 0 \<longrightarrow> tab_size (dmap dev) = tab_len (dmap dev)"
    using setkeycode_cases [OF assms(1), of any_memory any_memory "scan_request k" "\<lambda>_. Inr s"] assms(2)
    by (auto simp: scan_request_def target_def split: if_splits)
  then have "r = 0" using assms(3) by auto
  then show ?thesis
    using c assms(2) unfolding set_scancode_def
    by (intro exI [of _ dev'] conjI exI [of _ any_memory] exI [of _ "scan_request k"] exI [of _ old]) (simp_all add: scan_request_def)
qed

text \<open>C21. What a key was assigned last is what a key press finds: after any sequence of successful assignments by scancode, the
  lookup of a scancode that was assigned, and not assigned again later, gives the keycode of that assignment. The lookup does not mask
  the scancode, so it has to be asked for in its masked form.\<close>

theorem keycode_after_assignments:
  assumes "dev_ok dev" and "set_scancodes (as @ (s, k) # bs) dev dev'" and "\<forall>(s', k')\<in>set bs. masked dev s' \<noteq> masked dev s"
  shows "rc_g_keycode_from_table (dmap dev') (masked dev s) = Some (if k = KEY_UNKNOWN then KEY_RESERVED else k)"
  using tab.find_after_assigns [OF assms(1) assms(2) [unfolded set_scancodes_assigns] assms(3)]
  by (simp add: assigned_def key_of_def)

definition blank_dev :: map_dev where
  "blank_dev = bare_dev\<lparr>dmap := snd (ir_create_table any_memory [] 0 4 (dmap bare_dev))\<rparr>"

lemma blank_dev_ok: "dev_ok blank_dev" "tab_len (dmap blank_dev) < tab_size (dmap blank_dev)" "masked blank_dev = (\<lambda>s. s)"
proof -
  have "(4 :: nat) < 2 ^ 28" "(0 :: nat) < 4" by simp_all
  from create_table_ok [OF bare_dev_ok(1) this(2,1), of any_memory] obtain m
    where "ir_create_table any_memory [] 0 4 (dmap bare_dev) = (0, m)" "dev_ok (bare_dev\<lparr>dmap := m\<rparr>)" "4 \<le> tab_size m" "tab_len m = 0"
    by (metis any_memory_def any_memory_ok)
  then show "dev_ok blank_dev" "tab_len (dmap blank_dev) < tab_size (dmap blank_dev)" by (simp_all add: blank_dev_def)
  show "masked blank_dev = (\<lambda>s. s)" by (simp add: blank_dev_def masked_def bare_dev_def fun_eq_iff)
qed

theorem keycode_after_assignments_witness:
  "\<exists>dev. set_scancodes [(0x1e0a, 103)] blank_dev dev \<and> rc_g_keycode_from_table (dmap dev) 0x1e0a = Some 103"
proof -
  obtain dev where "set_scancode 0x1e0a 103 blank_dev dev"
    using set_scancode_possible [OF blank_dev_ok(1) _ blank_dev_ok(2), of 103 "0x1e0a"] by auto
  then have s: "set_scancodes [(0x1e0a, 103)] blank_dev dev" by simp
  then show ?thesis using keycode_after_assignments [OF blank_dev_ok(1), of "[]" "0x1e0a" 103 "[]" dev] by (auto simp: blank_dev_ok(3))
qed

text \<open>C40. Freeing a table leaves its length: a lookup that comes after \<open>ir_free_table\<close>, as one of the input device can while
  \<open>rc_unregister_device\<close> has not unregistered it yet, dereferences the null pointer whenever the table was not empty.\<close>

theorem lookup_after_free_faults:
  assumes "0 < tab_len m"
  shows "rc_g_keycode_from_table (ir_free_table m) s = None"
proof -
  have "lookup_loop (ir_free_table m) s 0 (int (tab_len m) - 1) = None"
    using assms by (subst lookup_loop.simps) (simp add: entry_at_def ir_free_table_def)
  then show ?thesis by (simp add: rc_g_keycode_from_table_def ir_lookup_by_scancode_def ir_free_table_def)
qed

theorem lookup_after_free_faults_witness:
  "\<exists>dev. ir_setkeytable any_memory (\<lambda>_. any_memory) two_keys bare_dev = Some (0, dev)
    \<and> rc_g_keycode_from_table (ir_free_table (dmap dev)) 7 = None"
  using small_keymap lookup_after_free_faults by blast

end
