(* ===== verification/Rc_Main.thy ===== *)
theory Rc_Main
  imports Rc_Keytable
begin

text \<open>
  The key handling of \<open>rc-main.c\<close>: what a decoder or a driver reports (a key press with its scancode, a repeat, a release)
  becomes events of the input device, and a timer releases a key that is no longer reported. The calls of the input layer are
  recorded in order. The lock \<open>keylock\<close> makes each function one step.
\<close>

section \<open>State\<close>

datatype input_call = Msc_Scan u32 | Report_Key u32 bool | Sync

record rc_dev =
  mdev :: map_dev
  keypressed :: bool
  keyup_jiffies :: u64
  timer_keyup :: "u64 option"
  last_keycode :: u32
  last_scancode :: u32
  last_toggle :: u8
  calls :: "input_call list"

definition emit :: "input_call list \<Rightarrow> rc_dev \<Rightarrow> rc_dev" where
  "emit es dev = dev\<lparr>calls := calls dev @ es\<rparr>"

text \<open>Times are 64-bit jiffies; \<open>time_after_eq a b\<close> compares them as the kernel does, by the sign of the difference.\<close>

definition time_after_eq :: "u64 \<Rightarrow> u64 \<Rightarrow> bool" where
  "time_after_eq a b \<longleftrightarrow> 0 \<le> sint (a - b)"

section \<open>Operations\<close>

definition ir_do_keyup :: "bool \<Rightarrow> rc_dev \<Rightarrow> rc_dev" where
  "ir_do_keyup sync dev =
     (if \<not> keypressed dev then dev
      else (emit (Report_Key (last_keycode dev) False # (if sync then [Sync] else [])) dev)\<lparr>keypressed := False\<rparr>)"

definition rc_keyup :: "rc_dev \<Rightarrow> rc_dev" where
  "rc_keyup dev = ir_do_keyup True dev"

definition ir_timer_keyup :: "u64 \<Rightarrow> rc_dev \<Rightarrow> rc_dev" where
  "ir_timer_keyup jiffies dev =
     (if time_after_eq jiffies (keyup_jiffies dev) then ir_do_keyup True dev else dev)"

text \<open>The new expiry of the timer; \<open>timeout\<close> stands for \<open>msecs_to_jiffies (IR_KEYPRESS_TIMEOUT)\<close>, which depends on the
  kernel's tick rate.\<close>

definition arm_keyup :: "u64 \<Rightarrow> u64 \<Rightarrow> rc_dev \<Rightarrow> rc_dev" where
  "arm_keyup timeout jiffies dev = dev\<lparr>keyup_jiffies := jiffies + timeout, timer_keyup := Some (jiffies + timeout)\<rparr>"

definition rc_repeat :: "u64 \<Rightarrow> u64 \<Rightarrow> rc_dev \<Rightarrow> rc_dev" where
  "rc_repeat timeout jiffies dev =
     (let dev = emit [Msc_Scan (last_scancode dev), Sync] dev
      in if \<not> keypressed dev then dev else arm_keyup timeout jiffies dev)"

definition ir_do_keydown :: "u32 \<Rightarrow> u32 \<Rightarrow> u8 \<Rightarrow> rc_dev \<Rightarrow> rc_dev" where
  "ir_do_keydown code key toggle dev =
     (let new_event = (\<not> keypressed dev \<or> last_scancode dev \<noteq> code \<or> last_toggle dev \<noteq> toggle);
          dev = (if new_event \<and> keypressed dev then ir_do_keyup False dev else dev);
          dev = emit [Msc_Scan code] dev;
          dev = (if new_event \<and> key \<noteq> KEY_RESERVED
                 then emit [Report_Key key True]
                        (dev\<lparr>keypressed := True, last_scancode := code, last_toggle := toggle, last_keycode := key\<rparr>)
                 else dev)
      in emit [Sync] dev)"

definition rc_keydown :: "u64 \<Rightarrow> u64 \<Rightarrow> u32 \<Rightarrow> u8 \<Rightarrow> rc_dev \<Rightarrow> rc_dev option" where
  "rc_keydown timeout jiffies code toggle dev = do {
     key \<leftarrow> rc_g_keycode_from_table (dmap (mdev dev)) code;
     let dev = ir_do_keydown code key toggle dev;
     Some (if keypressed dev then arm_keyup timeout jiffies dev else dev) }"

definition rc_keydown_notimeout :: "u32 \<Rightarrow> u8 \<Rightarrow> rc_dev \<Rightarrow> rc_dev option" where
  "rc_keydown_notimeout code toggle dev = do {
     key \<leftarrow> rc_g_keycode_from_table (dmap (mdev dev)) code;
     Some (ir_do_keydown code key toggle dev) }"

section \<open>Keys are pressed and released in turn\<close>

text \<open>The keys that are down after a sequence of calls, and that each press is of a key that is up and each release of one that
  is down.\<close>

fun down :: "u32 set \<Rightarrow> input_call list \<Rightarrow> u32 set" where
  "down K [] = K"
| "down K (Report_Key k b # cs) = down (if b then insert k K else K - {k}) cs"
| "down K (c # cs) = down K cs"

fun paired :: "u32 set \<Rightarrow> input_call list \<Rightarrow> bool" where
  "paired K [] \<longleftrightarrow> True"
| "paired K (Report_Key k b # cs) \<longleftrightarrow> (b \<longleftrightarrow> k \<notin> K) \<and> paired (if b then insert k K else K - {k}) cs"
| "paired K (c # cs) \<longleftrightarrow> paired K cs"

lemma down_append: "down K (xs @ ys) = down (down K xs) ys"
  by (induction K xs rule: down.induct) auto

lemma paired_append: "paired K (xs @ ys) \<longleftrightarrow> paired K xs \<and> paired (down K xs) ys"
  by (induction K xs rule: down.induct) auto

text \<open>At most one key is down, and it is the one the device remembers.\<close>

definition keys_inv :: "rc_dev \<Rightarrow> bool" where
  "keys_inv dev \<longleftrightarrow> paired {} (calls dev) \<and> down {} (calls dev) = (if keypressed dev then {last_keycode dev} else {})"

lemma keys_inv_keyup: "keys_inv dev \<Longrightarrow> keys_inv (ir_do_keyup sync dev)"
  by (auto simp: keys_inv_def ir_do_keyup_def emit_def down_append paired_append split: if_splits)

lemma keys_inv_keydown: "keys_inv dev \<Longrightarrow> keys_inv (ir_do_keydown s k t dev)"
  by (auto simp: keys_inv_def ir_do_keydown_def ir_do_keyup_def Let_def emit_def down_append paired_append)

lemma keys_inv_simps [simp]:
  "keys_inv (arm_keyup t j dev) = keys_inv dev" "keys_inv (dev\<lparr>timer_keyup := x\<rparr>) = keys_inv dev" "keys_inv (dev\<lparr>mdev := m\<rparr>) = keys_inv dev"
  by (simp_all add: keys_inv_def arm_keyup_def)

lemma keys_inv_repeat: "keys_inv dev \<Longrightarrow> keys_inv (rc_repeat t j dev)"
  by (simp add: rc_repeat_def Let_def) (simp add: keys_inv_def emit_def down_append paired_append)

text \<open>One step: a report of a driver or decoder, the timer (also a run of its handler that started before the timer was moved),
  or a change of the key table.\<close>

inductive rc_step :: "u64 \<Rightarrow> rc_dev \<Rightarrow> rc_dev \<Rightarrow> bool" for timeout where
  keydown: "rc_keydown timeout j s t dev = Some dev' \<Longrightarrow> rc_step timeout dev dev'"
| keydown_hold: "rc_keydown_notimeout s t dev = Some dev' \<Longrightarrow> rc_step timeout dev dev'"
| keyup: "rc_step timeout dev (rc_keyup dev)"
| repeat: "rc_step timeout dev (rc_repeat timeout j dev)"
| expire: "\<lbrakk>timer_keyup dev = Some e; time_after_eq j e\<rbrakk> \<Longrightarrow>
    rc_step timeout dev (ir_timer_keyup j (dev\<lparr>timer_keyup := None\<rparr>))"
| late: "rc_step timeout dev (ir_timer_keyup j dev)"
| remap: "dev_ok m \<Longrightarrow> rc_step timeout dev (dev\<lparr>mdev := m\<rparr>)"

lemma mdev_simps [simp]:
  "mdev (ir_do_keyup b dev) = mdev dev" "mdev (ir_do_keydown s k t dev) = mdev dev" "mdev (arm_keyup a j dev) = mdev dev"
  "mdev (rc_repeat a j dev) = mdev dev"
  by (simp_all add: ir_do_keyup_def ir_do_keydown_def arm_keyup_def rc_repeat_def emit_def Let_def)

lemma rc_step_inv:
  "rc_step timeout dev dev' \<Longrightarrow> keys_inv dev \<Longrightarrow> dev_ok (mdev dev) \<Longrightarrow> keys_inv dev' \<and> dev_ok (mdev dev')"
  by (induction rule: rc_step.induct)
    (auto simp: rc_keydown_def rc_keydown_notimeout_def rc_keyup_def ir_timer_keyup_def Let_def bind_eq_Some_conv
      intro: keys_inv_keyup keys_inv_keydown keys_inv_repeat split: if_splits)

text \<open>C13. In every state that a device with no key pressed can reach by reports, timer runs and changes of the key table, presses and releases
  sent to the input layer alternate for every key, the key that is down is the one the device remembers, and no other is:
  a key is never pressed twice, released twice, or left down when another is pressed. The next report is always handled
  without a fault.\<close>

theorem key_calls_paired:
  assumes "calls dev0 = []" and "\<not> keypressed dev0" and "dev_ok (mdev dev0)" and "(rc_step timeout)\<^sup>*\<^sup>* dev0 dev"
  shows "paired {} (calls dev) \<and> down {} (calls dev) = (if keypressed dev then {last_keycode dev} else {})
    \<and> rc_keydown timeout j s t dev \<noteq> None"
proof -
  have "keys_inv dev \<and> dev_ok (mdev dev)"
    using assms(4)
  proof (induction rule: rtranclp_induct)
    case base
    then show ?case using assms(1-3) by (simp add: keys_inv_def)
  next
    case (step y z)
    then show ?case using rc_step_inv by blast
  qed
  then show ?thesis
    using keycode_lookup [of "dmap (mdev dev)" s] by (simp add: keys_inv_def rc_keydown_def dev_ok_def Let_def)
qed

definition idle_dev :: "map_dev \<Rightarrow> rc_dev" where
  "idle_dev m = \<lparr>mdev = m, keypressed = False, keyup_jiffies = 0, timer_keyup = None, last_keycode = 0, last_scancode = 0,
     last_toggle = 0, calls = []\<rparr>"

theorem key_calls_paired_witness:
  "\<exists>dev. (rc_step 25)\<^sup>*\<^sup>* (idle_dev blank_dev) dev \<and> calls dev \<noteq> [] \<and> paired {} (calls dev)"
proof -
  let ?d = "rc_repeat 25 0 (idle_dev blank_dev)"
  have "(rc_step 25)\<^sup>*\<^sup>* (idle_dev blank_dev) ?d" by (intro r_into_rtranclp rc_step.repeat)
  moreover from this have "paired {} (calls ?d)"
    using key_calls_paired [of "idle_dev blank_dev" 25 ?d 0 0 0] blank_dev_ok(1) by (simp add: idle_dev_def)
  moreover have "calls ?d \<noteq> []" by (simp add: rc_repeat_def emit_def idle_dev_def)
  ultimately show ?thesis by blast
qed

section \<open>The release timer\<close>

lemma time_after_eq_add:
  assumes "unat d < 2 ^ 63" "unat t < 2 ^ 63"
  shows "time_after_eq (j + d) (j + t) \<longleftrightarrow> t \<le> d"
proof -
  have d: "uint d = int (unat d)" "uint t = int (unat t)" by simp_all
  have b: "- (2 ^ 63) \<le> uint d - uint t" "uint d - uint t < 2 ^ 63" using assms unfolding d by (simp_all del: of_nat_unat)
  have "sint (d - t) = signed_take_bit 63 (take_bit 64 (uint d - uint t))"
    by (simp add: sint_uint uint_word_ariths take_bit_eq_mod)
  also have "\<dots> = signed_take_bit 63 (uint d - uint t)" by (simp add: signed_take_bit_take_bit)
  also have "\<dots> = uint d - uint t" using b by (intro signed_take_bit_int_eq_self)
  finally show ?thesis by (simp add: time_after_eq_def word_le_def)
qed

text \<open>C30. A key that is no longer reported is released when its time is over and not before: after a report at time \<open>j\<close> that leaves a key
  pressed, and after a repeat, the timer is due at \<open>j + timeout\<close>; a run of the handler at \<open>j + d\<close> releases the key, and tells the input
  layer, exactly if \<open>timeout \<le> d\<close>. A handler that was started for an earlier expiry and runs late therefore does nothing. The
  comparison wraps around with the tick counter, so this holds at every \<open>j\<close>.\<close>

theorem keyup_timeout:
  assumes "rc_keydown timeout j s t dev = Some dev1 \<or> rc_repeat timeout j dev = dev1" and "keypressed dev1"
    and "unat d < 2 ^ 63" and "unat timeout < 2 ^ 63"
  shows "timer_keyup dev1 = Some (j + timeout)
    \<and> (let dev2 = ir_timer_keyup (j + d) dev1 in
        if timeout \<le> d then \<not> keypressed dev2 \<and> calls dev2 = calls dev1 @ [Report_Key (last_keycode dev1) False, Sync] else dev2 = dev1)"
proof -
  have kd: "\<exists>d0. dev1 = arm_keyup timeout j d0" if run: "rc_keydown timeout j s t dev = Some dev1"
  proof -
    obtain k where "dev1 = (if keypressed (ir_do_keydown s k t dev) then arm_keyup timeout j (ir_do_keydown s k t dev)
        else ir_do_keydown s k t dev)"
      using run by (auto simp: rc_keydown_def Let_def bind_eq_Some_conv)
    then show ?thesis using assms(2) by (metis (full_types))
  qed
  have "\<exists>d0. dev1 = arm_keyup timeout j d0"
    using assms(1,2) kd by (auto simp: rc_repeat_def Let_def split: if_splits)
  then have t: "timer_keyup dev1 = Some (j + timeout)" "keyup_jiffies dev1 = j + timeout" by (auto simp: arm_keyup_def)
  then show ?thesis
    using assms(2) time_after_eq_add [OF assms(3,4), of j]
    by (simp add: Let_def ir_timer_keyup_def ir_do_keyup_def emit_def)
qed

theorem keyup_timeout_witness:
  "let dev1 = rc_repeat 25 0xfffffffffffffff0 ((idle_dev blank_dev)\<lparr>keypressed := True, last_keycode := 30\<rparr>)
   in timer_keyup dev1 = Some 9 \<and> \<not> keypressed (ir_timer_keyup 9 dev1) \<and> ir_timer_keyup 8 dev1 = dev1"
proof -
  let ?dev = "rc_repeat 25 0xfffffffffffffff0 ((idle_dev blank_dev)\<lparr>keypressed := True, last_keycode := 30\<rparr>)"
  have k: "keypressed ?dev" by (simp add: rc_repeat_def Let_def emit_def arm_keyup_def idle_dev_def)
  have eq: "(0xfffffffffffffff0 :: u64) + 25 = 9" "(0xfffffffffffffff0 :: u64) + 24 = 8" by simp_all
  show ?thesis
    using keyup_timeout [of 25 "0xfffffffffffffff0" 0 0 "(idle_dev blank_dev)\<lparr>keypressed := True, last_keycode := 30\<rparr>" ?dev 25]
      keyup_timeout [of 25 "0xfffffffffffffff0" 0 0 "(idle_dev blank_dev)\<lparr>keypressed := True, last_keycode := 30\<rparr>" ?dev 24] k
    unfolding eq Let_def by simp
qed

text \<open>What a report sends to the input layer, in all its cases. The scancode is always sent, and the report ends with a synchronisation.
  A report with the scancode and toggle of the pressed key adds nothing; any other first releases the pressed key, and
  then presses the key of the new scancode if it has one.\<close>

theorem keydown_calls:
  assumes "dev_ok (mdev dev)" and "k = key_of (entries (dmap (mdev dev)) s)"
  shows "\<exists>dev'. rc_keydown timeout j s t dev = Some dev' \<and> mdev dev' = mdev dev \<and> calls dev' = calls dev @
    (let same = keypressed dev \<and> last_scancode dev = s \<and> last_toggle dev = t in
     (if keypressed dev \<and> \<not> same then [Report_Key (last_keycode dev) False] else []) @ [Msc_Scan s] @
     (if \<not> same \<and> k \<noteq> KEY_RESERVED then [Report_Key k True] else []) @ [Sync])
    \<and> keypressed dev' = (k \<noteq> KEY_RESERVED \<or> (keypressed dev \<and> last_scancode dev = s \<and> last_toggle dev = t))"
proof -
  have "rc_g_keycode_from_table (dmap (mdev dev)) s = Some k"
    using keycode_lookup [of "dmap (mdev dev)" s] assms by (simp add: dev_ok_def key_of_def)
  then show ?thesis
    by (auto simp: rc_keydown_def ir_do_keydown_def ir_do_keyup_def Let_def emit_def arm_keyup_def)
qed

theorem keydown_calls_witness:
  "\<exists>dev'. rc_keydown 25 100 7 0 (idle_dev blank_dev) = Some dev' \<and> calls dev' = [Msc_Scan 7, Sync]"
proof -
  have "entries (dmap blank_dev) = Map.empty" by (simp add: entries_amap used_def blank_dev_def bare_dev_def ir_create_table_def Let_def)
  then show ?thesis
    using keydown_calls [of "idle_dev blank_dev" 0 7 25 100 0] blank_dev_ok(1) by (auto simp: idle_dev_def key_of_def)
qed
end
