(* ===== verification/Ir_Event.thy ===== *)
theory Ir_Event
  imports Dvb_Prelude
begin

text \<open>
  What the infrared decoders share (\<open>rc-core-priv.h\<close>): pulse and space events, the comparison of durations with a
  margin, and the contract of a decoder. A decoder is a state machine that takes one event at a time; its
  calls of \<open>rc_keydown\<close> and \<open>rc_repeat\<close> are its output. Durations are 32-bit words in nanoseconds.
\<close>

section \<open>Events\<close>

record ir_raw_event =
  duration :: u32
  pulse :: bool
  ev_reset :: bool
  ev_timeout :: bool
  carrier_report :: bool

definition geq_margin :: "u32 \<Rightarrow> u32 \<Rightarrow> u32 \<Rightarrow> bool" where
  "geq_margin d1 d2 margin \<longleftrightarrow> d1 > d2 - margin"

definition eq_margin :: "u32 \<Rightarrow> u32 \<Rightarrow> u32 \<Rightarrow> bool" where
  "eq_margin d1 d2 margin \<longleftrightarrow> d1 > d2 - margin \<and> d1 < d2 + margin"

definition is_transition :: "ir_raw_event \<Rightarrow> ir_raw_event \<Rightarrow> bool" where
  "is_transition x y \<longleftrightarrow> pulse x \<noteq> pulse y"

definition decrease_duration :: "ir_raw_event \<Rightarrow> u32 \<Rightarrow> ir_raw_event" where
  "decrease_duration ev d = (if d > duration ev then ev\<lparr>duration := 0\<rparr> else ev\<lparr>duration := duration ev - d\<rparr>)"

definition is_timing_event :: "ir_raw_event \<Rightarrow> bool" where
  "is_timing_event ev \<longleftrightarrow> \<not> carrier_report ev \<and> \<not> ev_reset ev"

text \<open>What a decoder tells the remote control core.\<close>

datatype report = Keydown u32 u8 | Repeat

text \<open>\<open>bitrev8\<close> of the kernel: the bits of a byte in the opposite order.\<close>

definition bitrev8 :: "u8 \<Rightarrow> u8" where
  "bitrev8 b = word_reverse b"

section \<open>Margins on natural numbers\<close>

lemma geq_margin_nat:
  "unat m \<le> unat d2 \<Longrightarrow> geq_margin d1 d2 m \<longleftrightarrow> unat d2 - unat m < unat d1"
  by (simp add: geq_margin_def word_less_nat_alt unat_sub word_le_nat_alt)

lemma eq_margin_nat:
  "\<lbrakk>unat m \<le> unat d2; unat d2 + unat m < 2 ^ 32\<rbrakk> \<Longrightarrow>
    eq_margin d1 d2 m \<longleftrightarrow> unat d2 - unat m < unat d1 \<and> unat d1 < unat d2 + unat m"
  by (simp add: eq_margin_def word_less_nat_alt unat_sub word_le_nat_alt unat_word_ariths)

lemma decrease_nat: "unat (duration (decrease_duration ev d)) = unat (duration ev) - unat d"
  by (auto simp: decrease_duration_def word_less_nat_alt unat_sub word_le_nat_alt)

lemma decrease_pulse [simp]: "pulse (decrease_duration ev d) = pulse ev"
  by (simp add: decrease_duration_def)

text \<open>A duration within half a unit of \<open>k\<close> units, as the protocols have it, in nanoseconds.\<close>

definition near :: "nat \<Rightarrow> nat \<Rightarrow> nat \<Rightarrow> bool" where
  "near d u k \<longleftrightarrow> k * u - u div 2 < d \<and> d < k * u + u div 2"

lemma unit_nat:
  fixes k u :: u32
  assumes "(unat k + 1) * unat u < 2 ^ 32" "0 < unat k"
  shows "unat (k * u) = unat k * unat u" "unat (u div 2) = unat u div 2" "unat (u div 2) \<le> unat (k * u)"
    "unat (k * u) + unat (u div 2) < 2 ^ 32"
proof -
  have b: "unat k * unat u + unat u < 2 ^ 32" using assms(1) by (simp add: algebra_simps)
  show k: "unat (k * u) = unat k * unat u" using b by (simp add: unat_word_ariths)
  show h: "unat (u div 2) = unat u div 2" by (simp add: unat_div)
  have "unat u \<le> unat k * unat u" using assms(2) by simp
  then show "unat (u div 2) \<le> unat (k * u)" unfolding k h using div_le_dividend le_trans by blast
  show "unat (k * u) + unat (u div 2) < 2 ^ 32" unfolding k h using b div_le_dividend [of "unat u" 2] by linarith
qed

lemma eq_margin_unit:
  assumes "(unat k + 1) * unat u < 2 ^ 32" "0 < unat k"
  shows "eq_margin d (k * u) (u div 2) \<longleftrightarrow> near (unat d) (unat u) (unat k)"
  using eq_margin_nat [OF unit_nat(3,4) [OF assms]] unit_nat(1,2) [OF assms] by (simp add: near_def)

lemma geq_margin_unit:
  assumes "(unat k + 1) * unat u < 2 ^ 32" "0 < unat k"
  shows "geq_margin d (k * u) (u div 2) \<longleftrightarrow> unat k * unat u - unat u div 2 < unat d"
  using geq_margin_nat [OF unit_nat(3) [OF assms]] unit_nat(1,2) [OF assms] by simp

definition pulse_ev :: "bool \<Rightarrow> nat \<Rightarrow> nat \<Rightarrow> ir_raw_event \<Rightarrow> bool" where
  "pulse_ev b u k ev \<longleftrightarrow> is_timing_event ev \<and> pulse ev = b \<and> near (unat (duration ev)) u k"


section \<open>Decoders\<close>

text \<open>What a decoder reads besides its own state: the enabled protocols, the previous event, and whether a key is pressed.\<close>

record dec_ctx =
  enabled_protocols :: u64
  prev_ev :: ir_raw_event
  key_held :: bool

type_synonym 's decoder = "dec_ctx \<Rightarrow> ir_raw_event \<Rightarrow> 's \<Rightarrow> int \<times> 's \<times> report list"

text \<open>A decoder run over events, each with whether a key is pressed when it is decoded. The thread ignores the results
  and remembers the event.\<close>

fun run_decoder :: "'s decoder \<Rightarrow> u64 \<Rightarrow> ir_raw_event \<Rightarrow> (bool \<times> ir_raw_event) list \<Rightarrow> 's \<Rightarrow> 's \<times> report list" where
  "run_decoder dec en prev [] s = (s, [])"
| "run_decoder dec en prev ((k, ev) # evs) s =
     (let (_, s, out) = dec \<lparr>enabled_protocols = en, prev_ev = prev, key_held = k\<rparr> ev s;
          (s, outs) = run_decoder dec en ev evs s
      in (s, out @ outs))"

fun last_ev :: "ir_raw_event \<Rightarrow> (bool \<times> ir_raw_event) list \<Rightarrow> ir_raw_event" where
  "last_ev prev [] = prev"
| "last_ev prev ((k, ev) # evs) = last_ev ev evs"

lemma run_decoder_append:
  "run_decoder dec en prev (xs @ ys) s =
     (let (s, out) = run_decoder dec en prev xs s; (s, outs) = run_decoder dec en (last_ev prev xs) ys s in (s, out @ outs))"
  by (induction xs arbitrary: prev s) (auto simp: Let_def split: prod.splits)

text \<open>The contract of a decoder. \<open>idle\<close> are the states in which a frame may start, \<open>wf\<close> the states that can occur, and \<open>frame evs v\<close> says
  that the events are those of a transmission that means \<open>v\<close>, within the tolerances of the protocol. \<open>view\<close> is what the transmission
  determines of the report: all of it, unless the decoder makes up the toggle bit itself.\<close>

locale ir_decoder =
  fixes decode :: "'s decoder"
    and proto :: u64
    and idle :: "'s \<Rightarrow> bool"
    and wf :: "'s \<Rightarrow> bool"
    and view :: "report \<Rightarrow> 'v"
    and frame :: "ir_raw_event list \<Rightarrow> 'v \<Rightarrow> bool"
  assumes disabled: "enabled_protocols c AND proto = 0 \<Longrightarrow> decode c ev s = (0, s, [])"
    and reset: "\<lbrakk>ev_reset ev; enabled_protocols c AND proto \<noteq> 0; decode c ev s = (r, s', out)\<rbrakk> \<Longrightarrow> r = 0 \<and> idle s' \<and> out = []"
    and reject: "decode c ev s = (r, s', out) \<Longrightarrow> r = 0 \<or> r = - EINVAL \<and> idle s' \<and> out = []"
    and keep_wf: "\<lbrakk>wf s; decode c ev s = (r, s', out)\<rbrakk> \<Longrightarrow> wf s'"
    and decodes: "\<lbrakk>wf s; idle s; frame (map snd evs) v; en AND proto \<noteq> 0\<rbrakk> \<Longrightarrow>
      \<exists>s' rep. run_decoder decode en prev evs s = (s', [rep]) \<and> view rep = v \<and> idle s'"
begin

lemma run_wf: "wf s \<Longrightarrow> run_decoder decode en prev evs s = (s', out) \<Longrightarrow> wf s'"
proof (induction evs arbitrary: prev s out)
  case (Cons e evs)
  obtain k ev where e: "e = (k, ev)" by (cases e)
  obtain r s1 o1 where d: "decode \<lparr>enabled_protocols = en, prev_ev = prev, key_held = k\<rparr> ev s = (r, s1, o1)" by (metis prod_cases3)
  then have "wf s1" using keep_wf Cons.prems(1) by blast
  then show ?case using Cons d by (auto simp: e split: prod.splits)
qed simp

text \<open>Any number of frames after each other is decoded to what they mean, in order.\<close>

lemma frames_decode:
  assumes "wf s" "idle s" "list_all2 (\<lambda>evs v. frame (map snd evs) v) fs vs" "en AND proto \<noteq> 0"
  shows "\<exists>s' rs. run_decoder decode en prev (concat fs) s = (s', rs) \<and> map view rs = vs \<and> wf s' \<and> idle s'"
  using assms(3,1,2)
proof (induction fs vs arbitrary: prev s rule: list_all2_induct)
  case Nil
  then show ?case by simp
next
  case (Cons f fs v vs)
  obtain s1 r where s1: "run_decoder decode en prev f s = (s1, [r])" "view r = v" "idle s1"
    using decodes [OF Cons.prems Cons.hyps(1) assms(4)] by blast
  have "wf s1" using run_wf [OF Cons.prems(1) s1(1)] .
  then obtain s2 rs where "run_decoder decode en (last_ev prev f) (concat fs) s1 = (s2, rs)" "map view rs = vs" "wf s2" "idle s2"
    using Cons.IH s1(3) by blast
  then show ?case using s1(1,2) by (simp add: run_decoder_append)
qed

text \<open>A reset resynchronises the decoder, whatever it has seen before.\<close>

lemma resync:
  assumes "wf s" "ev_reset ev" "list_all2 (\<lambda>evs v. frame (map snd evs) v) fs vs" "en AND proto \<noteq> 0"
  shows "\<exists>rs. snd (run_decoder decode en prev (noise @ (k, ev) # concat fs) s) = snd (run_decoder decode en prev noise s) @ rs
    \<and> map view rs = vs"
proof -
  obtain s1 o1 where s1: "run_decoder decode en prev noise s = (s1, o1)" by (metis surj_pair)
  obtain r s2 o2 where s2: "decode \<lparr>enabled_protocols = en, prev_ev = last_ev prev noise, key_held = k\<rparr> ev s1 = (r, s2, o2)"
    by (metis prod_cases3)
  have "wf s1" using run_wf [OF assms(1) s1] .
  then have "wf s2" "idle s2" "o2 = []" using keep_wf [OF _ s2] reset [OF assms(2) _ s2] assms(4) by simp_all
  then obtain s3 rs where "run_decoder decode en ev (concat fs) s2 = (s3, rs)" "map view rs = vs"
    using frames_decode [OF _ _ assms(3,4)] by blast
  then show ?thesis using s1 s2 \<open>o2 = []\<close> by (simp add: run_decoder_append)
qed

end

section \<open>Shifting in bits\<close>

definition shift_in :: "'a::len word \<Rightarrow> bool \<Rightarrow> 'a word" where
  "shift_in w b = (if b then push_bit 1 w OR 1 else push_bit 1 w)"

lemma bit_shift_in:
  fixes w :: "'a::len word"
  shows "bit (shift_in w b) i \<longleftrightarrow> i < LENGTH('a) \<and> (if i = 0 then b else bit w (i - 1))"
proof -
  have "bit (push_bit 1 w) i \<longleftrightarrow> 1 \<le> i \<and> i < LENGTH('a) \<and> bit w (i - 1)"
    by (auto simp only: bit_push_bit_iff possible_bit_word)
  then show ?thesis by (auto simp: shift_in_def bit_or_iff bit_1_iff simp del: push_bit_of_1)
qed

lemma bit_shifted:
  fixes w :: "'a::len word"
  shows "i < LENGTH('a) \<Longrightarrow>
    bit (foldl shift_in w bs) i \<longleftrightarrow> (if i < length bs then bs ! (length bs - 1 - i) else bit w (i - length bs))"
proof (induction bs arbitrary: i rule: rev_induct)
  case (snoc b bs)
  show ?case
  proof (cases i)
    case 0
    then show ?thesis by (simp add: bit_shift_in nth_append)
  next
    case (Suc j)
    then show ?thesis using snoc by (auto simp: bit_shift_in nth_append)
  qed
qed simp

lemma shifted_full:
  fixes w :: "'a::len word"
  shows "LENGTH('a) \<le> length bs \<Longrightarrow> foldl shift_in w bs = foldl shift_in 0 bs"
  by (rule bit_word_eqI) (simp add: bit_shifted)

lemma and_byte: "w AND 0xff = take_bit 8 w" for w :: "'a::len word"
  by (simp add: take_bit_eq_mask mask_eq_decr_exp)

text \<open>A byte of the bits received, with the first one received as its least significant one.\<close>

lemma bit_received_byte:
  fixes w :: "'a::len word"
  assumes "k + 8 \<le> length bs" "length bs \<le> LENGTH('a)"
  shows "bit (bitrev8 (ucast (drop_bit k (foldl shift_in w bs) AND 0xff))) i \<longleftrightarrow> i < 8 \<and> bs ! (length bs - 8 - k + i)"
proof -
  show ?thesis
  proof (cases "i < 8")
    case True
    then have "k + (7 - i) < LENGTH('a)" "k + (7 - i) < length bs" "length bs - 1 - (k + (7 - i)) = length bs - 8 - k + i"
      using assms by linarith+
    then have "bit (foldl shift_in w bs) (k + (7 - i)) \<longleftrightarrow> bs ! (length bs - 8 - k + i)"
      using bit_shifted [of "k + (7 - i)" w bs] by simp
    moreover have "7 - i < 8" by linarith
    ultimately show ?thesis using True unfolding and_byte bitrev8_def
      by (simp add: bit_word_reverse_iff bit_ucast_iff bit_take_bit_iff bit_drop_bit_eq)
  qed (simp add: bitrev8_def bit_word_reverse_iff)
qed

lemma received_byte:
  fixes w :: "'a::len word"
  assumes "k + 8 \<le> length bs" "length bs \<le> LENGTH('a)" "\<And>i. i < 8 \<Longrightarrow> bs ! (length bs - 8 - k + i) = bit b i"
  shows "bitrev8 (ucast (drop_bit k (foldl shift_in w bs) AND 0xff)) = b"
  by (rule bit_word_eqI) (use assms in \<open>simp add: bit_received_byte\<close>)

text \<open>A byte on the wire, least significant bit first, and an event with nothing but its timing.\<close>

definition byte_bits :: "u8 \<Rightarrow> bool list" where
  "byte_bits b = map (bit b) [0..<8]"

definition timed :: "bool \<Rightarrow> u32 \<Rightarrow> ir_raw_event" where
  "timed p d = \<lparr>duration = d, pulse = p, ev_reset = False, ev_timeout = False, carrier_report = False\<rparr>"

lemma length_byte_bits [simp]: "length (byte_bits b) = 8"
  by (simp add: byte_bits_def)

lemma nth_byte_bits [simp]: "i < 8 \<Longrightarrow> byte_bits b ! i = bit b i"
  by (simp add: byte_bits_def)

lemma byte_eqI: "\<lbrakk>bit v 0 = bit w 0; bit v 1 = bit w 1; bit v 2 = bit w 2; bit v 3 = bit w 3; bit v 4 = bit w 4; bit v 5 = bit w 5;
    bit v 6 = bit w 6; bit v 7 = bit w 7\<rbrakk> \<Longrightarrow> v = w" for v w :: u8
  by (rule bit_word_eqI) (auto simp: less_Suc_eq numeral_nat)

lemma take_bit_small: "unat b < 2 ^ n \<Longrightarrow> take_bit n b = b" for b :: u8
  by (metis take_bit_nat_eq_self unsigned_take_bit_eq word_unat_eq_iff)

text \<open>Bits coded by the length of the space after a pulse of one unit: one unit for 0, three for 1.\<close>

fun distance_bits :: "nat \<Rightarrow> bool list \<Rightarrow> ir_raw_event list \<Rightarrow> bool" where
  "distance_bits u [] [] \<longleftrightarrow> True"
| "distance_bits u (b # bs) (p # s # evs) \<longleftrightarrow>
     pulse_ev True u 1 p \<and> pulse_ev False u (if b then 3 else 1) s \<and> distance_bits u bs evs"
| "distance_bits u _ _ \<longleftrightarrow> False"

lemma distance_bits_Cons:
  "distance_bits u (b # bs) (map snd evs) \<longleftrightarrow>
     (\<exists>k1 p k2 e evs'. evs = (k1, p) # (k2, e) # evs' \<and> pulse_ev True u 1 p \<and> pulse_ev False u (if b then 3 else 1) e
        \<and> distance_bits u bs (map snd evs'))"
  by (cases evs rule: remdups_adj.cases) (auto split: prod.splits)

lemma distance_bits_Nil [simp]: "distance_bits u [] evs \<longleftrightarrow> evs = []"
  by (cases evs) simp_all

definition distance_tx :: "u32 \<Rightarrow> bool list \<Rightarrow> ir_raw_event list" where
  "distance_tx u bs = concat (map (\<lambda>b. [timed True u, timed False (if b then 3 * u else u)]) bs)"

lemma distance_bits_tx:
  assumes "1 < unat u" "4 * unat u < 2 ^ 32"
  shows "distance_bits (unat u) bs (distance_tx u bs)"
proof (induction bs)
  case (Cons b bs)
  have "unat (3 * u) = 3 * unat u" using assms(2) by (simp add: unat_word_ariths)
  then show ?case using Cons assms(1)
    by (simp add: distance_tx_def pulse_ev_def timed_def is_timing_event_def near_def)
qed (simp add: distance_tx_def)

end
