(* ===== verification/Ir_Nec.thy ===== *)
theory Ir_Nec
  imports Ir_Event
begin

text \<open>
  The NEC decoder (\<open>ir-nec-decoder.c\<close>): a header, 32 bits coded by the length of a space, a trailer. The theorems show that every
  transmission within the tolerance is decoded to its scancode.
\<close>

abbreviation (input) RC_TYPE_NEC :: u64 where "RC_TYPE_NEC \<equiv> 2"
abbreviation (input) NEC_NBITS :: nat where "NEC_NBITS \<equiv> 32"
abbreviation (input) NEC_UNIT :: u32 where "NEC_UNIT \<equiv> 562500"
abbreviation (input) NEC_HEADER_PULSE :: u32 where "NEC_HEADER_PULSE \<equiv> 16 * NEC_UNIT"
abbreviation (input) NECX_HEADER_PULSE :: u32 where "NECX_HEADER_PULSE \<equiv> 8 * NEC_UNIT"
abbreviation (input) NEC_HEADER_SPACE :: u32 where "NEC_HEADER_SPACE \<equiv> 8 * NEC_UNIT"
abbreviation (input) NEC_REPEAT_SPACE :: u32 where "NEC_REPEAT_SPACE \<equiv> 4 * NEC_UNIT"
abbreviation (input) NEC_BIT_PULSE :: u32 where "NEC_BIT_PULSE \<equiv> 1 * NEC_UNIT"
abbreviation (input) NEC_BIT_0_SPACE :: u32 where "NEC_BIT_0_SPACE \<equiv> 1 * NEC_UNIT"
abbreviation (input) NEC_BIT_1_SPACE :: u32 where "NEC_BIT_1_SPACE \<equiv> 3 * NEC_UNIT"
abbreviation (input) NEC_TRAILER_PULSE :: u32 where "NEC_TRAILER_PULSE \<equiv> 1 * NEC_UNIT"
abbreviation (input) NEC_TRAILER_SPACE :: u32 where "NEC_TRAILER_SPACE \<equiv> 10 * NEC_UNIT"
abbreviation (input) NECX_REPEAT_BITS :: nat where "NECX_REPEAT_BITS \<equiv> 1"

datatype nec_state = STATE_INACTIVE | STATE_HEADER_SPACE | STATE_BIT_PULSE | STATE_BIT_SPACE
  | STATE_TRAILER_PULSE | STATE_TRAILER_SPACE

record nec_dec =
  state :: nec_state
  count :: nat
  bits :: u32
  is_nec_x :: bool
  necx_repeat :: bool

definition nec_scancode :: "u32 \<Rightarrow> u32" where
  "nec_scancode b =
     (let address = bitrev8 (ucast (drop_bit 24 b AND 0xff));
          not_address = bitrev8 (ucast (drop_bit 16 b AND 0xff));
          command = bitrev8 (ucast (drop_bit 8 b AND 0xff));
          not_command = bitrev8 (ucast (drop_bit 0 b AND 0xff))
      in if command XOR not_command \<noteq> 0xff then b
         else if address XOR not_address \<noteq> 0xff then
           push_bit 16 (ucast address) OR push_bit 8 (ucast not_address) OR ucast command
         else push_bit 8 (ucast address) OR ucast command)"

definition nec_fail :: "nec_dec \<Rightarrow> int \<times> nec_dec \<times> report list" where
  "nec_fail data = (- EINVAL, data\<lparr>state := STATE_INACTIVE\<rparr>, [])"

definition ir_nec_decode :: "nec_dec decoder" where
  "ir_nec_decode c ev data =
     (if enabled_protocols c AND RC_TYPE_NEC = 0 then (0, data, [])
      else if \<not> is_timing_event ev then (0, if ev_reset ev then data\<lparr>state := STATE_INACTIVE\<rparr> else data, [])
      else case state data of
        STATE_INACTIVE \<Rightarrow>
          if \<not> pulse ev then nec_fail data
          else if eq_margin (duration ev) NEC_HEADER_PULSE (NEC_UNIT div 2) then
            (0, data\<lparr>is_nec_x := False, necx_repeat := False, count := 0, state := STATE_HEADER_SPACE\<rparr>, [])
          else if eq_margin (duration ev) NECX_HEADER_PULSE (NEC_UNIT div 2) then
            (0, data\<lparr>is_nec_x := True, count := 0, state := STATE_HEADER_SPACE\<rparr>, [])
          else nec_fail data
      | STATE_HEADER_SPACE \<Rightarrow>
          if pulse ev then nec_fail data
          else if eq_margin (duration ev) NEC_HEADER_SPACE (NEC_UNIT div 2) then (0, data\<lparr>state := STATE_BIT_PULSE\<rparr>, [])
          else if eq_margin (duration ev) NEC_REPEAT_SPACE (NEC_UNIT div 2) then
            (if \<not> key_held c then (0, data, []) else (0, data\<lparr>state := STATE_TRAILER_PULSE\<rparr>, [Repeat]))
          else nec_fail data
      | STATE_BIT_PULSE \<Rightarrow>
          if \<not> pulse ev then nec_fail data
          else if \<not> eq_margin (duration ev) NEC_BIT_PULSE (NEC_UNIT div 2) then nec_fail data
          else (0, data\<lparr>state := STATE_BIT_SPACE\<rparr>, [])
      | STATE_BIT_SPACE \<Rightarrow>
          if pulse ev then nec_fail data
          else if necx_repeat data \<and> count data = NECX_REPEAT_BITS \<and>
              geq_margin (duration ev) NEC_TRAILER_SPACE (NEC_UNIT div 2) then
            (0, data\<lparr>state := STATE_INACTIVE\<rparr>, [Repeat])
          else
            let data = (if count data > NECX_REPEAT_BITS then data\<lparr>necx_repeat := False\<rparr> else data);
                one = eq_margin (duration ev) NEC_BIT_1_SPACE (NEC_UNIT div 2);
                data = data\<lparr>bits := shift_in (bits data) one\<rparr>
            in if \<not> one \<and> \<not> eq_margin (duration ev) NEC_BIT_0_SPACE (NEC_UNIT div 2) then nec_fail data
               else let data = data\<lparr>count := (count data + 1) mod 2 ^ 32\<rparr>
                    in (0, data\<lparr>state := if count data = NEC_NBITS then STATE_TRAILER_PULSE else STATE_BIT_PULSE\<rparr>, [])
      | STATE_TRAILER_PULSE \<Rightarrow>
          if \<not> pulse ev then nec_fail data
          else if \<not> eq_margin (duration ev) NEC_TRAILER_PULSE (NEC_UNIT div 2) then nec_fail data
          else (0, data\<lparr>state := STATE_TRAILER_SPACE\<rparr>, [])
      | STATE_TRAILER_SPACE \<Rightarrow>
          if pulse ev then nec_fail data
          else if \<not> geq_margin (duration ev) NEC_TRAILER_SPACE (NEC_UNIT div 2) then nec_fail data
          else (0, data\<lparr>necx_repeat := if is_nec_x data then True else necx_repeat data, state := STATE_INACTIVE\<rparr>,
                [Keydown (nec_scancode (bits data)) 0]))"

section \<open>Tolerances\<close>

lemmas nec_margins = eq_margin_unit [of 16 NEC_UNIT, simplified] eq_margin_unit [of 8 NEC_UNIT, simplified]
  eq_margin_unit [of 4 NEC_UNIT, simplified] eq_margin_unit [of 3 NEC_UNIT, simplified] eq_margin_unit [of 1 NEC_UNIT, simplified]
  geq_margin_unit [of 10 NEC_UNIT, simplified]

section \<open>Transmissions\<close>

text \<open>A frame: the header (that of the less common variant has half the length), 32 bits, and a trailer whose space
  is as long as the gap to the next transmission.\<close>

definition nec_frame :: "bool list \<Rightarrow> ir_raw_event list \<Rightarrow> bool" where
  "nec_frame bs evs \<longleftrightarrow> (\<exists>h sp body tp ts. evs = h # sp # body @ [tp, ts] \<and> length bs = NEC_NBITS
     \<and> (pulse_ev True 562500 16 h \<or> pulse_ev True 562500 8 h) \<and> pulse_ev False 562500 8 sp \<and> distance_bits 562500 bs body
     \<and> pulse_ev True 562500 1 tp \<and> is_timing_event ts \<and> \<not> pulse ts \<and> 5343750 < unat (duration ts))"

lemma nec_bit_step:
  assumes "state s = STATE_BIT_PULSE" "count s < NEC_NBITS" "pulse_ev True 562500 1 p" "pulse_ev False 562500 (if b then 3 else 1) e"
    and "en AND RC_TYPE_NEC \<noteq> 0"
  shows "\<exists>s'. run_decoder ir_nec_decode en prev ((k1, p) # (k2, e) # evs) s = run_decoder ir_nec_decode en e evs s'
    \<and> state s' = (if count s + 1 = NEC_NBITS then STATE_TRAILER_PULSE else STATE_BIT_PULSE) \<and> count s' = count s + 1
    \<and> bits s' = shift_in (bits s) b"
  using assms by (cases b) (auto simp: ir_nec_decode_def pulse_ev_def nec_margins near_def Let_def split: prod.splits)

lemma nec_bits_run:
  assumes "distance_bits 562500 bs (map snd evs)" "state s = STATE_BIT_PULSE" "count s + length bs = NEC_NBITS" "bs \<noteq> []" "en AND RC_TYPE_NEC \<noteq> 0"
  shows "\<exists>s' prev'. run_decoder ir_nec_decode en prev (evs @ rest) s = run_decoder ir_nec_decode en prev' rest s'
    \<and> state s' = STATE_TRAILER_PULSE \<and> bits s' = foldl shift_in (bits s) bs"
  using assms(1-4)
proof (induction bs arbitrary: evs prev s)
  case (Cons b bs)
  obtain k1 p k2 e evs' where evs: "evs = (k1, p) # (k2, e) # evs'" and bit: "pulse_ev True 562500 1 p"
    "pulse_ev False 562500 (if b then 3 else 1) e" and rest: "distance_bits 562500 bs (map snd evs')"
    using Cons.prems(1) unfolding distance_bits_Cons by blast
  have "count s < NEC_NBITS" using Cons.prems(3) by simp
  from nec_bit_step [OF Cons.prems(2) this bit assms(5), of prev k1 k2 "evs' @ rest"]
  obtain s1 where s1: "run_decoder ir_nec_decode en prev (evs @ rest) s = run_decoder ir_nec_decode en e (evs' @ rest) s1"
    "state s1 = (if count s + 1 = NEC_NBITS then STATE_TRAILER_PULSE else STATE_BIT_PULSE)" "count s1 = count s + 1"
    "bits s1 = shift_in (bits s) b"
    by (auto simp: evs)
  show ?case
  proof (cases "bs = []")
    case True
    then have "evs' = []" using rest by simp
    then show ?thesis using s1 True Cons.prems(3) by auto
  next
    case False
    have "count s + 1 \<noteq> NEC_NBITS" using Cons.prems(3) False by (cases bs) auto
    then show ?thesis using Cons.IH [OF rest, of s1 e] s1 Cons.prems(3) False by auto
  qed
qed simp

text \<open>The counter stays within the 32 bits of a frame.\<close>

definition nec_wf :: "nec_dec \<Rightarrow> bool" where
  "nec_wf s \<longleftrightarrow> (case state s of STATE_HEADER_SPACE \<Rightarrow> count s = 0 | STATE_BIT_PULSE \<Rightarrow> count s < NEC_NBITS
     | STATE_BIT_SPACE \<Rightarrow> count s < NEC_NBITS | _ \<Rightarrow> count s \<le> NEC_NBITS)"

definition nec_idle :: "nec_dec \<Rightarrow> bool" where
  "nec_idle s \<longleftrightarrow> state s = STATE_INACTIVE"

definition nec_means :: "ir_raw_event list \<Rightarrow> report \<Rightarrow> bool" where
  "nec_means evs r \<longleftrightarrow> (\<exists>bs. nec_frame bs evs \<and> r = Keydown (nec_scancode (foldl shift_in 0 bs)) 0)"

lemma nec_frame_run:
  assumes "nec_frame bs (map snd evs)" "state s = STATE_INACTIVE" "en AND RC_TYPE_NEC \<noteq> 0"
  shows "\<exists>s'. run_decoder ir_nec_decode en prev evs s = (s', [Keydown (nec_scancode (foldl shift_in 0 bs)) 0]) \<and> nec_idle s'"
proof -
  obtain k1 h k2 sp body k3 tp k4 ts where evs: "evs = (k1, h) # (k2, sp) # body @ [(k3, tp), (k4, ts)]"
    and bs: "length bs = NEC_NBITS" "distance_bits 562500 bs (map snd body)"
    and h: "pulse_ev True 562500 16 h \<or> pulse_ev True 562500 8 h" "pulse_ev False 562500 8 sp"
    and t: "pulse_ev True 562500 1 tp" "is_timing_event ts" "\<not> pulse ts" "5343750 < unat (duration ts)"
    using assms(1) by (auto simp: nec_frame_def map_eq_Cons_conv map_eq_append_conv)
  obtain s1 where s1: "run_decoder ir_nec_decode en prev evs s = run_decoder ir_nec_decode en sp (body @ [(k3, tp), (k4, ts)]) s1"
    "state s1 = STATE_BIT_PULSE" "count s1 = 0"
    using h assms(2,3) by (fastforce simp: evs ir_nec_decode_def pulse_ev_def nec_margins near_def split: prod.splits)
  have "bs \<noteq> []" using bs(1) by auto
  from nec_bits_run [OF bs(2) s1(2) _ this assms(3), of sp "[(k3, tp), (k4, ts)]"] bs(1) s1(3)
  obtain s2 prev' where s2: "run_decoder ir_nec_decode en sp (body @ [(k3, tp), (k4, ts)]) s1
      = run_decoder ir_nec_decode en prev' [(k3, tp), (k4, ts)] s2"
    "state s2 = STATE_TRAILER_PULSE" "bits s2 = foldl shift_in (bits s1) bs"
    by auto
  show ?thesis unfolding s1(1) s2(1)
    using t s2(2,3) assms(3) bs(1) shifted_full [of bs "bits s1"]
    by (auto simp: ir_nec_decode_def pulse_ev_def nec_margins near_def nec_idle_def split: prod.splits)
qed

interpretation nec: ir_decoder ir_nec_decode RC_TYPE_NEC nec_idle nec_wf id nec_means
proof
  show "ir_nec_decode c ev s = (0, s, [])" if "enabled_protocols c AND RC_TYPE_NEC = 0" for c ev s
    using that by (simp add: ir_nec_decode_def)
  show "r = 0 \<and> nec_idle s' \<and> out = []"
    if "ev_reset ev" "enabled_protocols c AND RC_TYPE_NEC \<noteq> 0" "ir_nec_decode c ev s = (r, s', out)" for ev c s r s' out
    using that by (auto simp: ir_nec_decode_def is_timing_event_def nec_idle_def)
  show "r = 0 \<or> r = - EINVAL \<and> nec_idle s' \<and> out = []" if "ir_nec_decode c ev s = (r, s', out)" for c ev s r s' out
    using that by (auto simp: ir_nec_decode_def nec_fail_def nec_idle_def Let_def split: if_splits nec_state.splits)
  show "nec_wf s'" if "nec_wf s" "ir_nec_decode c ev s = (r, s', out)" for s c ev r s' out
    using that by (cases "state s") (auto simp: ir_nec_decode_def nec_fail_def nec_wf_def Let_def split: if_splits)
  show "\<exists>s' rep. run_decoder ir_nec_decode en prev evs s = (s', [rep]) \<and> id rep = r \<and> nec_idle s'"
    if "nec_idle s" "nec_means (map snd evs) r" "en AND RC_TYPE_NEC \<noteq> 0" for s evs r en prev
    using that nec_frame_run unfolding nec_means_def nec_idle_def id_def by blast
qed

section \<open>Addresses and commands\<close>

lemma nec_scancode_bytes:
  "nec_scancode (foldl shift_in 0 (byte_bits a @ byte_bits (NOT a) @ byte_bits c @ byte_bits (NOT c)))
   = push_bit 8 (ucast a) OR ucast c"
proof -
  define bs where "bs = byte_bits a @ byte_bits (NOT a) @ byte_bits c @ byte_bits (NOT c)"
  have bs: "length bs = 32" "\<And>i. i < 8 \<Longrightarrow> bs ! i = bit a i" "\<And>i. i < 8 \<Longrightarrow> bs ! (8 + i) = bit (NOT a) i"
    "\<And>i. i < 8 \<Longrightarrow> bs ! (16 + i) = bit c i" "\<And>i. i < 8 \<Longrightarrow> bs ! (24 + i) = bit (NOT c) i"
    by (simp_all add: bs_def nth_append)
  have x: "b XOR NOT b = 255" for b :: u8
    by (simp add: bit.xor_compl_right)
  show ?thesis unfolding bs_def [symmetric]
    using received_byte [of 24 bs a "0 :: u32"] received_byte [of 16 bs "NOT a" "0 :: u32"]
      received_byte [of 8 bs c "0 :: u32"] received_byte [of 0 bs "NOT c" "0 :: u32"] bs
    by (simp add: nec_scancode_def x)
qed

text \<open>The transmission of a byte and its complement twice, the address and the command.\<close>

definition nec_key :: "u8 \<times> u8 \<Rightarrow> bool list" where
  "nec_key = (\<lambda>(a, c). byte_bits a @ byte_bits (NOT a) @ byte_bits c @ byte_bits (NOT c))"

definition nec_tx :: "bool list \<Rightarrow> ir_raw_event list" where
  "nec_tx bs = [timed True 9000000, timed False 4500000]
     @ distance_tx 562500 bs @ [timed True 562500, timed False 40000000]"

lemma nec_frame_tx: "length bs = NEC_NBITS \<Longrightarrow> nec_frame bs (nec_tx bs)"
  unfolding nec_frame_def nec_tx_def
  by (intro exI conjI) (use distance_bits_tx [of 562500 bs] in auto, auto simp: pulse_ev_def timed_def is_timing_event_def near_def)

text \<open>C15. NEC transmissions round trip. Whatever was received before, after a reset the decoder turns every transmission of an
  address and a command, with every duration within half a unit of its nominal value, into one key press
  with the scancode of that address and command, in the order they were sent.\<close>

theorem nec_round_trip:
  assumes "nec_wf s" "ev_reset ev" "en AND RC_TYPE_NEC \<noteq> 0"
    and "list_all2 (\<lambda>evs key. nec_frame (nec_key key) (map snd evs)) fs ks"
  shows "snd (run_decoder ir_nec_decode en prev (noise @ (k, ev) # concat fs) s)
    = snd (run_decoder ir_nec_decode en prev noise s) @ map (\<lambda>(a, c). Keydown (push_bit 8 (ucast a) OR ucast c) 0) ks"
proof -
  have "list_all2 (\<lambda>evs r. nec_means (map snd evs) r) fs (map (\<lambda>(a, c). Keydown (push_bit 8 (ucast a) OR ucast c) 0) ks)"
    using assms(4) by (auto simp: list_all2_map2 nec_means_def nec_key_def nec_scancode_bytes elim!: list_all2_mono)
      (metis nec_scancode_bytes)
  then show ?thesis using nec.resync [OF assms(1,2) _ assms(3)] by fastforce
qed

definition nec_start :: nec_dec where
  "nec_start = \<lparr>state = STATE_INACTIVE, count = 0, bits = 0, is_nec_x = False, necx_repeat = False\<rparr>"

theorem nec_round_trip_witness:
  "snd (run_decoder ir_nec_decode RC_TYPE_NEC (timed False 0) ([(False, timed True 9000000)] @ (False, (timed False 0)\<lparr>ev_reset := True\<rparr>)
     # concat [map (Pair False) (nec_tx (nec_key (4, 8)))]) nec_start)
   = snd (run_decoder ir_nec_decode RC_TYPE_NEC (timed False 0) [(False, timed True 9000000)] nec_start)
     @ map (\<lambda>(a, c). Keydown (push_bit 8 (ucast a) OR ucast c) 0) [(4 :: u8, 8 :: u8)]"
  by (rule nec_round_trip [where ks = "[(4 :: u8, 8 :: u8)]"])
    (simp_all add: nec_wf_def nec_start_def nec_frame_tx nec_key_def comp_def)

end
