(* ===== verification/Ir_Jvc.thy ===== *)
theory Ir_Jvc
  imports Ir_Event
begin

text \<open>
  The JVC decoder (\<open>ir-jvc-decoder.c\<close>): a header, 16 bits coded by the length of a space, a trailer. While a key stays
  pressed the bits are sent again without the header, and the decoder tells a repetition from a new key by that.
\<close>

abbreviation (input) RC_TYPE_JVC :: u64 where "RC_TYPE_JVC \<equiv> 8"
abbreviation (input) JVC_NBITS :: nat where "JVC_NBITS \<equiv> 16"
abbreviation (input) JVC_UNIT :: u32 where "JVC_UNIT \<equiv> 525000"
abbreviation (input) JVC_HEADER_PULSE :: u32 where "JVC_HEADER_PULSE \<equiv> 16 * JVC_UNIT"
abbreviation (input) JVC_HEADER_SPACE :: u32 where "JVC_HEADER_SPACE \<equiv> 8 * JVC_UNIT"
abbreviation (input) JVC_BIT_PULSE :: u32 where "JVC_BIT_PULSE \<equiv> 1 * JVC_UNIT"
abbreviation (input) JVC_BIT_0_SPACE :: u32 where "JVC_BIT_0_SPACE \<equiv> 1 * JVC_UNIT"
abbreviation (input) JVC_BIT_1_SPACE :: u32 where "JVC_BIT_1_SPACE \<equiv> 3 * JVC_UNIT"
abbreviation (input) JVC_TRAILER_PULSE :: u32 where "JVC_TRAILER_PULSE \<equiv> 1 * JVC_UNIT"
abbreviation (input) JVC_TRAILER_SPACE :: u32 where "JVC_TRAILER_SPACE \<equiv> 35 * JVC_UNIT"

datatype jvc_state = STATE_INACTIVE | STATE_HEADER_SPACE | STATE_BIT_PULSE | STATE_BIT_SPACE
  | STATE_TRAILER_PULSE | STATE_TRAILER_SPACE | STATE_CHECK_REPEAT

record jvc_dec =
  state :: jvc_state
  bits :: u16
  old_bits :: u16
  count :: nat
  first :: bool
  toggle :: bool

definition jvc_fail :: "jvc_dec \<Rightarrow> int \<times> jvc_dec \<times> report list" where
  "jvc_fail data = (- EINVAL, data\<lparr>state := STATE_INACTIVE\<rparr>, [])"

definition jvc_scancode :: "u16 \<Rightarrow> u32" where
  "jvc_scancode b = push_bit 8 (ucast (bitrev8 (ucast (drop_bit 8 b AND 0xff)))) OR ucast (bitrev8 (ucast (drop_bit 0 b AND 0xff)))"

text \<open>The \<open>switch\<close> with the label \<open>again\<close> before it. The event is a copy, so that its shortening has no effect on later calls.\<close>

function jvc_again :: "ir_raw_event \<Rightarrow> jvc_dec \<Rightarrow> int \<times> jvc_dec \<times> report list" where
  "jvc_again ev data = (case state data of
     STATE_INACTIVE \<Rightarrow>
       if \<not> pulse ev then jvc_fail data
       else if \<not> eq_margin (duration ev) JVC_HEADER_PULSE (JVC_UNIT div 2) then jvc_fail data
       else (0, data\<lparr>count := 0, first := True, toggle := \<not> toggle data, state := STATE_HEADER_SPACE\<rparr>, [])
   | STATE_HEADER_SPACE \<Rightarrow>
       if pulse ev then jvc_fail data
       else if \<not> eq_margin (duration ev) JVC_HEADER_SPACE (JVC_UNIT div 2) then jvc_fail data
       else (0, data\<lparr>state := STATE_BIT_PULSE\<rparr>, [])
   | STATE_BIT_PULSE \<Rightarrow>
       if \<not> pulse ev then jvc_fail data
       else if \<not> eq_margin (duration ev) JVC_BIT_PULSE (JVC_UNIT div 2) then jvc_fail data
       else (0, data\<lparr>state := STATE_BIT_SPACE\<rparr>, [])
   | STATE_BIT_SPACE \<Rightarrow>
       if pulse ev then jvc_fail data
       else
         let one = eq_margin (duration ev) JVC_BIT_1_SPACE (JVC_UNIT div 2);
             data = data\<lparr>bits := shift_in (bits data) one\<rparr>
         in if \<not> one \<and> \<not> eq_margin (duration ev) JVC_BIT_0_SPACE (JVC_UNIT div 2) then jvc_fail data
            else let data = data\<lparr>count := (count data + 1) mod 2 ^ 32\<rparr>
                 in (0, data\<lparr>state := if count data = JVC_NBITS then STATE_TRAILER_PULSE else STATE_BIT_PULSE\<rparr>, [])
   | STATE_TRAILER_PULSE \<Rightarrow>
       if \<not> pulse ev then jvc_fail data
       else if \<not> eq_margin (duration ev) JVC_TRAILER_PULSE (JVC_UNIT div 2) then jvc_fail data
       else (0, data\<lparr>state := STATE_TRAILER_SPACE\<rparr>, [])
   | STATE_TRAILER_SPACE \<Rightarrow>
       if pulse ev then jvc_fail data
       else if \<not> geq_margin (duration ev) JVC_TRAILER_SPACE (JVC_UNIT div 2) then jvc_fail data
       else if first data then
         (0, data\<lparr>first := False, old_bits := bits data, count := 0, state := STATE_CHECK_REPEAT\<rparr>,
          [Keydown (jvc_scancode (bits data)) (of_bool (toggle data))])
       else if bits data = old_bits data then (0, data\<lparr>count := 0, state := STATE_CHECK_REPEAT\<rparr>, [Repeat])
       else jvc_fail data
   | STATE_CHECK_REPEAT \<Rightarrow>
       if \<not> pulse ev then jvc_fail data
       else jvc_again ev (data\<lparr>state := if eq_margin (duration ev) JVC_HEADER_PULSE (JVC_UNIT div 2) then STATE_INACTIVE
                                        else STATE_BIT_PULSE\<rparr>))"
  by pat_completeness auto
termination
  by (relation "measure (\<lambda>(ev, data). of_bool (state data = STATE_CHECK_REPEAT))") auto

declare jvc_again.simps [simp del]

definition ir_jvc_decode :: "jvc_dec decoder" where
  "ir_jvc_decode c ev data =
     (if enabled_protocols c AND RC_TYPE_JVC = 0 then (0, data, [])
      else if \<not> is_timing_event ev then (0, if ev_reset ev then data\<lparr>state := STATE_INACTIVE\<rparr> else data, [])
      else if \<not> geq_margin (duration ev) JVC_UNIT (JVC_UNIT div 2) then jvc_fail data
      else jvc_again ev data)"

section \<open>Tolerances\<close>

lemmas jvc_margins = eq_margin_unit [of 16 JVC_UNIT, simplified] eq_margin_unit [of 8 JVC_UNIT, simplified]
  eq_margin_unit [of 3 JVC_UNIT, simplified] eq_margin_unit [of 1 JVC_UNIT, simplified]
  geq_margin_unit [of 35 JVC_UNIT, simplified] geq_margin_unit [of 1 JVC_UNIT, simplified]

section \<open>Transmissions\<close>

text \<open>The bits and the trailer, which is all of a repetition, and a frame with its header.\<close>

definition jvc_body :: "bool list \<Rightarrow> ir_raw_event list \<Rightarrow> bool" where
  "jvc_body bs evs \<longleftrightarrow> (\<exists>body tp ts. evs = body @ [tp, ts] \<and> length bs = JVC_NBITS \<and> distance_bits 525000 bs body
     \<and> pulse_ev True 525000 1 tp \<and> is_timing_event ts \<and> \<not> pulse ts \<and> 18112500 < unat (duration ts))"

definition jvc_frame :: "bool list \<Rightarrow> ir_raw_event list \<Rightarrow> bool" where
  "jvc_frame bs evs \<longleftrightarrow> (\<exists>h sp body. evs = h # sp # body \<and> pulse_ev True 525000 16 h \<and> pulse_ev False 525000 8 sp
     \<and> jvc_body bs body)"

definition jvc_idle :: "jvc_dec \<Rightarrow> bool" where
  "jvc_idle s \<longleftrightarrow> state s = STATE_INACTIVE \<or> state s = STATE_CHECK_REPEAT"

definition jvc_wf :: "jvc_dec \<Rightarrow> bool" where
  "jvc_wf s \<longleftrightarrow> (case state s of STATE_HEADER_SPACE \<Rightarrow> count s = 0 | STATE_CHECK_REPEAT \<Rightarrow> count s = 0 \<and> \<not> first s
     | STATE_BIT_PULSE \<Rightarrow> count s < JVC_NBITS | STATE_BIT_SPACE \<Rightarrow> count s < JVC_NBITS | _ \<Rightarrow> count s \<le> JVC_NBITS)"

lemma jvc_bit_step:
  assumes "state s = STATE_BIT_PULSE \<or> state s = STATE_CHECK_REPEAT" "count s < JVC_NBITS"
    and "pulse_ev True 525000 1 p" "pulse_ev False 525000 (if b then 3 else 1) e" "en AND RC_TYPE_JVC \<noteq> 0"
  shows "\<exists>s'. run_decoder ir_jvc_decode en prev ((k1, p) # (k2, e) # evs) s = run_decoder ir_jvc_decode en e evs s'
    \<and> state s' = (if count s + 1 = JVC_NBITS then STATE_TRAILER_PULSE else STATE_BIT_PULSE) \<and> count s' = count s + 1
    \<and> bits s' = shift_in (bits s) b \<and> old_bits s' = old_bits s \<and> first s' = first s \<and> toggle s' = toggle s"
  by (intro exI [of _ "s\<lparr>bits := shift_in (bits s) b, count := count s + 1,
      state := if count s + 1 = JVC_NBITS then STATE_TRAILER_PULSE else STATE_BIT_PULSE\<rparr>"])
    (use assms in \<open>cases b; auto simp: ir_jvc_decode_def jvc_again.simps pulse_ev_def jvc_margins near_def Let_def case_prod_unfold\<close>)

lemma jvc_bits_run:
  assumes "distance_bits 525000 bs (map snd evs)" "state s = STATE_BIT_PULSE \<or> state s = STATE_CHECK_REPEAT"
    and "count s + length bs = JVC_NBITS" "bs \<noteq> []" "en AND RC_TYPE_JVC \<noteq> 0"
  shows "\<exists>s' prev'. run_decoder ir_jvc_decode en prev (evs @ rest) s = run_decoder ir_jvc_decode en prev' rest s'
    \<and> state s' = STATE_TRAILER_PULSE \<and> bits s' = foldl shift_in (bits s) bs \<and> old_bits s' = old_bits s
    \<and> first s' = first s \<and> toggle s' = toggle s"
  using assms(1-4)
proof (induction bs arbitrary: evs prev s)
  case (Cons b bs)
  obtain k1 p k2 e evs' where evs: "evs = (k1, p) # (k2, e) # evs'" and bit: "pulse_ev True 525000 1 p"
    "pulse_ev False 525000 (if b then 3 else 1) e" and rest: "distance_bits 525000 bs (map snd evs')"
    using Cons.prems(1) unfolding distance_bits_Cons by blast
  have "count s < JVC_NBITS" using Cons.prems(3) by simp
  from jvc_bit_step [OF Cons.prems(2) this bit assms(5), of prev k1 k2 "evs' @ rest"]
  obtain s1 where s1: "run_decoder ir_jvc_decode en prev (evs @ rest) s = run_decoder ir_jvc_decode en e (evs' @ rest) s1"
    "state s1 = (if count s + 1 = JVC_NBITS then STATE_TRAILER_PULSE else STATE_BIT_PULSE)" "count s1 = count s + 1"
    "bits s1 = shift_in (bits s) b" "old_bits s1 = old_bits s" "first s1 = first s" "toggle s1 = toggle s"
    by (auto simp: evs)
  show ?case
  proof (cases "bs = []")
    case True
    then show ?thesis using s1 rest Cons.prems(3) by auto
  next
    case False
    then have "count s + 1 \<noteq> JVC_NBITS" using Cons.prems(3) by (cases bs) auto
    then show ?thesis using Cons.IH [OF rest, of s1 e] s1 Cons.prems(3) False by auto
  qed
qed simp

lemma jvc_body_run:
  assumes "jvc_body bs (map snd evs)" "state s = STATE_BIT_PULSE \<or> state s = STATE_CHECK_REPEAT" "count s = 0"
    and "en AND RC_TYPE_JVC \<noteq> 0" "first s \<or> old_bits s = foldl shift_in 0 bs"
  shows "\<exists>s'. run_decoder ir_jvc_decode en prev evs s
      = (s', [if first s then Keydown (jvc_scancode (foldl shift_in 0 bs)) (of_bool (toggle s)) else Repeat])
    \<and> state s' = STATE_CHECK_REPEAT \<and> count s' = 0 \<and> \<not> first s' \<and> toggle s' = toggle s \<and> old_bits s' = foldl shift_in 0 bs"
proof -
  obtain body k1 tp k2 ts where evs: "evs = body @ [(k1, tp), (k2, ts)]"
    and bs: "length bs = JVC_NBITS" "distance_bits 525000 bs (map snd body)"
    and t: "pulse_ev True 525000 1 tp" "is_timing_event ts" "\<not> pulse ts" "18112500 < unat (duration ts)"
    using assms(1) by (auto simp: jvc_body_def map_eq_Cons_conv map_eq_append_conv)
  have full: "foldl shift_in (bits s) bs = foldl shift_in 0 bs" using bs(1) by (intro shifted_full) simp
  have "count s + length bs = JVC_NBITS" "bs \<noteq> []" using bs(1) assms(3) by auto
  from jvc_bits_run [OF bs(2) assms(2) this assms(4), of prev "[(k1, tp), (k2, ts)]"]
  obtain s1 prev' where s1: "run_decoder ir_jvc_decode en prev evs s = run_decoder ir_jvc_decode en prev' [(k1, tp), (k2, ts)] s1"
    "state s1 = STATE_TRAILER_PULSE" "bits s1 = foldl shift_in 0 bs" "old_bits s1 = old_bits s" "first s1 = first s"
    "toggle s1 = toggle s"
    unfolding evs full by blast
  show ?thesis unfolding s1(1) using t s1(2-) assms(4,5)
    by (cases "first s") (auto simp: ir_jvc_decode_def jvc_again.simps pulse_ev_def jvc_margins near_def)
qed

lemma jvc_frame_run:
  assumes "jvc_frame bs (map snd evs)" "jvc_idle s" "en AND RC_TYPE_JVC \<noteq> 0"
  shows "\<exists>s'. run_decoder ir_jvc_decode en prev evs s
      = (s', [Keydown (jvc_scancode (foldl shift_in 0 bs)) (of_bool (\<not> toggle s))])
    \<and> state s' = STATE_CHECK_REPEAT \<and> count s' = 0 \<and> \<not> first s' \<and> old_bits s' = foldl shift_in 0 bs"
proof -
  obtain k1 h k2 sp body where evs: "evs = (k1, h) # (k2, sp) # body" and body: "jvc_body bs (map snd body)"
    and h: "pulse_ev True 525000 16 h" "pulse_ev False 525000 8 sp"
    using assms(1) by (auto simp: jvc_frame_def map_eq_Cons_conv)
  define s1 where "s1 = s\<lparr>count := 0, first := True, toggle := \<not> toggle s, state := STATE_BIT_PULSE\<rparr>"
  have "run_decoder ir_jvc_decode en prev evs s = run_decoder ir_jvc_decode en sp body s1"
    using assms(2,3) h by (auto simp: evs s1_def jvc_idle_def ir_jvc_decode_def jvc_again.simps pulse_ev_def jvc_margins near_def
      case_prod_unfold)
  then show ?thesis using jvc_body_run [OF body, of s1 en sp] assms(3) by (auto simp: s1_def)
qed

text \<open>The decoder makes up the toggle bit: what a transmission determines is the scancode.\<close>

primrec scancode_of :: "report \<Rightarrow> u32 option" where
  "scancode_of (Keydown code t) = Some code"
| "scancode_of Repeat = None"

definition jvc_means :: "ir_raw_event list \<Rightarrow> u32 option \<Rightarrow> bool" where
  "jvc_means evs v \<longleftrightarrow> (\<exists>bs. jvc_frame bs evs \<and> v = Some (jvc_scancode (foldl shift_in 0 bs)))"

interpretation jvc: ir_decoder ir_jvc_decode RC_TYPE_JVC jvc_idle jvc_wf scancode_of jvc_means
proof
  show "ir_jvc_decode c ev s = (0, s, [])" if "enabled_protocols c AND RC_TYPE_JVC = 0" for c ev s
    using that by (simp add: ir_jvc_decode_def)
  show "r = 0 \<and> jvc_idle s' \<and> out = []"
    if "ev_reset ev" "enabled_protocols c AND RC_TYPE_JVC \<noteq> 0" "ir_jvc_decode c ev s = (r, s', out)" for ev c s r s' out
    using that by (auto simp: ir_jvc_decode_def is_timing_event_def jvc_idle_def)
  show "r = 0 \<or> r = - EINVAL \<and> jvc_idle s' \<and> out = []" if "ir_jvc_decode c ev s = (r, s', out)" for c ev s r s' out
    using that by (cases "state s")
      (auto simp: ir_jvc_decode_def jvc_again.simps jvc_fail_def jvc_idle_def Let_def split: if_splits)
  show "jvc_wf s'" if "jvc_wf s" "ir_jvc_decode c ev s = (r, s', out)" for s c ev r s' out
    using that by (cases "state s")
      (auto simp: ir_jvc_decode_def jvc_again.simps jvc_fail_def jvc_wf_def Let_def split: if_splits)
  show "\<exists>s' rep. run_decoder ir_jvc_decode en prev evs s = (s', [rep]) \<and> scancode_of rep = v \<and> jvc_idle s'"
    if f: "jvc_idle s" "jvc_means (map snd evs) v" "en AND RC_TYPE_JVC \<noteq> 0" for s evs v en prev
  proof -
    obtain bs where bs: "jvc_frame bs (map snd evs)" "v = Some (jvc_scancode (foldl shift_in 0 bs))"
      using f(2) by (auto simp: jvc_means_def)
    from jvc_frame_run [OF bs(1) f(1,3), of prev] show ?thesis using bs(2) unfolding jvc_idle_def by auto
  qed
qed

section \<open>A key press\<close>

lemma jvc_repeats_run:
  assumes "list_all (\<lambda>evs. jvc_body bs (map snd evs)) reps" "en AND RC_TYPE_JVC \<noteq> 0"
    and "state s = STATE_CHECK_REPEAT" "count s = 0" "\<not> first s" "old_bits s = foldl shift_in 0 bs"
  shows "\<exists>s'. run_decoder ir_jvc_decode en prev (concat reps) s = (s', replicate (length reps) Repeat) \<and> jvc_idle s'"
  using assms(1,3-)
proof (induction reps arbitrary: prev s)
  case (Cons r reps)
  then have "jvc_body bs (map snd r)" "state s = STATE_BIT_PULSE \<or> state s = STATE_CHECK_REPEAT"
    "first s \<or> old_bits s = foldl shift_in 0 bs" by simp_all
  from jvc_body_run [OF this(1,2) Cons.prems(3) assms(2) this(3), of prev] Cons.prems
  obtain s1 where "run_decoder ir_jvc_decode en prev r s = (s1, [Repeat])" "state s1 = STATE_CHECK_REPEAT" "count s1 = 0"
    "\<not> first s1" "old_bits s1 = foldl shift_in 0 bs" by auto
  then show ?case using Cons.IH [of s1 "last_ev prev r"] Cons.prems(1) by (auto simp: run_decoder_append)
qed (simp add: jvc_idle_def)

definition jvc_key :: "u8 \<times> u8 \<Rightarrow> bool list" where
  "jvc_key = (\<lambda>(d, f). byte_bits d @ byte_bits f)"

lemma jvc_scancode_bytes: "jvc_scancode (foldl shift_in 0 (jvc_key (d, f))) = push_bit 8 (ucast d) OR ucast f"
proof -
  define bs where "bs = jvc_key (d, f)"
  have bs: "length bs = 16" "\<And>i. i < 8 \<Longrightarrow> bs ! i = bit d i" "\<And>i. i < 8 \<Longrightarrow> bs ! (8 + i) = bit f i"
    by (simp_all add: bs_def jvc_key_def nth_append)
  show ?thesis unfolding bs_def [symmetric]
    using received_byte [of 8 bs d "0 :: u16"] received_byte [of 0 bs f "0 :: u16"] bs by (simp add: jvc_scancode_def)
qed

text \<open>C18. A JVC key press. The transmission of a device and a function with its header is one new key, with a toggle bit that differs
  from the one of the key before, and each of the repetitions without header that follow is a repetition of it, as long as every duration is
  within half a unit of its nominal value; the decoder is then ready for the next key.\<close>

theorem jvc_press:
  assumes "jvc_idle s" "en AND RC_TYPE_JVC \<noteq> 0" "jvc_frame (jvc_key (d, f)) (map snd evs)"
    and "list_all (\<lambda>evs. jvc_body (jvc_key (d, f)) (map snd evs)) reps"
  shows "\<exists>s'. run_decoder ir_jvc_decode en prev (evs @ concat reps) s
      = (s', Keydown (push_bit 8 (ucast d) OR ucast f) (of_bool (\<not> toggle s)) # replicate (length reps) Repeat) \<and> jvc_idle s'"
proof -
  obtain s1 where s1: "run_decoder ir_jvc_decode en prev evs s = (s1, [Keydown (push_bit 8 (ucast d) OR ucast f) (of_bool (\<not> toggle s))])"
    "state s1 = STATE_CHECK_REPEAT" "count s1 = 0" "\<not> first s1" "old_bits s1 = foldl shift_in 0 (jvc_key (d, f))"
    using jvc_frame_run [OF assms(3,1,2), of prev] unfolding jvc_scancode_bytes by blast
  from jvc_repeats_run [OF assms(4,2) s1(2-), of "last_ev prev evs"] show ?thesis
    using s1(1) by (auto simp: run_decoder_append)
qed

definition jvc_start :: jvc_dec where
  "jvc_start = \<lparr>state = STATE_INACTIVE, bits = 0, old_bits = 0, count = 0, first = False, toggle = False\<rparr>"

definition jvc_tx :: "bool list \<Rightarrow> ir_raw_event list" where
  "jvc_tx bs = distance_tx 525000 bs @ [timed True 525000, timed False 20000000]"

lemma jvc_body_tx: "length bs = JVC_NBITS \<Longrightarrow> jvc_body bs (jvc_tx bs)"
  unfolding jvc_body_def jvc_tx_def
  by (intro exI conjI) (use distance_bits_tx [of 525000 bs] in auto, auto simp: pulse_ev_def timed_def is_timing_event_def near_def)

lemma jvc_frame_tx: "length bs = JVC_NBITS \<Longrightarrow> jvc_frame bs (timed True 8400000 # timed False 4200000 # jvc_tx bs)"
  by (simp add: jvc_frame_def jvc_body_tx) (simp add: pulse_ev_def timed_def is_timing_event_def near_def)

theorem jvc_press_witness:
  "\<exists>s'. run_decoder ir_jvc_decode RC_TYPE_JVC (timed False 0)
      (map (Pair False) (timed True 8400000 # timed False 4200000 # jvc_tx (jvc_key (3, 5)))
       @ concat [map (Pair True) (jvc_tx (jvc_key (3, 5))), map (Pair True) (jvc_tx (jvc_key (3, 5)))]) jvc_start
      = (s', Keydown (push_bit 8 (ucast (3 :: u8)) OR ucast (5 :: u8)) (of_bool (\<not> toggle jvc_start))
         # replicate (length [map (Pair True) (jvc_tx (jvc_key (3, 5))), map (Pair True) (jvc_tx (jvc_key (3, 5)))]) Repeat)
    \<and> jvc_idle s'"
  by (rule jvc_press)
    (simp_all add: jvc_idle_def jvc_start_def jvc_frame_tx jvc_body_tx jvc_key_def comp_def)

end
