(* ===== verification/Ir_Sony.thy ===== *)
theory Ir_Sony
  imports Ir_Event
begin

text \<open>
  The Sony decoder (\<open>ir-sony-decoder.c\<close>): bits coded by the length of a pulse, in frames of 12, 15 or 20 bits whose end shows
  by the length of the last space only.
\<close>

abbreviation (input) RC_TYPE_SONY :: u64 where "RC_TYPE_SONY \<equiv> 16"
abbreviation (input) SONY_UNIT :: u32 where "SONY_UNIT \<equiv> 600000"
abbreviation (input) SONY_HEADER_PULSE :: u32 where "SONY_HEADER_PULSE \<equiv> 4 * SONY_UNIT"
abbreviation (input) SONY_HEADER_SPACE :: u32 where "SONY_HEADER_SPACE \<equiv> 1 * SONY_UNIT"
abbreviation (input) SONY_BIT_0_PULSE :: u32 where "SONY_BIT_0_PULSE \<equiv> 1 * SONY_UNIT"
abbreviation (input) SONY_BIT_1_PULSE :: u32 where "SONY_BIT_1_PULSE \<equiv> 2 * SONY_UNIT"
abbreviation (input) SONY_BIT_SPACE :: u32 where "SONY_BIT_SPACE \<equiv> 1 * SONY_UNIT"
abbreviation (input) SONY_TRAILER_SPACE :: u32 where "SONY_TRAILER_SPACE \<equiv> 10 * SONY_UNIT"

datatype sony_state = STATE_INACTIVE | STATE_HEADER_SPACE | STATE_BIT_PULSE | STATE_BIT_SPACE | STATE_FINISHED

record sony_dec =
  state :: sony_state
  bits :: u32
  count :: nat

definition sony_fail :: "sony_dec \<Rightarrow> int \<times> sony_dec \<times> report list" where
  "sony_fail data = (- EINVAL, data\<lparr>state := STATE_INACTIVE\<rparr>, [])"

text \<open>Device, subdevice and function of the three variants; there is no variant with another number of bits.\<close>

definition sony_fields :: "nat \<Rightarrow> u32 \<Rightarrow> (u8 \<times> u8 \<times> u8) option" where
  "sony_fields n b =
     (if n = 12 then Some (bitrev8 (ucast (push_bit 3 b AND 0xF8)), 0, bitrev8 (ucast (drop_bit 4 b AND 0xFE)))
      else if n = 15 then Some (bitrev8 (ucast (drop_bit 0 b AND 0xFF)), 0, bitrev8 (ucast (drop_bit 7 b AND 0xFD)))
      else if n = 20 then
        Some (bitrev8 (ucast (drop_bit 5 b AND 0xF8)), bitrev8 (ucast (drop_bit 0 b AND 0xFF)), bitrev8 (ucast (drop_bit 12 b AND 0xFE)))
      else None)"

definition sony_scancode :: "u8 \<times> u8 \<times> u8 \<Rightarrow> u32" where
  "sony_scancode = (\<lambda>(device, subdevice, function).
     push_bit 16 (ucast device) OR push_bit 8 (ucast subdevice) OR ucast function)"

definition sony_finish :: "ir_raw_event \<Rightarrow> sony_dec \<Rightarrow> int \<times> sony_dec \<times> report list" where
  "sony_finish ev data =
     (if pulse ev then sony_fail data
      else if \<not> geq_margin (duration ev) SONY_TRAILER_SPACE (SONY_UNIT div 2) then sony_fail data
      else case sony_fields (count data) (bits data) of
        None \<Rightarrow> sony_fail data
      | Some dsf \<Rightarrow> (0, data\<lparr>state := STATE_INACTIVE\<rparr>, [Keydown (sony_scancode dsf) 0]))"

definition ir_sony_decode :: "sony_dec decoder" where
  "ir_sony_decode c ev data =
     (if enabled_protocols c AND RC_TYPE_SONY = 0 then (0, data, [])
      else if \<not> is_timing_event ev then (0, if ev_reset ev then data\<lparr>state := STATE_INACTIVE\<rparr> else data, [])
      else if \<not> geq_margin (duration ev) SONY_UNIT (SONY_UNIT div 2) then sony_fail data
      else case state data of
        STATE_INACTIVE \<Rightarrow>
          if \<not> pulse ev then sony_fail data
          else if \<not> eq_margin (duration ev) SONY_HEADER_PULSE (SONY_UNIT div 2) then sony_fail data
          else (0, data\<lparr>count := 0, state := STATE_HEADER_SPACE\<rparr>, [])
      | STATE_HEADER_SPACE \<Rightarrow>
          if pulse ev then sony_fail data
          else if \<not> eq_margin (duration ev) SONY_HEADER_SPACE (SONY_UNIT div 2) then sony_fail data
          else (0, data\<lparr>state := STATE_BIT_PULSE\<rparr>, [])
      | STATE_BIT_PULSE \<Rightarrow>
          if \<not> pulse ev then sony_fail data
          else
            let one = eq_margin (duration ev) SONY_BIT_1_PULSE (SONY_UNIT div 2);
                data = data\<lparr>bits := shift_in (bits data) one\<rparr>
            in if \<not> one \<and> \<not> eq_margin (duration ev) SONY_BIT_0_PULSE (SONY_UNIT div 2) then sony_fail data
               else (0, data\<lparr>count := (count data + 1) mod 2 ^ 32, state := STATE_BIT_SPACE\<rparr>, [])
      | STATE_BIT_SPACE \<Rightarrow>
          if pulse ev then sony_fail data
          else if \<not> geq_margin (duration ev) SONY_BIT_SPACE (SONY_UNIT div 2) then sony_fail data
          else
            let ev = decrease_duration ev SONY_BIT_SPACE
            in if \<not> geq_margin (duration ev) SONY_UNIT (SONY_UNIT div 2) then (0, data\<lparr>state := STATE_BIT_PULSE\<rparr>, [])
               else sony_finish ev (data\<lparr>state := STATE_FINISHED\<rparr>)
      | STATE_FINISHED \<Rightarrow> sony_finish ev data)"

section \<open>Tolerances\<close>

lemmas sony_margins = eq_margin_unit [of 4 SONY_UNIT, simplified] eq_margin_unit [of 2 SONY_UNIT, simplified]
  eq_margin_unit [of 1 SONY_UNIT, simplified]
  geq_margin_unit [of 10 SONY_UNIT, simplified] geq_margin_unit [of 1 SONY_UNIT, simplified] decrease_nat

section \<open>Transmissions\<close>

fun sony_bits :: "bool list \<Rightarrow> ir_raw_event list \<Rightarrow> bool" where
  "sony_bits [b] [p, s] \<longleftrightarrow>
     pulse_ev True 600000 (if b then 2 else 1) p \<and> is_timing_event s \<and> \<not> pulse s \<and> 6300000 < unat (duration s)"
| "sony_bits (b # b' # bs) (p # s # evs) \<longleftrightarrow>
     pulse_ev True 600000 (if b then 2 else 1) p \<and> pulse_ev False 600000 1 s \<and> sony_bits (b' # bs) evs"
| "sony_bits _ _ \<longleftrightarrow> False"

definition sony_frame :: "bool list \<Rightarrow> ir_raw_event list \<Rightarrow> bool" where
  "sony_frame bs evs \<longleftrightarrow> (\<exists>h sp body. evs = h # sp # body \<and> length bs \<in> {12, 15, 20}
     \<and> pulse_ev True 600000 4 h \<and> pulse_ev False 600000 1 sp \<and> sony_bits bs body)"

lemma sony_bits_run:
  assumes "sony_bits bs (map snd evs)" "state s = STATE_BIT_PULSE" "count s + length bs < 2 ^ 32" "en AND RC_TYPE_SONY \<noteq> 0"
    and "sony_fields (count s + length bs) (foldl shift_in (bits s) bs) = Some dsf"
  shows "\<exists>s'. run_decoder ir_sony_decode en prev evs s = (s', [Keydown (sony_scancode dsf) 0]) \<and> state s' = STATE_INACTIVE"
  using assms(1-3,5)
proof (induction bs "map snd evs" arbitrary: evs prev s rule: sony_bits.induct)
  case (1 b p e)
  obtain k1 k2 where evs: "evs = [(k1, p), (k2, e)]" using 1(1) by (auto simp: map_eq_Cons_conv)
  show ?case using 1 assms(4)
    by (cases b) (auto simp: evs ir_sony_decode_def sony_finish_def pulse_ev_def sony_margins near_def Let_def)
next
  case (2 b b' bs p e evs')
  obtain k1 k2 es where evs: "evs = (k1, p) # (k2, e) # es" "evs' = map snd es" using "2.hyps"(2) by (auto simp: map_eq_Cons_conv)
  define s1 where "s1 = s\<lparr>bits := shift_in (bits s) b, count := count s + 1, state := STATE_BIT_PULSE\<rparr>"
  have "run_decoder ir_sony_decode en prev evs s = run_decoder ir_sony_decode en e es s1"
    using "2.prems" assms(4) unfolding evs s1_def
    by (cases b) (auto simp: ir_sony_decode_def pulse_ev_def sony_margins near_def Let_def case_prod_unfold)
  then show ?case using "2.hyps"(1) [OF evs(2), of s1 e] "2.prems" by (auto simp: evs s1_def)
qed auto

text \<open>The bits that carry the function, the device and the subdevice, each sent with the least significant bit first.\<close>

definition sony_key :: "nat \<Rightarrow> u8 \<times> u8 \<times> u8 \<Rightarrow> bool list" where
  "sony_key n = (\<lambda>(device, subdevice, function).
     map (bit function) [0..<7] @ map (bit device) [0..<if n = 15 then 8 else 5] @ (if n = 20 then map (bit subdevice) [0..<8] else []))"

lemma bit_bitrev8: "bit (bitrev8 (ucast (v AND m))) i \<longleftrightarrow> i < 8 \<and> bit v (7 - i) \<and> bit m (7 - i)" for v m :: u32
proof (cases "i < 8")
  case True
  then have "7 - i < 8" by linarith
  then show ?thesis using True by (simp add: bitrev8_def bit_word_reverse_iff bit_ucast_iff bit_and_iff)
qed (simp add: bitrev8_def bit_word_reverse_iff)

lemma sony_key_nth:
  assumes "n \<in> {12, 15, 20}"
  shows "length (sony_key n (d, sd, f)) = n"
    and "i < n \<Longrightarrow> sony_key n (d, sd, f) ! i =
      (if i < 7 then bit f i else if i < (if n = 15 then 15 else 12) then bit d (i - 7) else bit sd (i - 12))"
  using assms by (auto simp: sony_key_def nth_append)

lemma sony_fields_key:
  "sony_fields 12 (foldl shift_in w (sony_key 12 (d, sd, f))) = Some (take_bit 5 d, 0, take_bit 7 f)"
  "sony_fields 15 (foldl shift_in w (sony_key 15 (d, sd, f))) = Some (d, 0, take_bit 6 f OR push_bit 7 d)"
  "sony_fields 20 (foldl shift_in w (sony_key 20 (d, sd, f))) = Some (take_bit 5 d, sd, take_bit 7 f)"
  by (simp_all only: sony_fields_def option.inject prod.inject refl if_True if_False simp_thms numeral_eq_iff num.distinct num.inject)
    (intro conjI byte_eqI refl;
     simp add: bit_bitrev8 bit_drop_bit_eq bit_push_bit_iff bit_take_bit_iff bit_or_iff bit_shifted sony_key_nth del: push_bit_of_1)+

definition sony_reads :: "nat \<Rightarrow> u8 \<times> u8 \<times> u8 \<Rightarrow> u8 \<times> u8 \<times> u8" where
  "sony_reads n = (\<lambda>(d, sd, f). if n = 15 then (d, 0, take_bit 6 f OR push_bit 7 d)
     else (take_bit 5 d, if n = 20 then sd else 0, take_bit 7 f))"

lemma sony_frame_run:
  assumes "sony_frame (sony_key n key) (map snd evs)" "n \<in> {12, 15, 20}" "state s = STATE_INACTIVE" "en AND RC_TYPE_SONY \<noteq> 0"
  shows "\<exists>s'. run_decoder ir_sony_decode en prev evs s = (s', [Keydown (sony_scancode (sony_reads n key)) 0])
    \<and> state s' = STATE_INACTIVE"
proof -
  obtain k1 h k2 sp body where evs: "evs = (k1, h) # (k2, sp) # body" and body: "sony_bits (sony_key n key) (map snd body)"
    and h: "pulse_ev True 600000 4 h" "pulse_ev False 600000 1 sp"
    using assms(1) by (auto simp: sony_frame_def map_eq_Cons_conv)
  obtain d sd f where key: "key = (d, sd, f)" by (metis prod_cases3)
  define s1 where "s1 = s\<lparr>count := 0, state := STATE_BIT_PULSE\<rparr>"
  have s1: "run_decoder ir_sony_decode en prev evs s = run_decoder ir_sony_decode en sp body s1"
    using assms(3,4) h by (auto simp: evs s1_def ir_sony_decode_def pulse_ev_def sony_margins near_def case_prod_unfold)
  have "sony_fields n (foldl shift_in (bits s) (sony_key n key)) = Some (sony_reads n key)"
    using assms(2) by (auto simp: key sony_fields_key sony_reads_def)
  then show ?thesis unfolding s1 using sony_bits_run [OF body, of s1 en "sony_reads n key" sp] assms(2,4) sony_key_nth(1) [OF assms(2)]
    by (auto simp: s1_def key)
qed

definition sony_idle :: "sony_dec \<Rightarrow> bool" where
  "sony_idle s \<longleftrightarrow> state s = STATE_INACTIVE"

text \<open>The number of bits is not limited while they arrive: the counter is only known to be a 32-bit number.\<close>

definition sony_wf :: "sony_dec \<Rightarrow> bool" where
  "sony_wf s \<longleftrightarrow> count s < 2 ^ 32"

definition sony_means :: "ir_raw_event list \<Rightarrow> report \<Rightarrow> bool" where
  "sony_means evs v \<longleftrightarrow>
     (\<exists>n key. n \<in> {12, 15, 20} \<and> sony_frame (sony_key n key) evs \<and> v = Keydown (sony_scancode (sony_reads n key)) 0)"

interpretation sony: ir_decoder ir_sony_decode RC_TYPE_SONY sony_idle sony_wf id sony_means
proof
  show "ir_sony_decode c ev s = (0, s, [])" if "enabled_protocols c AND RC_TYPE_SONY = 0" for c ev s
    using that by (simp add: ir_sony_decode_def)
  show "r = 0 \<and> sony_idle s' \<and> out = []"
    if "ev_reset ev" "enabled_protocols c AND RC_TYPE_SONY \<noteq> 0" "ir_sony_decode c ev s = (r, s', out)" for ev c s r s' out
    using that by (auto simp: ir_sony_decode_def is_timing_event_def sony_idle_def)
  show "r = 0 \<or> r = - EINVAL \<and> sony_idle s' \<and> out = []" if "ir_sony_decode c ev s = (r, s', out)" for c ev s r s' out
    using that by (cases "state s")
      (auto simp: ir_sony_decode_def sony_finish_def sony_fail_def sony_idle_def Let_def split: if_splits option.splits)
  show "sony_wf s'" if "sony_wf s" "ir_sony_decode c ev s = (r, s', out)" for s c ev r s' out
    using that by (cases "state s")
      (auto simp: ir_sony_decode_def sony_finish_def sony_fail_def sony_wf_def Let_def split: if_splits option.splits)
  show "\<exists>s' rep. run_decoder ir_sony_decode en prev evs s = (s', [rep]) \<and> id rep = v \<and> sony_idle s'"
    if "sony_idle s" "sony_means (map snd evs) v" "en AND RC_TYPE_SONY \<noteq> 0" for s evs v en prev
    using that sony_frame_run unfolding sony_means_def sony_idle_def id_def by blast
qed

section \<open>Devices and functions\<close>

text \<open>A key that the variant with \<open>n\<close> bits can express.\<close>

definition sony_expresses :: "nat \<Rightarrow> u8 \<times> u8 \<times> u8 \<Rightarrow> bool" where
  "sony_expresses n = (\<lambda>(d, sd, f). unat d < 32 \<and> unat f < 128 \<and> (n = 12 \<and> sd = 0 \<or> n = 20))"

lemma sony_reads_expressed: "sony_expresses n key \<Longrightarrow> sony_reads n key = key"
  by (auto simp: sony_expresses_def sony_reads_def take_bit_small split: prod.splits)

text \<open>C17. Sony transmissions round trip. After a reset the decoder turns every transmission of 12 or 20 bits, with every duration
  within half a unit of its nominal value, into one key press with the scancode of its device, subdevice and function, in the order they
  were sent.\<close>

theorem sony_round_trip:
  assumes "sony_wf s" "ev_reset ev" "en AND RC_TYPE_SONY \<noteq> 0"
    and "list_all2 (\<lambda>evs (n, key). sony_expresses n key \<and> sony_frame (sony_key n key) (map snd evs)) fs ks"
  shows "snd (run_decoder ir_sony_decode en prev (noise @ (k, ev) # concat fs) s)
    = snd (run_decoder ir_sony_decode en prev noise s) @ map (\<lambda>(n, key). Keydown (sony_scancode key) 0) ks"
proof -
  have "sony_means (map snd evs) (Keydown (sony_scancode key) 0)"
    if "sony_expresses n key" "sony_frame (sony_key n key) (map snd evs)" for n key evs
    unfolding sony_means_def using that sony_reads_expressed [OF that(1)]
    by (intro exI [of _ n] exI [of _ key]) (auto simp: sony_expresses_def)
  then have "list_all2 (\<lambda>evs r. sony_means (map snd evs) r) fs (map (\<lambda>(n, key). Keydown (sony_scancode key) 0) ks)"
    using assms(4) by (auto simp: list_all2_map2 elim!: list_all2_mono)
  then show ?thesis using sony.resync [OF assms(1,2) _ assms(3)] by fastforce
qed

text \<open>The 15-bit variant loses a bit of the function. Whatever function and device are sent, the function of the scancode has the bit
  with value 64 cleared, and the bit with value 128 is the lowest bit of the device.\<close>

theorem sony_15_function:
  assumes "state s = STATE_INACTIVE" "en AND RC_TYPE_SONY \<noteq> 0" "sony_frame (sony_key 15 (d, 0, f)) (map snd evs)"
  shows "snd (run_decoder ir_sony_decode en prev evs s)
    = [Keydown (sony_scancode (d, 0, take_bit 6 f OR push_bit 7 d)) 0]"
  using sony_frame_run [OF assms(3) _ assms(1,2), of prev] by (auto simp: sony_reads_def)

definition sony_start :: sony_dec where
  "sony_start = \<lparr>state = STATE_INACTIVE, bits = 0, count = 0\<rparr>"

fun sony_tx :: "bool list \<Rightarrow> ir_raw_event list" where
  "sony_tx [] = []"
| "sony_tx [b] = [timed True (if b then 1200000 else 600000), timed False 15000000]"
| "sony_tx (b # b' # bs) = [timed True (if b then 1200000 else 600000), timed False 600000] @ sony_tx (b' # bs)"

lemma sony_bits_tx: "bs \<noteq> [] \<Longrightarrow> sony_bits bs (sony_tx bs)"
  by (induction bs rule: sony_tx.induct) (auto simp: pulse_ev_def timed_def is_timing_event_def near_def)

lemma sony_frame_tx:
  "n \<in> {12, 15, 20} \<Longrightarrow> sony_frame (sony_key n key) (timed True 2400000 # timed False 600000 # sony_tx (sony_key n key))"
proof -
  assume n: "n \<in> {12, 15, 20}"
  then have "length (sony_key n key) = n" using sony_key_nth(1) [of n "fst key" "fst (snd key)" "snd (snd key)"] by simp
  then have "length (sony_key n key) \<in> {12, 15, 20}" "sony_key n key \<noteq> []" using n by auto
  then show ?thesis using sony_bits_tx [of "sony_key n key"]
    by (simp add: sony_frame_def pulse_ev_def timed_def is_timing_event_def near_def)
qed

theorem sony_round_trip_witness:
  "snd (run_decoder ir_sony_decode RC_TYPE_SONY (timed False 0) ([(False, timed True 2400000)] @ (False, (timed False 0)\<lparr>ev_reset := True\<rparr>)
     # concat [map (Pair False) (timed True 2400000 # timed False 600000 # sony_tx (sony_key 12 (1, 0, 21)))]) sony_start)
   = snd (run_decoder ir_sony_decode RC_TYPE_SONY (timed False 0) [(False, timed True 2400000)] sony_start)
     @ map (\<lambda>(n :: nat, key). Keydown (sony_scancode key) 0) [(12, 1, 0, 21)]"
  by (rule sony_round_trip [where ks = "[(12, 1, 0, 21)]"])
    (use sony_frame_tx [of 12 "(1, 0, 21)"] in \<open>simp_all add: sony_wf_def sony_start_def sony_expresses_def comp_def\<close>)

theorem sony_15_function_witness:
  "snd (run_decoder ir_sony_decode RC_TYPE_SONY (timed False 0)
     (map (Pair False) (timed True 2400000 # timed False 600000 # sony_tx (sony_key 15 (1, 0, 64)))) sony_start)
   = [Keydown (sony_scancode (1, 0, take_bit 6 64 OR push_bit 7 1)) 0]"
  by (rule sony_15_function)
    (use sony_frame_tx [of 15 "(1, 0, 64)"] in \<open>simp_all add: sony_start_def comp_def\<close>)

end
