(* ===== verification/Ir_Manchester.thy ===== *)
theory Ir_Manchester
  imports Ir_Event
begin

text \<open>
  Manchester coding, which the RC-5 family of protocols uses: a bit is a transition in the middle of its time, from space to pulse for
  1 in RC-5. What arrives are the lengths of pulses and spaces, so the halves of neighbouring bits may be one event.
\<close>

text \<open>\<open>manch u b bs evs\<close>: the events carry the signal from the middle of a bit \<open>b\<close>, through the bits \<open>bs\<close>, up to the middle of the
  last one. Between equal bits there is one more transition.\<close>

fun manch :: "nat \<Rightarrow> bool \<Rightarrow> bool list \<Rightarrow> ir_raw_event list \<Rightarrow> bool" where
  "manch u b [] evs \<longleftrightarrow> evs = []"
| "manch u b (b' # bs) [] \<longleftrightarrow> False"
| "manch u b (b' # bs) (e # evs) \<longleftrightarrow>
     (if b = b' then pulse_ev b u 1 e \<and> (case evs of [] \<Rightarrow> False | e' # evs \<Rightarrow> pulse_ev (\<not> b) u 1 e' \<and> manch u b' bs evs)
      else pulse_ev b u 2 e \<and> manch u b' bs evs)"

text \<open>The end of a frame: the second half of the last bit, and a space.\<close>

fun manch_tail :: "nat \<Rightarrow> bool \<Rightarrow> ir_raw_event list \<Rightarrow> bool" where
  "manch_tail u True [p, s] \<longleftrightarrow> pulse_ev True u 1 p \<and> is_timing_event s \<and> \<not> pulse s \<and> u - u div 2 < unat (duration s)"
| "manch_tail u False [s] \<longleftrightarrow> is_timing_event s \<and> \<not> pulse s \<and> 2 * u - u div 2 < unat (duration s)"
| "manch_tail u _ _ \<longleftrightarrow> False"

lemma manch_Cons:
  assumes "manch u b (b' # bs) (map snd evs)"
  shows "\<exists>es es'. evs = es @ es' \<and> manch u b [b'] (map snd es) \<and> manch u b' bs (map snd es')"
proof (cases "b = b'")
  case True
  then obtain x y zs where "evs = x # y # zs" using assms by (cases evs rule: remdups_adj.cases) auto
  then show ?thesis using assms True by (intro exI [of _ "[x, y]"] exI [of _ zs]) simp
next
  case False
  then obtain x xs where "evs = x # xs" using assms by (cases evs) auto
  then show ?thesis using assms False by (intro exI [of _ "[x]"] exI [of _ xs]) simp
qed

lemma manch_single:
  "manch u b [b'] (map snd evs) \<longleftrightarrow>
     (if b = b' then \<exists>k1 e1 k2 e2. evs = [(k1, e1), (k2, e2)] \<and> pulse_ev b u 1 e1 \<and> pulse_ev (\<not> b) u 1 e2
      else \<exists>k e. evs = [(k, e)] \<and> pulse_ev b u 2 e)"
  by (cases evs rule: remdups_adj.cases) (auto split: prod.splits list.splits)

lemma manch_tail_map:
  "manch_tail u b (map snd evs) \<longleftrightarrow>
     (if b then \<exists>k1 p k2 s. evs = [(k1, p), (k2, s)] \<and> pulse_ev True u 1 p \<and> is_timing_event s \<and> \<not> pulse s \<and> u - u div 2 < unat (duration s)
      else \<exists>k s. evs = [(k, s)] \<and> is_timing_event s \<and> \<not> pulse s \<and> 2 * u - u div 2 < unat (duration s))"
  by (cases b; cases evs rule: remdups_adj.cases) (auto split: prod.splits list.splits elim: manch_tail.elims)

text \<open>The first event of a signal that goes on from the middle of a bit.\<close>

lemma manch_first: "manch u b bs evs \<Longrightarrow> bs \<noteq> [] \<Longrightarrow> \<exists>e es. evs = e # es \<and> (pulse_ev b u 1 e \<or> pulse_ev b u 2 e)"
  by (cases bs; cases evs) (auto split: if_splits)

text \<open>The low bits of a byte, the most significant one first.\<close>

definition msb_first :: "nat \<Rightarrow> u8 \<Rightarrow> bool list" where
  "msb_first n w = map (\<lambda>i. bit w (n - 1 - i)) [0..<n]"

lemma length_msb_first [simp]: "length (msb_first n w) = n"
  by (simp add: msb_first_def)

lemma nth_msb_first [simp]: "i < n \<Longrightarrow> msb_first n w ! i = bit w (n - 1 - i)"
  by (simp add: msb_first_def)

text \<open>A transmission with exact durations.\<close>

fun manch_tx :: "u32 \<Rightarrow> bool \<Rightarrow> bool list \<Rightarrow> ir_raw_event list" where
  "manch_tx u b [] = []"
| "manch_tx u b (b' # bs) = (if b = b' then [timed b u, timed (\<not> b) u] else [timed b (2 * u)]) @ manch_tx u b' bs"

definition manch_tail_tx :: "u32 \<Rightarrow> bool \<Rightarrow> ir_raw_event list" where
  "manch_tail_tx u b = (if b then [timed True u, timed False (2 * u)] else [timed False (2 * u)])"

lemma manch_tx_ok:
  assumes "1 < unat u" "3 * unat u < 2 ^ 32"
  shows "manch (unat u) b bs (manch_tx u b bs)" and "manch_tail (unat u) b (manch_tail_tx u b)"
proof -
  have "unat (2 * u) = 2 * unat u" using assms(2) by (simp add: unat_word_ariths)
  then have ev: "pulse_ev b (unat u) 2 (timed b (2 * u))" "pulse_ev b (unat u) (Suc 0) (timed b u)" for b
    using assms(1) by (auto simp: pulse_ev_def timed_def is_timing_event_def near_def)
  show "manch (unat u) b bs (manch_tx u b bs)"
    by (induction bs arbitrary: b) (auto simp: ev)
  show "manch_tail (unat u) b (manch_tail_tx u b)"
    using ev assms(1) \<open>unat (2 * u) = 2 * unat u\<close>
    by (cases b) (auto simp: manch_tail_tx_def timed_def is_timing_event_def)
qed

end
