(* ===== verification/Ir_Rc5.thy ===== *)
theory Ir_Rc5
  imports Ir_Manchester
begin

text \<open>
  The RC-5 decoder (\<open>ir-rc5-decoder.c\<close>): 14 bits in Manchester coding, or 20 bits with a gap after the eighth for the extended variant RC-5X.
\<close>

abbreviation (input) RC_TYPE_RC5 :: u64 where "RC_TYPE_RC5 \<equiv> 1"
abbreviation (input) RC5_NBITS :: nat where "RC5_NBITS \<equiv> 14"
abbreviation (input) RC5X_NBITS :: nat where "RC5X_NBITS \<equiv> 20"
abbreviation (input) CHECK_RC5X_NBITS :: nat where "CHECK_RC5X_NBITS \<equiv> 8"
abbreviation (input) RC5_UNIT :: u32 where "RC5_UNIT \<equiv> 888888"
abbreviation (input) RC5_BIT_START :: u32 where "RC5_BIT_START \<equiv> 1 * RC5_UNIT"
abbreviation (input) RC5_BIT_END :: u32 where "RC5_BIT_END \<equiv> 1 * RC5_UNIT"
abbreviation (input) RC5X_SPACE :: u32 where "RC5X_SPACE \<equiv> 4 * RC5_UNIT"

datatype rc5_state = STATE_INACTIVE | STATE_BIT_START | STATE_BIT_END | STATE_CHECK_RC5X | STATE_FINISHED

record rc5_dec =
  state :: rc5_state
  bits :: u32
  count :: nat
  wanted_bits :: nat

definition rc5_fail :: "rc5_dec \<Rightarrow> int \<times> rc5_dec \<times> report list" where
  "rc5_fail data = (- EINVAL, data\<lparr>state := STATE_INACTIVE\<rparr>, [])"

definition rc5_scancode :: "nat \<Rightarrow> u32 \<Rightarrow> u32 \<times> u8" where
  "rc5_scancode wanted b =
     (if wanted = RC5X_NBITS then
        let xdata = ucast (drop_bit 0 (b AND 0x3F)) :: u8;
            command = ucast (drop_bit 6 (b AND 0xFC0)) :: u8;
            system = ucast (drop_bit 12 (b AND 0x1F000)) :: u8;
            tog = if b AND 0x20000 \<noteq> 0 then 1 else 0;
            command = command + (if b AND 0x1000 \<noteq> 0 then 0 else 0x40)
        in (push_bit 16 (ucast system) OR push_bit 8 (ucast command) OR ucast xdata, tog)
      else
        let command = ucast (drop_bit 0 (b AND 0x3F)) :: u8;
            system = ucast (drop_bit 6 (b AND 0x7C0)) :: u8;
            tog = if b AND 0x800 \<noteq> 0 then 1 else 0;
            command = command + (if b AND 0x1000 \<noteq> 0 then 0 else 0x40)
        in (push_bit 8 (ucast system) OR ucast command, tog))"

text \<open>The \<open>switch\<close> with the label \<open>again\<close> before it: an event that covers more than one half of a bit is examined again after it has been
  shortened. The states passed form no cycle, so this ends.\<close>

primrec rc5_rank :: "rc5_state \<Rightarrow> nat" where
  "rc5_rank STATE_INACTIVE = 1"
| "rc5_rank STATE_BIT_START = 0"
| "rc5_rank STATE_BIT_END = 2"
| "rc5_rank STATE_CHECK_RC5X = 1"
| "rc5_rank STATE_FINISHED = 0"

function rc5_again :: "dec_ctx \<Rightarrow> ir_raw_event \<Rightarrow> rc5_dec \<Rightarrow> int \<times> rc5_dec \<times> report list" where
  "rc5_again c ev data =
     (if \<not> geq_margin (duration ev) RC5_UNIT (RC5_UNIT div 2) then (0, data, [])
      else case state data of
        STATE_INACTIVE \<Rightarrow>
          if \<not> pulse ev then rc5_fail data
          else rc5_again c (decrease_duration ev RC5_BIT_START)
            (data\<lparr>state := STATE_BIT_START, count := 1, wanted_bits := RC5X_NBITS\<rparr>)
      | STATE_BIT_START \<Rightarrow>
          if \<not> eq_margin (duration ev) RC5_BIT_START (RC5_UNIT div 2) then rc5_fail data
          else (0, data\<lparr>bits := shift_in (bits data) (\<not> pulse ev), count := (count data + 1) mod 2 ^ 32, state := STATE_BIT_END\<rparr>, [])
      | STATE_BIT_END \<Rightarrow>
          if \<not> is_transition ev (prev_ev c) then rc5_fail data
          else if count data = wanted_bits data then
            rc5_again c (decrease_duration ev RC5_BIT_END) (data\<lparr>state := STATE_FINISHED\<rparr>)
          else if count data = CHECK_RC5X_NBITS then
            rc5_again c (decrease_duration ev RC5_BIT_END) (data\<lparr>state := STATE_CHECK_RC5X\<rparr>)
          else rc5_again c (decrease_duration ev RC5_BIT_END) (data\<lparr>state := STATE_BIT_START\<rparr>)
      | STATE_CHECK_RC5X \<Rightarrow>
          if \<not> pulse ev \<and> geq_margin (duration ev) RC5X_SPACE (RC5_UNIT div 2) then
            rc5_again c (decrease_duration ev RC5X_SPACE) (data\<lparr>wanted_bits := RC5X_NBITS, state := STATE_BIT_START\<rparr>)
          else rc5_again c ev (data\<lparr>wanted_bits := RC5_NBITS, state := STATE_BIT_START\<rparr>)
      | STATE_FINISHED \<Rightarrow>
          if pulse ev then rc5_fail data
          else let (scancode, tog) = rc5_scancode (wanted_bits data) (bits data)
               in (0, data\<lparr>state := STATE_INACTIVE\<rparr>, [Keydown scancode tog]))"
  by pat_completeness auto
termination
  by (relation "measure (\<lambda>(c, ev, data). rc5_rank (state data))") auto

declare rc5_again.simps [simp del]

definition ir_rc5_decode :: "rc5_dec decoder" where
  "ir_rc5_decode c ev data =
     (if enabled_protocols c AND RC_TYPE_RC5 = 0 then (0, data, [])
      else if \<not> is_timing_event ev then (0, if ev_reset ev then data\<lparr>state := STATE_INACTIVE\<rparr> else data, [])
      else if \<not> geq_margin (duration ev) RC5_UNIT (RC5_UNIT div 2) then rc5_fail data
      else rc5_again c ev data)"

section \<open>Tolerances\<close>

lemmas rc5_margins = eq_margin_unit [of 1 RC5_UNIT, simplified] geq_margin_unit [of 1 RC5_UNIT, simplified]
  geq_margin_unit [of 4 RC5_UNIT, simplified] decrease_nat

lemmas rc5_step_defs = ir_rc5_decode_def rc5_again.simps pulse_ev_def rc5_margins near_def is_transition_def

section \<open>Bits\<close>

lemma rc5_bit_step:
  assumes "state s = STATE_BIT_END" "pulse prev = (\<not> b)" "count s \<noteq> wanted_bits s" "count s < 32"
    and "manch 888888 b [b'] (map snd evs)" "en AND RC_TYPE_RC5 \<noteq> 0"
  shows "\<exists>s' prev'. run_decoder ir_rc5_decode en prev (evs @ rest) s = run_decoder ir_rc5_decode en prev' rest s'
    \<and> state s' = STATE_BIT_END \<and> pulse prev' = (\<not> b') \<and> count s' = count s + 1 \<and> bits s' = shift_in (bits s) b'
    \<and> wanted_bits s' = (if count s = CHECK_RC5X_NBITS then RC5_NBITS else wanted_bits s)"
proof -
  define s' where "s' = s\<lparr>wanted_bits := if count s = CHECK_RC5X_NBITS then RC5_NBITS else wanted_bits s,
    bits := shift_in (bits s) b', count := count s + 1, state := STATE_BIT_END\<rparr>"
  show ?thesis
  proof (cases "b = b'")
    case True
    then obtain k1 e1 k2 e2 where evs: "evs = [(k1, e1), (k2, e2)]" "pulse_ev b 888888 1 e1" "pulse_ev (\<not> b) 888888 1 e2"
      using assms(5) unfolding manch_single by auto
    have r: "run_decoder ir_rc5_decode en prev (evs @ rest) s = run_decoder ir_rc5_decode en e2 rest s'"
      using assms evs True by (auto simp: s'_def rc5_step_defs case_prod_unfold)
    show ?thesis unfolding r using evs True by (intro exI [of _ s'] exI [of _ e2]) (auto simp: s'_def pulse_ev_def)
  next
    case False
    then obtain k e where evs: "evs = [(k, e)]" "pulse_ev b 888888 2 e"
      using assms(5) unfolding manch_single by auto
    have r: "run_decoder ir_rc5_decode en prev (evs @ rest) s = run_decoder ir_rc5_decode en e rest s'"
      using assms evs False by (auto simp: s'_def rc5_step_defs case_prod_unfold)
    show ?thesis unfolding r using evs False by (intro exI [of _ s'] exI [of _ e]) (auto simp: s'_def pulse_ev_def)
  qed
qed

text \<open>A run of bits without a gap: the eighth bit decides that the frame is one of 14 bits.\<close>

lemma rc5_bits_run:
  assumes "manch 888888 b bs (map snd evs)" "state s = STATE_BIT_END" "pulse prev = (\<not> b)" "en AND RC_TYPE_RC5 \<noteq> 0"
    and "if count s \<le> CHECK_RC5X_NBITS then wanted_bits s = RC5X_NBITS \<and> count s + length bs \<le> RC5_NBITS
         else count s + length bs \<le> wanted_bits s \<and> wanted_bits s \<le> RC5X_NBITS"
  shows "\<exists>s' prev'. run_decoder ir_rc5_decode en prev (evs @ rest) s = run_decoder ir_rc5_decode en prev' rest s'
    \<and> state s' = STATE_BIT_END \<and> pulse prev' = (\<not> last (b # bs)) \<and> count s' = count s + length bs
    \<and> bits s' = foldl shift_in (bits s) bs
    \<and> wanted_bits s' = (if count s \<le> CHECK_RC5X_NBITS \<and> CHECK_RC5X_NBITS < count s + length bs then RC5_NBITS else wanted_bits s)"
  using assms(1-3,5)
proof (induction bs arbitrary: b evs prev s)
  case (Cons b' bs)
  obtain es es' where es: "evs = es @ es'" "manch 888888 b [b'] (map snd es)" "manch 888888 b' bs (map snd es')"
    using manch_Cons [OF Cons.prems(1)] by blast
  have "count s \<noteq> wanted_bits s" "count s < 32" using Cons.prems(4) by (auto split: if_splits)
  from rc5_bit_step [OF Cons.prems(2,3) this es(2) assms(4), of "es' @ rest"]
  obtain s1 prev1 where s1: "run_decoder ir_rc5_decode en prev (evs @ rest) s = run_decoder ir_rc5_decode en prev1 (es' @ rest) s1"
    "state s1 = STATE_BIT_END" "pulse prev1 = (\<not> b')" "count s1 = count s + 1" "bits s1 = shift_in (bits s) b'"
    "wanted_bits s1 = (if count s = CHECK_RC5X_NBITS then RC5_NBITS else wanted_bits s)"
    unfolding es(1) by auto
  have "if count s1 \<le> CHECK_RC5X_NBITS then wanted_bits s1 = RC5X_NBITS \<and> count s1 + length bs \<le> RC5_NBITS
    else count s1 + length bs \<le> wanted_bits s1 \<and> wanted_bits s1 \<le> RC5X_NBITS"
    using Cons.prems(4) s1(4,6) by (auto split: if_splits)
  from Cons.IH [OF es(3) s1(2,3) this] obtain s2 prev2 where s2:
    "run_decoder ir_rc5_decode en prev1 (es' @ rest) s1 = run_decoder ir_rc5_decode en prev2 rest s2"
    "state s2 = STATE_BIT_END" "pulse prev2 = (\<not> last (b' # bs))" "count s2 = count s1 + length bs"
    "bits s2 = foldl shift_in (bits s1) bs"
    "wanted_bits s2 = (if count s1 \<le> CHECK_RC5X_NBITS \<and> CHECK_RC5X_NBITS < count s1 + length bs then RC5_NBITS else wanted_bits s1)"
    by blast
  then show ?case using s1 by (intro exI [of _ s2] exI [of _ prev2]) auto
qed auto

lemma rc5_start:
  assumes "state s = STATE_INACTIVE" "en AND RC_TYPE_RC5 \<noteq> 0" "manch 888888 True bs (map snd evs)" "bs \<noteq> []" "\<not> pulse prev'"
  shows "run_decoder ir_rc5_decode en prev (evs @ rest) s
    = run_decoder ir_rc5_decode en prev' (evs @ rest) (s\<lparr>state := STATE_BIT_END, count := 1, wanted_bits := RC5X_NBITS\<rparr>)"
proof -
  obtain k e es where evs: "evs = (k, e) # es" and e: "pulse_ev True 888888 1 e \<or> pulse_ev True 888888 2 e"
    using manch_first [OF assms(3,4)] by (auto simp: map_eq_Cons_conv)
  have "ir_rc5_decode \<lparr>enabled_protocols = en, prev_ev = prev, key_held = k\<rparr> e s
    = ir_rc5_decode \<lparr>enabled_protocols = en, prev_ev = prev', key_held = k\<rparr> e
        (s\<lparr>state := STATE_BIT_END, count := 1, wanted_bits := RC5X_NBITS\<rparr>)"
    using assms e by (auto simp: rc5_step_defs)
  then show ?thesis by (simp add: evs)
qed

lemma rc5_finish:
  assumes "state s = STATE_BIT_END" "count s = wanted_bits s" "pulse prev = (\<not> b)" "manch_tail 888888 b (map snd evs)"
    and "en AND RC_TYPE_RC5 \<noteq> 0" "rc5_scancode (wanted_bits s) (bits s) = (scancode, tog)"
  shows "\<exists>s'. run_decoder ir_rc5_decode en prev evs s = (s', [Keydown scancode tog]) \<and> state s' = STATE_INACTIVE"
proof (cases b)
  case True
  then obtain k1 p k2 e where "evs = [(k1, p), (k2, e)]" "pulse_ev True 888888 1 p" "is_timing_event e" "\<not> pulse e"
    "444444 < unat (duration e)"
    using assms(4) by (auto simp: manch_tail_map)
  then show ?thesis using assms True by (auto simp: rc5_step_defs)
next
  case False
  then obtain k e where "evs = [(k, e)]" "is_timing_event e" "\<not> pulse e" "1333332 < unat (duration e)"
    using assms(4) by (auto simp: manch_tail_map)
  then show ?thesis using assms False by (auto simp: rc5_step_defs)
qed

text \<open>The gap of RC-5X, from the middle of the bit before it to the middle of the bit after it.\<close>

definition rc5x_gap :: "bool \<Rightarrow> bool \<Rightarrow> ir_raw_event list \<Rightarrow> bool" where
  "rc5x_gap b b' evs \<longleftrightarrow> (\<exists>pre g post. evs = pre @ [g] @ post \<and> (if b then \<exists>p. pre = [p] \<and> pulse_ev True 888888 1 p else pre = [])
     \<and> pulse_ev False 888888 ((if b then 4 else 5) + (if b' then 1 else 0)) g
     \<and> (if b' then post = [] else \<exists>q. post = [q] \<and> pulse_ev True 888888 1 q))"

lemma rc5x_gap_run:
  assumes "state s = STATE_BIT_END" "pulse prev = (\<not> b)" "count s = CHECK_RC5X_NBITS" "wanted_bits s = RC5X_NBITS"
    and "rc5x_gap b b' (map snd evs)" "en AND RC_TYPE_RC5 \<noteq> 0"
  shows "\<exists>s' prev'. run_decoder ir_rc5_decode en prev (evs @ rest) s = run_decoder ir_rc5_decode en prev' rest s'
    \<and> state s' = STATE_BIT_END \<and> pulse prev' = (\<not> b') \<and> count s' = 9 \<and> bits s' = shift_in (bits s) b'
    \<and> wanted_bits s' = RC5X_NBITS"
proof -
  obtain pre k g post where evs: "evs = pre @ [(k, g)] @ post"
    and pre: "if b then \<exists>k p. pre = [(k, p)] \<and> pulse_ev True 888888 1 p else pre = []"
    and g: "pulse_ev False 888888 ((if b then 4 else 5) + (if b' then 1 else 0)) g"
    and post: "if b' then post = [] else \<exists>k q. post = [(k, q)] \<and> pulse_ev True 888888 1 q"
  proof -
    obtain pre g post where m: "map snd evs = pre @ [g] @ post" "if b then \<exists>p. pre = [p] \<and> pulse_ev True 888888 1 p else pre = []"
      "pulse_ev False 888888 ((if b then 4 else 5) + (if b' then 1 else 0)) g"
      "if b' then post = [] else \<exists>q. post = [q] \<and> pulse_ev True 888888 1 q"
      using assms(5) unfolding rc5x_gap_def by blast
    from m(1) obtain pre' k post' where "evs = pre' @ [(k, g)] @ post'" "pre = map snd pre'" "post = map snd post'"
      by (auto simp: map_eq_append_conv map_eq_Cons_conv)
    moreover have "if b then \<exists>k p. pre' = [(k, p)] \<and> pulse_ev True 888888 1 p else pre' = []"
      using m(2) calculation(2) by (auto simp: map_eq_Cons_conv)
    moreover have "if b' then post' = [] else \<exists>k q. post' = [(k, q)] \<and> pulse_ev True 888888 1 q"
      using m(4) calculation(3) by (auto simp: map_eq_Cons_conv)
    ultimately show thesis using that m(3) by blast
  qed
  define s' where "s' = s\<lparr>wanted_bits := RC5X_NBITS, bits := shift_in (bits s) b', count := 9, state := STATE_BIT_END\<rparr>"
  have "\<exists>prev'. run_decoder ir_rc5_decode en prev (evs @ rest) s = run_decoder ir_rc5_decode en prev' rest s' \<and> pulse prev' = (\<not> b')"
  proof (cases b')
    case True
    then show ?thesis using assms pre g post
      by (intro exI [of _ g]) (cases b; auto simp: evs s'_def rc5_step_defs case_prod_unfold)
  next
    case False
    then obtain k' q where "post = [(k', q)]" "pulse_ev True 888888 1 q" using post by auto
    then show ?thesis using assms pre g False
      by (intro exI [of _ q]) (cases b; auto simp: evs s'_def rc5_step_defs case_prod_unfold)
  qed
  then obtain prev' where r: "run_decoder ir_rc5_decode en prev (evs @ rest) s = run_decoder ir_rc5_decode en prev' rest s'"
    "pulse prev' = (\<not> b')" by blast
  show ?thesis unfolding r(1) by (intro exI [of _ s'] exI [of _ prev']) (simp add: s'_def r(2))
qed

section \<open>Frames\<close>

text \<open>The bits after the first start bit, which is always 1.\<close>

definition rc5_frame :: "bool list \<Rightarrow> ir_raw_event list \<Rightarrow> bool" where
  "rc5_frame bs evs \<longleftrightarrow> (\<exists>body tl. evs = body @ tl \<and> length bs = 13 \<and> manch 888888 True bs body \<and> manch_tail 888888 (last bs) tl)"

definition rc5x_frame :: "bool list \<Rightarrow> ir_raw_event list \<Rightarrow> bool" where
  "rc5x_frame bs evs \<longleftrightarrow> (\<exists>bs1 b bs2 head gap body tl. bs = bs1 @ b # bs2 \<and> length bs1 = 7 \<and> length bs2 = 11
     \<and> evs = head @ gap @ body @ tl \<and> manch 888888 True bs1 head \<and> rc5x_gap (last bs1) b gap \<and> manch 888888 b bs2 body
     \<and> manch_tail 888888 (last bs2) tl)"

lemma rc5_frame_run:
  assumes "rc5_frame bs (map snd evs)" "state s = STATE_INACTIVE" "en AND RC_TYPE_RC5 \<noteq> 0"
    and "rc5_scancode RC5_NBITS (foldl shift_in (bits s) bs) = (scancode, tog)"
  shows "\<exists>s'. run_decoder ir_rc5_decode en prev evs s = (s', [Keydown scancode tog]) \<and> state s' = STATE_INACTIVE"
proof -
  obtain body tl where evs: "evs = body @ tl" and bs: "length bs = 13" "manch 888888 True bs (map snd body)"
    "manch_tail 888888 (last bs) (map snd tl)"
    using assms(1) by (auto simp: rc5_frame_def map_eq_append_conv)
  then have "bs \<noteq> []" by auto
  define s0 where "s0 = s\<lparr>state := STATE_BIT_END, count := 1, wanted_bits := RC5X_NBITS\<rparr>"
  have r: "run_decoder ir_rc5_decode en prev evs s = run_decoder ir_rc5_decode en (timed False 0) (body @ tl) s0"
    unfolding evs s0_def by (rule rc5_start [OF assms(2,3) bs(2) \<open>bs \<noteq> []\<close>]) (simp add: timed_def)
  obtain s1 prev1 where s1: "run_decoder ir_rc5_decode en (timed False 0) (body @ tl) s0 = run_decoder ir_rc5_decode en prev1 tl s1"
    "state s1 = STATE_BIT_END" "pulse prev1 = (\<not> last bs)" "count s1 = 14" "bits s1 = foldl shift_in (bits s) bs" "wanted_bits s1 = RC5_NBITS"
    using rc5_bits_run [OF bs(2) _ _ assms(3), of s0 "timed False 0" tl] bs(1) \<open>bs \<noteq> []\<close> by (auto simp: s0_def timed_def)
  show ?thesis unfolding r s1(1) using s1 by (intro rc5_finish [OF _ _ s1(3) bs(3) assms(3)]) (simp_all add: assms(4))
qed

lemma rc5x_frame_run:
  assumes "rc5x_frame bs (map snd evs)" "state s = STATE_INACTIVE" "en AND RC_TYPE_RC5 \<noteq> 0"
    and "rc5_scancode RC5X_NBITS (foldl shift_in (bits s) bs) = (scancode, tog)"
  shows "\<exists>s'. run_decoder ir_rc5_decode en prev evs s = (s', [Keydown scancode tog]) \<and> state s' = STATE_INACTIVE"
proof -
  obtain bs1 b bs2 head gap body tl where bs: "bs = bs1 @ b # bs2" "length bs1 = 7" "length bs2 = 11" and evs: "evs = head @ gap @ body @ tl"
    and m: "manch 888888 True bs1 (map snd head)" "rc5x_gap (last bs1) b (map snd gap)" "manch 888888 b bs2 (map snd body)"
    "manch_tail 888888 (last bs2) (map snd tl)"
  proof -
    obtain bs1 b bs2 head gap body tl where m: "bs = bs1 @ b # bs2" "length bs1 = 7" "length bs2 = 11" "map snd evs = head @ gap @ body @ tl"
      "manch 888888 True bs1 head" "rc5x_gap (last bs1) b gap" "manch 888888 b bs2 body" "manch_tail 888888 (last bs2) tl"
      using assms(1) unfolding rc5x_frame_def by blast
    from m(4) obtain head' gap' body' tl' where "evs = head' @ gap' @ body' @ tl'" "head = map snd head'" "gap = map snd gap'"
      "body = map snd body'" "tl = map snd tl'"
      by (auto simp: map_eq_append_conv append_eq_map_conv)
    then show thesis using m that by blast
  qed
  then have "bs1 \<noteq> []" "bs2 \<noteq> []" by auto
  define s0 where "s0 = s\<lparr>state := STATE_BIT_END, count := 1, wanted_bits := RC5X_NBITS\<rparr>"
  have r: "run_decoder ir_rc5_decode en prev evs s = run_decoder ir_rc5_decode en (timed False 0) (head @ gap @ body @ tl) s0"
    unfolding evs s0_def by (rule rc5_start [OF assms(2,3) m(1) \<open>bs1 \<noteq> []\<close>]) (simp add: timed_def)
  obtain s1 prev1 where s1:
    "run_decoder ir_rc5_decode en (timed False 0) (head @ gap @ body @ tl) s0 = run_decoder ir_rc5_decode en prev1 (gap @ body @ tl) s1"
    "state s1 = STATE_BIT_END" "pulse prev1 = (\<not> last bs1)" "count s1 = 8" "bits s1 = foldl shift_in (bits s) bs1" "wanted_bits s1 = RC5X_NBITS"
    using rc5_bits_run [OF m(1) _ _ assms(3), of s0 "timed False 0" "gap @ body @ tl"] bs(2) \<open>bs1 \<noteq> []\<close> by (auto simp: s0_def timed_def)
  obtain s2 prev2 where s2: "run_decoder ir_rc5_decode en prev1 (gap @ body @ tl) s1 = run_decoder ir_rc5_decode en prev2 (body @ tl) s2"
    "state s2 = STATE_BIT_END" "pulse prev2 = (\<not> b)" "count s2 = 9" "bits s2 = shift_in (bits s1) b" "wanted_bits s2 = RC5X_NBITS"
    using rc5x_gap_run [OF s1(2,3,4,6) m(2) assms(3), of "body @ tl"] by blast
  obtain s3 prev3 where s3: "run_decoder ir_rc5_decode en prev2 (body @ tl) s2 = run_decoder ir_rc5_decode en prev3 tl s3"
    "state s3 = STATE_BIT_END" "pulse prev3 = (\<not> last bs2)" "count s3 = 20" "bits s3 = foldl shift_in (bits s) bs" "wanted_bits s3 = RC5X_NBITS"
    using rc5_bits_run [OF m(3) s2(2,3) assms(3), of tl] bs s2(4-) s1(5) \<open>bs2 \<noteq> []\<close> by auto
  show ?thesis unfolding r s1(1) s2(1) s3(1) using s3 by (intro rc5_finish [OF _ _ s3(3) m(4) assms(3)]) (simp_all add: assms(4))
qed

section \<open>Systems and commands\<close>

text \<open>The second start bit is the inverted bit 6 of the command.\<close>

definition rc5_key :: "u8 \<times> u8 \<times> bool \<Rightarrow> bool list" where
  "rc5_key = (\<lambda>(system, command, tog). [\<not> bit command 6, tog] @ msb_first 5 system @ msb_first 6 command)"

definition rc5x_key :: "u8 \<times> u8 \<times> u8 \<times> bool \<Rightarrow> bool list" where
  "rc5x_key = (\<lambda>(system, command, xdata, tog).
     [\<not> bit command 6, tog] @ msb_first 5 system @ msb_first 6 command @ msb_first 6 xdata)"

lemma rc5_key_nth:
  "length (rc5_key (sys, cmd, t)) = 13"
  "i < 13 \<Longrightarrow> rc5_key (sys, cmd, t) ! i =
     (if i = 0 then \<not> bit cmd 6 else if i = 1 then t else if i < 7 then bit sys (6 - i) else bit cmd (12 - i))"
  by (auto simp: rc5_key_def nth_append nth_Cons')

lemma rc5x_key_nth:
  "length (rc5x_key (sys, cmd, x, t)) = 19"
  "i < 19 \<Longrightarrow> rc5x_key (sys, cmd, x, t) ! i =
     (if i = 0 then \<not> bit cmd 6 else if i = 1 then t else if i < 7 then bit sys (6 - i) else if i < 13 then bit cmd (12 - i)
      else bit x (18 - i))"
  by (auto simp: rc5x_key_def nth_append nth_Cons')

lemma and_bit: "w AND 2 ^ n \<noteq> 0 \<longleftrightarrow> bit w n" for w :: u32
  by (simp add: and_exp_eq_0_iff_not_bit)

lemma command_bit_6: "take_bit 6 c + (if bit c 6 then 0x40 else 0) = take_bit 7 c" for c :: u8
proof -
  have "take_bit 6 c AND 0x40 = 0" by (rule byte_eqI; simp add: bit_and_iff bit_take_bit_iff)
  then have "take_bit 6 c + 0x40 = take_bit 6 c OR 0x40" by (rule disjunctive_add_eq_or)
  moreover have "take_bit 6 c OR 0x40 = take_bit 7 c" if "bit c 6"
    by (rule byte_eqI; use that in \<open>simp add: bit_or_iff bit_take_bit_iff\<close>)
  moreover have "take_bit 6 c = take_bit 7 c" if "\<not> bit c 6"
    by (rule byte_eqI; use that in \<open>simp add: bit_or_iff bit_take_bit_iff\<close>)
  ultimately show ?thesis by simp
qed

lemma rc5_scancode_key:
  "rc5_scancode RC5_NBITS (foldl shift_in w (rc5_key (sys, cmd, t)))
   = (push_bit 8 (ucast (take_bit 5 sys)) OR ucast (take_bit 7 cmd), of_bool t)"
proof -
  define W where "W = foldl shift_in w (rc5_key (sys, cmd, t))"
  have W: "bit W i = rc5_key (sys, cmd, t) ! (12 - i)" if "i < 13" for i
    using that by (simp add: W_def bit_shifted rc5_key_nth(1))
  have "ucast (drop_bit 0 (W AND 0x3F)) = take_bit 6 cmd" "ucast (drop_bit 6 (W AND 0x7C0)) = take_bit 5 sys"
    by (rule byte_eqI; simp add: bit_ucast_iff bit_drop_bit_eq bit_and_iff bit_take_bit_iff W rc5_key_nth)+
  moreover have "W AND 0x1000 \<noteq> 0 \<longleftrightarrow> \<not> bit cmd 6" "W AND 0x800 \<noteq> 0 \<longleftrightarrow> t"
    using and_bit [of W 12] and_bit [of W 11] by (simp_all add: W rc5_key_nth)
  ultimately show ?thesis unfolding W_def [symmetric] rc5_scancode_def
    using command_bit_6 [of cmd] by (cases t; cases "bit cmd 6") (simp_all add: Let_def)
qed

text \<open>The mask for bit 6 of the command is the one of the shorter frame, where it selects the second start bit. In the longer frame it
  selects the lowest bit of the system.\<close>

definition rc5x_reads :: "u8 \<times> u8 \<times> u8 \<times> bool \<Rightarrow> report" where
  "rc5x_reads = (\<lambda>(sys, cmd, x, t). Keydown (push_bit 16 (ucast (take_bit 5 sys))
     OR push_bit 8 (ucast (take_bit 6 cmd + (if bit sys 0 then 0 else 0x40))) OR ucast (take_bit 6 x)) (of_bool t))"

lemma rc5x_scancode_key:
  "case_prod Keydown (rc5_scancode RC5X_NBITS (foldl shift_in w (rc5x_key (sys, cmd, x, t)))) = rc5x_reads (sys, cmd, x, t)"
proof -
  define W where "W = foldl shift_in w (rc5x_key (sys, cmd, x, t))"
  have W: "bit W i = rc5x_key (sys, cmd, x, t) ! (18 - i)" if "i < 19" for i
    using that by (simp add: W_def bit_shifted rc5x_key_nth(1))
  have "ucast (drop_bit 0 (W AND 0x3F)) = take_bit 6 x" "ucast (drop_bit 6 (W AND 0xFC0)) = take_bit 6 cmd"
    "ucast (drop_bit 12 (W AND 0x1F000)) = take_bit 5 sys"
    by (rule byte_eqI; simp add: bit_ucast_iff bit_drop_bit_eq bit_and_iff bit_take_bit_iff W rc5x_key_nth)+
  moreover have "W AND 0x1000 \<noteq> 0 \<longleftrightarrow> bit sys 0" "W AND 0x20000 \<noteq> 0 \<longleftrightarrow> t"
    using and_bit [of W 12] and_bit [of W 17] by (simp_all add: W rc5x_key_nth)
  ultimately show ?thesis unfolding W_def [symmetric] rc5_scancode_def rc5x_reads_def
    by (cases t; cases "bit sys 0") (simp_all add: Let_def)
qed

definition rc5_reads :: "u8 \<times> u8 \<times> bool \<Rightarrow> report" where
  "rc5_reads = (\<lambda>(sys, cmd, t). Keydown (push_bit 8 (ucast (take_bit 5 sys)) OR ucast (take_bit 7 cmd)) (of_bool t))"

definition rc5_means :: "ir_raw_event list \<Rightarrow> report \<Rightarrow> bool" where
  "rc5_means evs v \<longleftrightarrow>
     (\<exists>key. rc5_frame (rc5_key key) evs \<and> v = rc5_reads key) \<or> (\<exists>key. rc5x_frame (rc5x_key key) evs \<and> v = rc5x_reads key)"

definition rc5_idle :: "rc5_dec \<Rightarrow> bool" where
  "rc5_idle s \<longleftrightarrow> state s = STATE_INACTIVE"

text \<open>The counter never passes the number of bits wanted.\<close>

definition rc5_wf :: "rc5_dec \<Rightarrow> bool" where
  "rc5_wf s \<longleftrightarrow> state s = STATE_INACTIVE \<or> wanted_bits s \<in> {RC5_NBITS, RC5X_NBITS} \<and> (case state s of
     STATE_BIT_START \<Rightarrow> count s < wanted_bits s | STATE_CHECK_RC5X \<Rightarrow> count s = CHECK_RC5X_NBITS
   | STATE_FINISHED \<Rightarrow> count s = wanted_bits s | _ \<Rightarrow> count s \<le> wanted_bits s)"

lemma rc5_means_run:
  assumes "state s = STATE_INACTIVE" "rc5_means (map snd evs) v" "en AND RC_TYPE_RC5 \<noteq> 0"
  shows "\<exists>s'. run_decoder ir_rc5_decode en prev evs s = (s', [v]) \<and> state s' = STATE_INACTIVE"
  using assms(2) unfolding rc5_means_def
proof (elim disjE exE conjE)
  fix key assume f: "rc5_frame (rc5_key key) (map snd evs)" "v = rc5_reads key"
  obtain sys cmd t where key: "key = (sys, cmd, t)" by (metis prod_cases3)
  show ?thesis using rc5_frame_run [OF f(1) assms(1,3) rc5_scancode_key [of "bits s" sys cmd t, folded key]] f(2)
    by (simp add: key rc5_reads_def)
next
  fix key assume f: "rc5x_frame (rc5x_key key) (map snd evs)" "v = rc5x_reads key"
  obtain sys cmd x t where key: "key = (sys, cmd, x, t)" by (metis prod_cases4)
  obtain scancode tog where r: "rc5_scancode RC5X_NBITS (foldl shift_in (bits s) (rc5x_key key)) = (scancode, tog)" by fastforce
  then have "v = Keydown scancode tog" using rc5x_scancode_key [of "bits s" sys cmd x t] f(2) by (simp add: key)
  then show ?thesis using rc5x_frame_run [OF f(1) assms(1,3) r] by simp
qed

interpretation rc5: ir_decoder ir_rc5_decode RC_TYPE_RC5 rc5_idle rc5_wf id rc5_means
proof
  show "ir_rc5_decode c ev s = (0, s, [])" if "enabled_protocols c AND RC_TYPE_RC5 = 0" for c ev s
    using that by (simp add: ir_rc5_decode_def)
  show "r = 0 \<and> rc5_idle s' \<and> out = []"
    if "ev_reset ev" "enabled_protocols c AND RC_TYPE_RC5 \<noteq> 0" "ir_rc5_decode c ev s = (r, s', out)" for ev c s r s' out
    using that by (auto simp: ir_rc5_decode_def is_timing_event_def rc5_idle_def)
  show "r = 0 \<or> r = - EINVAL \<and> rc5_idle s' \<and> out = []" if "ir_rc5_decode c ev s = (r, s', out)" for c ev s r s' out
    using that by (cases "state s")
      (auto simp: ir_rc5_decode_def rc5_again.simps rc5_fail_def rc5_idle_def split: if_splits prod.splits)
  show "rc5_wf s'" if "rc5_wf s" "ir_rc5_decode c ev s = (r, s', out)" for s c ev r s' out
    using that by (cases "state s")
      (auto simp: ir_rc5_decode_def rc5_again.simps rc5_fail_def rc5_wf_def split: if_splits prod.splits)
  show "\<exists>s' rep. run_decoder ir_rc5_decode en prev evs s = (s', [rep]) \<and> id rep = v \<and> rc5_idle s'"
    if "rc5_idle s" "rc5_means (map snd evs) v" "en AND RC_TYPE_RC5 \<noteq> 0" for s evs v en prev
    using that rc5_means_run unfolding rc5_idle_def id_def by blast
qed

text \<open>C16. RC-5 transmissions round trip. After a reset the decoder turns every transmission of a system (5 bits) and a command (7 bits), with
  every pulse and space within half a unit of its nominal length, into one key press with the scancode and the toggle bit sent,
  in the order they were sent.\<close>

theorem rc5_round_trip:
  assumes "rc5_wf s" "ev_reset ev" "en AND RC_TYPE_RC5 \<noteq> 0"
    and "list_all2 (\<lambda>evs (sys, cmd, t). unat sys < 32 \<and> unat cmd < 128 \<and> rc5_frame (rc5_key (sys, cmd, t)) (map snd evs)) fs ks"
  shows "snd (run_decoder ir_rc5_decode en prev (noise @ (k, ev) # concat fs) s)
    = snd (run_decoder ir_rc5_decode en prev noise s) @ map (\<lambda>(sys, cmd, t). Keydown (push_bit 8 (ucast sys) OR ucast cmd) (of_bool t)) ks"
proof -
  have "rc5_means (map snd evs) (Keydown (push_bit 8 (ucast sys) OR ucast cmd) (of_bool t))"
    if "unat sys < 32" "unat cmd < 128" "rc5_frame (rc5_key (sys, cmd, t)) (map snd evs)" for sys cmd t evs
    unfolding rc5_means_def using that by (intro disjI1 exI [of _ "(sys, cmd, t)"]) (simp add: rc5_reads_def take_bit_small)
  then have "list_all2 (\<lambda>evs r. rc5_means (map snd evs) r) fs
    (map (\<lambda>(sys, cmd, t). Keydown (push_bit 8 (ucast sys) OR ucast cmd) (of_bool t)) ks)"
    unfolding list_all2_map2 by (intro list_all2_mono [OF assms(4)]) auto
  then show ?thesis using rc5.resync [OF assms(1,2) _ assms(3)] by fastforce
qed

text \<open>RC-5X reports the wrong command. Whatever is sent, bit 6 of the command in the scancode of a frame of 20 bits is the inverted lowest bit
  of the system; the second start bit, which carries it, has no influence.\<close>

theorem rc5x_command_bit:
  assumes "rc5_idle s" "en AND RC_TYPE_RC5 \<noteq> 0" "rc5x_frame (rc5x_key (sys, cmd, x, t)) (map snd evs)"
  shows "snd (run_decoder ir_rc5_decode en prev evs s)
    = [Keydown (push_bit 16 (ucast (take_bit 5 sys)) OR push_bit 8 (ucast (take_bit 6 cmd + (if bit sys 0 then 0 else 0x40)))
        OR ucast (take_bit 6 x)) (of_bool t)]"
proof -
  have "rc5_means (map snd evs) (rc5x_reads (sys, cmd, x, t))"
    unfolding rc5_means_def using assms(3) by blast
  from rc5_means_run [OF _ this assms(2), of s prev] show ?thesis using assms(1) by (auto simp: rc5_idle_def rc5x_reads_def)
qed

definition rc5_dec_start :: rc5_dec where
  "rc5_dec_start = \<lparr>state = STATE_INACTIVE, bits = 0, count = 0, wanted_bits = 0\<rparr>"

definition rc5_tx :: "bool list \<Rightarrow> ir_raw_event list" where
  "rc5_tx bs = manch_tx 888888 True bs @ manch_tail_tx 888888 (last bs)"

definition rc5x_gap_tx :: "bool \<Rightarrow> bool \<Rightarrow> ir_raw_event list" where
  "rc5x_gap_tx b b' = (if b then [timed True 888888] else [])
     @ [timed False (((if b then 4 else 5) + (if b' then 1 else 0)) * 888888)] @ (if b' then [] else [timed True 888888])"

definition rc5x_tx :: "bool list \<Rightarrow> ir_raw_event list" where
  "rc5x_tx bs = manch_tx 888888 True (take 7 bs) @ rc5x_gap_tx (bs ! 6) (bs ! 7)
     @ manch_tx 888888 (bs ! 7) (drop 8 bs) @ manch_tail_tx 888888 (last (drop 8 bs))"

lemma rc5_frame_tx: "length bs = 13 \<Longrightarrow> rc5_frame bs (rc5_tx bs)"
  unfolding rc5_frame_def rc5_tx_def using manch_tx_ok [of 888888] by (intro exI conjI) auto

lemma rc5x_frame_tx:
  assumes "length bs = 19"
  shows "rc5x_frame bs (rc5x_tx bs)"
proof -
  have bs: "bs = take 7 bs @ bs ! 7 # drop 8 bs" using assms id_take_nth_drop [of 7 bs] by simp
  have l: "last (take 7 bs) = bs ! 6" using assms by (subst last_conv_nth) auto
  have g: "rc5x_gap b b' (rc5x_gap_tx b b')" for b b'
    unfolding rc5x_gap_def rc5x_gap_tx_def
    by (intro exI conjI, rule refl) (auto simp: pulse_ev_def timed_def is_timing_event_def near_def)
  show ?thesis unfolding rc5x_frame_def
    using assms g [of "bs ! 6" "bs ! 7", folded l] manch_tx_ok [of 888888]
    by (intro exI [of _ "take 7 bs"] exI [of _ "bs ! 7"] exI [of _ "drop 8 bs"] exI [of _ "manch_tx 888888 True (take 7 bs)"]
      exI [of _ "rc5x_gap_tx (bs ! 6) (bs ! 7)"] exI [of _ "manch_tx 888888 (bs ! 7) (drop 8 bs)"]
      exI [of _ "manch_tail_tx 888888 (last (drop 8 bs))"] conjI bs) (simp_all add: rc5x_tx_def l)
qed

theorem rc5_round_trip_witness:
  "snd (run_decoder ir_rc5_decode RC_TYPE_RC5 (timed False 0) ([(False, timed True 888888)] @ (False, (timed False 0)\<lparr>ev_reset := True\<rparr>)
     # concat [map (Pair False) (rc5_tx (rc5_key (5, 0x4C, True)))]) rc5_dec_start)
   = snd (run_decoder ir_rc5_decode RC_TYPE_RC5 (timed False 0) [(False, timed True 888888)] rc5_dec_start)
     @ map (\<lambda>(sys, cmd, t). Keydown (push_bit 8 (ucast sys) OR ucast cmd) (of_bool t)) [(5 :: u8, 0x4C :: u8, True)]"
  by (rule rc5_round_trip [where ks = "[(5, 0x4C, True)]"])
    (simp_all add: rc5_wf_def rc5_dec_start_def rc5_frame_tx rc5_key_nth comp_def)

theorem rc5x_command_bit_witness:
  "snd (run_decoder ir_rc5_decode RC_TYPE_RC5 (timed False 0) (map (Pair False) (rc5x_tx (rc5x_key (1, 0x41, 2, False)))) rc5_dec_start)
   = [Keydown (push_bit 16 (ucast (take_bit 5 (1 :: u8))) OR push_bit 8 (ucast (take_bit 6 0x41 + (if bit (1 :: u8) 0 then 0 else 0x40 :: u8)))
        OR ucast (take_bit 6 (2 :: u8))) (of_bool False)]"
  by (rule rc5x_command_bit) (simp_all add: rc5_idle_def rc5_dec_start_def rc5x_frame_tx rc5x_key_nth comp_def)

end
