(* ===== verification/Ir_Rc5_Sz.thy ===== *)
theory Ir_Rc5_Sz
  imports Ir_Manchester
begin

text \<open>
  The decoder of the RC-5 variant that Streamzap remote controls use (\<open>ir-rc5-sz-decoder.c\<close>): 15 bits in Manchester coding.
\<close>

abbreviation (input) RC_TYPE_RC5_SZ :: u64 where "RC_TYPE_RC5_SZ \<equiv> 32"
abbreviation (input) RC5_SZ_NBITS :: nat where "RC5_SZ_NBITS \<equiv> 15"
abbreviation (input) RC5_UNIT :: u32 where "RC5_UNIT \<equiv> 888888"
abbreviation (input) RC5_BIT_START :: u32 where "RC5_BIT_START \<equiv> 1 * RC5_UNIT"
abbreviation (input) RC5_BIT_END :: u32 where "RC5_BIT_END \<equiv> 1 * RC5_UNIT"

datatype rc5_sz_state = STATE_INACTIVE | STATE_BIT_START | STATE_BIT_END | STATE_FINISHED

record rc5_sz_dec =
  state :: rc5_sz_state
  bits :: u32
  count :: nat
  wanted_bits :: nat

definition rc5_sz_fail :: "rc5_sz_dec \<Rightarrow> int \<times> rc5_sz_dec \<times> report list" where
  "rc5_sz_fail data = (- EINVAL, data\<lparr>state := STATE_INACTIVE\<rparr>, [])"

definition rc5_sz_scancode :: "u32 \<Rightarrow> u32 \<times> u8" where
  "rc5_sz_scancode b =
     (let command = ucast (drop_bit 0 (b AND 0x3F)) :: u8;
          system = ucast (drop_bit 6 (b AND 0x2FC0)) :: u8;
          tog = if b AND 0x1000 \<noteq> 0 then 1 else 0
      in (push_bit 6 (ucast system) OR ucast command, tog))"

primrec rc5_sz_rank :: "rc5_sz_state \<Rightarrow> nat" where
  "rc5_sz_rank STATE_INACTIVE = 1"
| "rc5_sz_rank STATE_BIT_START = 0"
| "rc5_sz_rank STATE_BIT_END = 1"
| "rc5_sz_rank STATE_FINISHED = 0"

function rc5_sz_again :: "dec_ctx \<Rightarrow> ir_raw_event \<Rightarrow> rc5_sz_dec \<Rightarrow> int \<times> rc5_sz_dec \<times> report list" where
  "rc5_sz_again c ev data =
     (if \<not> geq_margin (duration ev) RC5_UNIT (RC5_UNIT div 2) then (0, data, [])
      else case state data of
        STATE_INACTIVE \<Rightarrow>
          if \<not> pulse ev then rc5_sz_fail data
          else rc5_sz_again c (decrease_duration ev RC5_BIT_START)
            (data\<lparr>state := STATE_BIT_START, count := 1, wanted_bits := RC5_SZ_NBITS\<rparr>)
      | STATE_BIT_START \<Rightarrow>
          if \<not> eq_margin (duration ev) RC5_BIT_START (RC5_UNIT div 2) then rc5_sz_fail data
          else (0, data\<lparr>bits := shift_in (bits data) (\<not> pulse ev), count := (count data + 1) mod 2 ^ 32, state := STATE_BIT_END\<rparr>, [])
      | STATE_BIT_END \<Rightarrow>
          if \<not> is_transition ev (prev_ev c) then rc5_sz_fail data
          else if count data = wanted_bits data then
            rc5_sz_again c (decrease_duration ev RC5_BIT_END) (data\<lparr>state := STATE_FINISHED\<rparr>)
          else rc5_sz_again c (decrease_duration ev RC5_BIT_END) (data\<lparr>state := STATE_BIT_START\<rparr>)
      | STATE_FINISHED \<Rightarrow>
          if pulse ev then rc5_sz_fail data
          else let (scancode, tog) = rc5_sz_scancode (bits data)
               in (0, data\<lparr>state := STATE_INACTIVE\<rparr>, [Keydown scancode tog]))"
  by pat_completeness auto
termination
  by (relation "measure (\<lambda>(c, ev, data). rc5_sz_rank (state data))") auto

declare rc5_sz_again.simps [simp del]

definition ir_rc5_sz_decode :: "rc5_sz_dec decoder" where
  "ir_rc5_sz_decode c ev data =
     (if enabled_protocols c AND RC_TYPE_RC5_SZ = 0 then (0, data, [])
      else if \<not> is_timing_event ev then (0, if ev_reset ev then data\<lparr>state := STATE_INACTIVE\<rparr> else data, [])
      else if \<not> geq_margin (duration ev) RC5_UNIT (RC5_UNIT div 2) then rc5_sz_fail data
      else rc5_sz_again c ev data)"

lemmas rc5_sz_margins = eq_margin_unit [of 1 RC5_UNIT, simplified] geq_margin_unit [of 1 RC5_UNIT, simplified] decrease_nat

lemmas rc5_sz_step_defs = ir_rc5_sz_decode_def rc5_sz_again.simps pulse_ev_def rc5_sz_margins near_def is_transition_def

section \<open>Bits\<close>

lemma rc5_sz_bit_step:
  assumes "state s = STATE_BIT_END" "pulse prev = (\<not> b)" "count s \<noteq> wanted_bits s" "count s < 32"
    and "manch 888888 b [b'] (map snd evs)" "en AND RC_TYPE_RC5_SZ \<noteq> 0"
  shows "\<exists>prev'. run_decoder ir_rc5_sz_decode en prev (evs @ rest) s
      = run_decoder ir_rc5_sz_decode en prev' rest (s\<lparr>bits := shift_in (bits s) b', count := count s + 1\<rparr>) \<and> pulse prev' = (\<not> b')"
proof -
  have st: "s\<lparr>bits := w, count := n\<rparr> = s\<lparr>bits := w, count := n, state := STATE_BIT_END\<rparr>" for w n
    using assms(1) by (cases s) simp
  show ?thesis
  proof (cases "b = b'")
    case True
    then obtain k1 e1 k2 e2 where "evs = [(k1, e1), (k2, e2)]" "pulse_ev b 888888 1 e1" "pulse_ev (\<not> b) 888888 1 e2"
      using assms(5) unfolding manch_single by auto
    then show ?thesis using assms True by (subst st, intro exI [of _ e2]) (auto simp: rc5_sz_step_defs case_prod_unfold)
  next
    case False
    then obtain k e where "evs = [(k, e)]" "pulse_ev b 888888 2 e" using assms(5) unfolding manch_single by auto
    then show ?thesis using assms False by (subst st, intro exI [of _ e]) (auto simp: rc5_sz_step_defs case_prod_unfold)
  qed
qed

lemma rc5_sz_bits_run:
  assumes "manch 888888 b bs (map snd evs)" "state s = STATE_BIT_END" "pulse prev = (\<not> b)" "en AND RC_TYPE_RC5_SZ \<noteq> 0"
    and "count s + length bs \<le> wanted_bits s" "wanted_bits s \<le> 32"
  shows "\<exists>prev'. run_decoder ir_rc5_sz_decode en prev (evs @ rest) s
      = run_decoder ir_rc5_sz_decode en prev' rest (s\<lparr>bits := foldl shift_in (bits s) bs, count := count s + length bs\<rparr>)
    \<and> pulse prev' = (\<not> last (b # bs))"
  using assms(1-3,5,6)
proof (induction bs arbitrary: b evs prev s)
  case (Cons b' bs)
  obtain es es' where es: "evs = es @ es'" "manch 888888 b [b'] (map snd es)" "manch 888888 b' bs (map snd es')"
    using manch_Cons [OF Cons.prems(1)] by blast
  have "count s \<noteq> wanted_bits s" "count s < 32" using Cons.prems(4,5) by auto
  from rc5_sz_bit_step [OF Cons.prems(2,3) this es(2) assms(4), of "es' @ rest"]
  obtain prev1 where s1: "run_decoder ir_rc5_sz_decode en prev (evs @ rest) s
      = run_decoder ir_rc5_sz_decode en prev1 (es' @ rest) (s\<lparr>bits := shift_in (bits s) b', count := count s + 1\<rparr>)" "pulse prev1 = (\<not> b')"
    unfolding es(1) by auto
  show ?case unfolding s1(1)
    using Cons.IH [OF es(3), of "s\<lparr>bits := shift_in (bits s) b', count := count s + 1\<rparr>" prev1] s1(2) Cons.prems(2,4,5) by simp
qed auto

lemma rc5_sz_finish:
  assumes "state s = STATE_BIT_END" "count s = wanted_bits s" "pulse prev = (\<not> b)" "manch_tail 888888 b (map snd evs)"
    and "en AND RC_TYPE_RC5_SZ \<noteq> 0" "rc5_sz_scancode (bits s) = (scancode, tog)"
  shows "\<exists>s'. run_decoder ir_rc5_sz_decode en prev evs s = (s', [Keydown scancode tog]) \<and> state s' = STATE_INACTIVE"
proof (cases b)
  case True
  then obtain k1 p k2 e where "evs = [(k1, p), (k2, e)]" "pulse_ev True 888888 1 p" "is_timing_event e" "\<not> pulse e"
    "444444 < unat (duration e)"
    using assms(4) by (auto simp: manch_tail_map)
  then show ?thesis using assms True by (auto simp: rc5_sz_step_defs)
next
  case False
  then obtain k e where "evs = [(k, e)]" "is_timing_event e" "\<not> pulse e" "1333332 < unat (duration e)"
    using assms(4) by (auto simp: manch_tail_map)
  then show ?thesis using assms False by (auto simp: rc5_sz_step_defs)
qed

section \<open>Frames\<close>

definition rc5_sz_frame :: "bool list \<Rightarrow> ir_raw_event list \<Rightarrow> bool" where
  "rc5_sz_frame bs evs \<longleftrightarrow>
     (\<exists>body tl. evs = body @ tl \<and> length bs = 14 \<and> manch 888888 True bs body \<and> manch_tail 888888 (last bs) tl)"

lemma rc5_sz_frame_run:
  assumes "rc5_sz_frame bs (map snd evs)" "state s = STATE_INACTIVE" "en AND RC_TYPE_RC5_SZ \<noteq> 0"
    and "rc5_sz_scancode (foldl shift_in (bits s) bs) = (scancode, tog)"
  shows "\<exists>s'. run_decoder ir_rc5_sz_decode en prev evs s = (s', [Keydown scancode tog]) \<and> state s' = STATE_INACTIVE"
proof -
  obtain body tl where evs: "evs = body @ tl" and bs: "length bs = 14" "manch 888888 True bs (map snd body)"
    "manch_tail 888888 (last bs) (map snd tl)"
    using assms(1) by (auto simp: rc5_sz_frame_def map_eq_append_conv)
  then have "bs \<noteq> []" by auto
  obtain k e es where body: "body = (k, e) # es" and e: "pulse_ev True 888888 1 e \<or> pulse_ev True 888888 2 e"
    using manch_first [OF bs(2) \<open>bs \<noteq> []\<close>] by (auto simp: map_eq_Cons_conv)
  define s0 where "s0 = s\<lparr>state := STATE_BIT_END, count := 1, wanted_bits := RC5_SZ_NBITS\<rparr>"
  have "ir_rc5_sz_decode \<lparr>enabled_protocols = en, prev_ev = prev, key_held = k\<rparr> e s
    = ir_rc5_sz_decode \<lparr>enabled_protocols = en, prev_ev = timed False 0, key_held = k\<rparr> e s0"
    using assms e by (auto simp: s0_def rc5_sz_step_defs timed_def)
  then have r: "run_decoder ir_rc5_sz_decode en prev evs s = run_decoder ir_rc5_sz_decode en (timed False 0) (body @ tl) s0"
    by (simp add: evs body)
  obtain prev1 where s1: "run_decoder ir_rc5_sz_decode en (timed False 0) (body @ tl) s0
      = run_decoder ir_rc5_sz_decode en prev1 tl (s0\<lparr>bits := foldl shift_in (bits s) bs, count := 15\<rparr>)" "pulse prev1 = (\<not> last bs)"
    using rc5_sz_bits_run [OF bs(2) _ _ assms(3), of s0 "timed False 0" tl] bs(1) \<open>bs \<noteq> []\<close> by (auto simp: s0_def timed_def)
  show ?thesis unfolding r s1(1) by (intro rc5_sz_finish [OF _ _ s1(2) bs(3) assms(3)]) (simp_all add: s0_def assms(4))
qed

text \<open>The second start bit is the highest bit of the system, which has no bit 6.\<close>

definition rc5_sz_key :: "u8 \<times> u8 \<times> bool \<Rightarrow> bool list" where
  "rc5_sz_key = (\<lambda>(system, command, tog). [bit system 7, tog] @ msb_first 6 system @ msb_first 6 command)"

definition rc5_sz_reads :: "u8 \<times> u8 \<times> bool \<Rightarrow> report" where
  "rc5_sz_reads = (\<lambda>(sys, cmd, t). Keydown (push_bit 6 (ucast (sys AND 0xBF)) OR ucast (take_bit 6 cmd)) (of_bool t))"

lemma rc5_sz_key_nth:
  "length (rc5_sz_key (sys, cmd, t)) = 14"
  "i < 14 \<Longrightarrow> rc5_sz_key (sys, cmd, t) ! i =
     (if i = 0 then bit sys 7 else if i = 1 then t else if i < 8 then bit sys (7 - i) else bit cmd (13 - i))"
  by (auto simp: rc5_sz_key_def nth_append nth_Cons')

lemma rc5_sz_scancode_key:
  "case_prod Keydown (rc5_sz_scancode (foldl shift_in w (rc5_sz_key (sys, cmd, t)))) = rc5_sz_reads (sys, cmd, t)"
proof -
  define W where "W = foldl shift_in w (rc5_sz_key (sys, cmd, t))"
  have W: "bit W i = rc5_sz_key (sys, cmd, t) ! (13 - i)" if "i < 14" for i
    using that by (simp add: W_def bit_shifted rc5_sz_key_nth(1))
  have "ucast (drop_bit 0 (W AND 0x3F)) = take_bit 6 cmd" "ucast (drop_bit 6 (W AND 0x2FC0)) = sys AND 0xBF"
    by (rule byte_eqI; simp add: bit_ucast_iff bit_drop_bit_eq bit_and_iff bit_take_bit_iff W rc5_sz_key_nth)+
  moreover have "W AND 0x1000 \<noteq> 0 \<longleftrightarrow> t"
    using and_exp_eq_0_iff_not_bit [of W 12] by (simp add: W rc5_sz_key_nth)
  ultimately show ?thesis unfolding W_def [symmetric] rc5_sz_scancode_def rc5_sz_reads_def
    by (cases t) (simp_all add: Let_def)
qed

definition rc5_sz_means :: "ir_raw_event list \<Rightarrow> report \<Rightarrow> bool" where
  "rc5_sz_means evs v \<longleftrightarrow> (\<exists>key. rc5_sz_frame (rc5_sz_key key) evs \<and> v = rc5_sz_reads key)"

definition rc5_sz_idle :: "rc5_sz_dec \<Rightarrow> bool" where
  "rc5_sz_idle s \<longleftrightarrow> state s = STATE_INACTIVE"

definition rc5_sz_wf :: "rc5_sz_dec \<Rightarrow> bool" where
  "rc5_sz_wf s \<longleftrightarrow> state s = STATE_INACTIVE \<or> wanted_bits s = RC5_SZ_NBITS \<and> (case state s of
     STATE_BIT_START \<Rightarrow> count s < wanted_bits s | STATE_FINISHED \<Rightarrow> count s = wanted_bits s | _ \<Rightarrow> count s \<le> wanted_bits s)"

interpretation rc5_sz: ir_decoder ir_rc5_sz_decode RC_TYPE_RC5_SZ rc5_sz_idle rc5_sz_wf id rc5_sz_means
proof
  show "ir_rc5_sz_decode c ev s = (0, s, [])" if "enabled_protocols c AND RC_TYPE_RC5_SZ = 0" for c ev s
    using that by (simp add: ir_rc5_sz_decode_def)
  show "r = 0 \<and> rc5_sz_idle s' \<and> out = []"
    if "ev_reset ev" "enabled_protocols c AND RC_TYPE_RC5_SZ \<noteq> 0" "ir_rc5_sz_decode c ev s = (r, s', out)" for ev c s r s' out
    using that by (auto simp: ir_rc5_sz_decode_def is_timing_event_def rc5_sz_idle_def)
  show "r = 0 \<or> r = - EINVAL \<and> rc5_sz_idle s' \<and> out = []" if "ir_rc5_sz_decode c ev s = (r, s', out)" for c ev s r s' out
    using that by (cases "state s")
      (auto simp: ir_rc5_sz_decode_def rc5_sz_again.simps rc5_sz_fail_def rc5_sz_idle_def split: if_splits prod.splits)
  show "rc5_sz_wf s'" if "rc5_sz_wf s" "ir_rc5_sz_decode c ev s = (r, s', out)" for s c ev r s' out
    using that by (cases "state s")
      (auto simp: ir_rc5_sz_decode_def rc5_sz_again.simps rc5_sz_fail_def rc5_sz_wf_def split: if_splits prod.splits)
  show "\<exists>s' rep. run_decoder ir_rc5_sz_decode en prev evs s = (s', [rep]) \<and> id rep = v \<and> rc5_sz_idle s'"
    if f: "rc5_sz_idle s" "rc5_sz_means (map snd evs) v" "en AND RC_TYPE_RC5_SZ \<noteq> 0" for s evs v en prev
  proof -
    obtain sys cmd t where key: "rc5_sz_frame (rc5_sz_key (sys, cmd, t)) (map snd evs)" "v = rc5_sz_reads (sys, cmd, t)"
      using f(2) by (auto simp: rc5_sz_means_def)
    obtain scancode tog where r: "rc5_sz_scancode (foldl shift_in (bits s) (rc5_sz_key (sys, cmd, t))) = (scancode, tog)" by fastforce
    then have "v = Keydown scancode tog" using rc5_sz_scancode_key [of "bits s" sys cmd t] key(2) by simp
    then show ?thesis using rc5_sz_frame_run [OF key(1) _ f(3) r] f(1) by (auto simp: rc5_sz_idle_def)
  qed
qed

text \<open>C19. Streamzap transmissions round trip. After a reset the decoder turns every transmission of a system and a command of 6 bits, with every
  pulse and space within half a unit of its nominal length, into one key press with the scancode and the toggle bit sent, in
  the order they were sent.\<close>

theorem rc5_sz_round_trip:
  assumes "rc5_sz_wf s" "ev_reset ev" "en AND RC_TYPE_RC5_SZ \<noteq> 0"
    and "list_all2 (\<lambda>evs (sys, cmd, t). \<not> bit sys 6 \<and> unat cmd < 64 \<and> rc5_sz_frame (rc5_sz_key (sys, cmd, t)) (map snd evs)) fs ks"
  shows "snd (run_decoder ir_rc5_sz_decode en prev (noise @ (k, ev) # concat fs) s)
    = snd (run_decoder ir_rc5_sz_decode en prev noise s) @ map (\<lambda>(sys, cmd, t). Keydown (push_bit 6 (ucast sys) OR ucast cmd) (of_bool t)) ks"
proof -
  have "sys AND 0xBF = sys" if "\<not> bit sys 6" for sys :: u8
    by (rule byte_eqI; use that in \<open>simp add: bit_and_iff\<close>)
  then have "rc5_sz_means (map snd evs) (Keydown (push_bit 6 (ucast sys) OR ucast cmd) (of_bool t))"
    if "\<not> bit sys 6" "unat cmd < 64" "rc5_sz_frame (rc5_sz_key (sys, cmd, t)) (map snd evs)" for sys cmd t evs
    unfolding rc5_sz_means_def using that by (intro exI [of _ "(sys, cmd, t)"]) (simp add: rc5_sz_reads_def take_bit_small)
  then have "list_all2 (\<lambda>evs r. rc5_sz_means (map snd evs) r) fs
    (map (\<lambda>(sys, cmd, t). Keydown (push_bit 6 (ucast sys) OR ucast cmd) (of_bool t)) ks)"
    unfolding list_all2_map2 by (intro list_all2_mono [OF assms(4)]) auto
  then show ?thesis using rc5_sz.resync [OF assms(1,2) _ assms(3)] by fastforce
qed

definition rc5_sz_start :: rc5_sz_dec where
  "rc5_sz_start = \<lparr>state = STATE_INACTIVE, bits = 0, count = 0, wanted_bits = 0\<rparr>"

definition rc5_sz_tx :: "bool list \<Rightarrow> ir_raw_event list" where
  "rc5_sz_tx bs = manch_tx 888888 True bs @ manch_tail_tx 888888 (last bs)"

lemma rc5_sz_frame_tx: "length bs = 14 \<Longrightarrow> rc5_sz_frame bs (rc5_sz_tx bs)"
  unfolding rc5_sz_frame_def rc5_sz_tx_def using manch_tx_ok [of 888888] by (intro exI conjI) auto

theorem rc5_sz_round_trip_witness:
  "snd (run_decoder ir_rc5_sz_decode RC_TYPE_RC5_SZ (timed False 0) ([(False, timed True 888888)] @ (False, (timed False 0)\<lparr>ev_reset := True\<rparr>)
     # concat [map (Pair False) (rc5_sz_tx (rc5_sz_key (0xA3, 5, False)))]) rc5_sz_start)
   = snd (run_decoder ir_rc5_sz_decode RC_TYPE_RC5_SZ (timed False 0) [(False, timed True 888888)] rc5_sz_start)
     @ map (\<lambda>(sys, cmd, t). Keydown (push_bit 6 (ucast sys) OR ucast cmd) (of_bool t)) [(0xA3 :: u8, 5 :: u8, False)]"
  by (rule rc5_sz_round_trip [where ks = "[(0xA3, 5, False)]"])
    (simp_all add: rc5_sz_wf_def rc5_sz_start_def rc5_sz_frame_tx rc5_sz_key_nth comp_def)

end
