(* ===== verification/Ir_Rc6.thy ===== *)
theory Ir_Rc6
  imports Ir_Manchester
begin

text \<open>
  The RC-6 decoder (\<open>ir-rc6-decoder.c\<close>) for mode 0 with 16 bits and mode 6A with 24 or 32 bits: a prefix, four header bits, a toggle bit
  of double width, and the body, in Manchester coding with the opposite polarity of RC-5.
\<close>

abbreviation (input) RC_TYPE_RC6 :: u64 where "RC_TYPE_RC6 \<equiv> 4"
abbreviation (input) RC6_UNIT :: u32 where "RC6_UNIT \<equiv> 444444"
abbreviation (input) RC6_HEADER_NBITS :: nat where "RC6_HEADER_NBITS \<equiv> 4"
abbreviation (input) RC6_0_NBITS :: nat where "RC6_0_NBITS \<equiv> 16"
abbreviation (input) RC6_6A_SMALL_NBITS :: nat where "RC6_6A_SMALL_NBITS \<equiv> 24"
abbreviation (input) RC6_6A_LARGE_NBITS :: nat where "RC6_6A_LARGE_NBITS \<equiv> 32"
abbreviation (input) RC6_PREFIX_PULSE :: u32 where "RC6_PREFIX_PULSE \<equiv> 6 * RC6_UNIT"
abbreviation (input) RC6_PREFIX_SPACE :: u32 where "RC6_PREFIX_SPACE \<equiv> 2 * RC6_UNIT"
abbreviation (input) RC6_BIT_START :: u32 where "RC6_BIT_START \<equiv> 1 * RC6_UNIT"
abbreviation (input) RC6_BIT_END :: u32 where "RC6_BIT_END \<equiv> 1 * RC6_UNIT"
abbreviation (input) RC6_TOGGLE_START :: u32 where "RC6_TOGGLE_START \<equiv> 2 * RC6_UNIT"
abbreviation (input) RC6_TOGGLE_END :: u32 where "RC6_TOGGLE_END \<equiv> 2 * RC6_UNIT"
abbreviation (input) RC6_MODE_MASK :: u8 where "RC6_MODE_MASK \<equiv> 0x07"
abbreviation (input) RC6_STARTBIT_MASK :: u8 where "RC6_STARTBIT_MASK \<equiv> 0x08"
abbreviation (input) RC6_6A_MCE_TOGGLE_MASK :: u32 where "RC6_6A_MCE_TOGGLE_MASK \<equiv> 0x8000"

datatype rc6_mode_t = RC6_MODE_0 | RC6_MODE_6A | RC6_MODE_UNKNOWN

datatype rc6_state = STATE_INACTIVE | STATE_PREFIX_SPACE | STATE_HEADER_BIT_START | STATE_HEADER_BIT_END
  | STATE_TOGGLE_START | STATE_TOGGLE_END | STATE_BODY_BIT_START | STATE_BODY_BIT_END | STATE_FINISHED

record rc6_dec =
  state :: rc6_state
  header :: u8
  body :: u32
  toggle :: bool
  count :: nat
  wanted_bits :: nat

definition rc6_mode :: "rc6_dec \<Rightarrow> rc6_mode_t" where
  "rc6_mode data =
     (if header data AND RC6_MODE_MASK = 0 then RC6_MODE_0
      else if header data AND RC6_MODE_MASK = 6 then (if \<not> toggle data then RC6_MODE_6A else RC6_MODE_UNKNOWN)
      else RC6_MODE_UNKNOWN)"

definition rc6_fail :: "rc6_dec \<Rightarrow> int \<times> rc6_dec \<times> report list" where
  "rc6_fail data = (- EINVAL, data\<lparr>state := STATE_INACTIVE\<rparr>, [])"

text \<open>The number of body bits, found at the end of the toggle bit: in mode 6A it depends on the first body bit, which shows by whether the event
  goes on. \<open>None\<close> is an unknown mode.\<close>

definition rc6_body_bits :: "ir_raw_event \<Rightarrow> rc6_dec \<Rightarrow> nat option" where
  "rc6_body_bits ev data = (case rc6_mode data of
     RC6_MODE_0 \<Rightarrow> Some RC6_0_NBITS
   | RC6_MODE_6A \<Rightarrow>
       if \<not> pulse ev \<and> \<not> geq_margin (duration ev) RC6_UNIT (RC6_UNIT div 2) \<or> geq_margin (duration ev) RC6_UNIT (RC6_UNIT div 2)
       then Some RC6_6A_LARGE_NBITS else Some RC6_6A_SMALL_NBITS
   | RC6_MODE_UNKNOWN \<Rightarrow> None)"

definition rc6_report :: "rc6_dec \<Rightarrow> report option" where
  "rc6_report data = (case rc6_mode data of
     RC6_MODE_0 \<Rightarrow> Some (Keydown (body data AND 0xffff) (of_bool (toggle data)))
   | RC6_MODE_6A \<Rightarrow>
       if wanted_bits data = RC6_6A_LARGE_NBITS then
         Some (Keydown (body data AND NOT RC6_6A_MCE_TOGGLE_MASK) (if body data AND RC6_6A_MCE_TOGGLE_MASK \<noteq> 0 then 1 else 0))
       else Some (Keydown (body data AND 0xffffff) 0)
   | RC6_MODE_UNKNOWN \<Rightarrow> None)"

primrec rc6_rank :: "rc6_state \<Rightarrow> nat" where
  "rc6_rank STATE_INACTIVE = 0"
| "rc6_rank STATE_PREFIX_SPACE = 0"
| "rc6_rank STATE_HEADER_BIT_START = 0"
| "rc6_rank STATE_HEADER_BIT_END = 1"
| "rc6_rank STATE_TOGGLE_START = 0"
| "rc6_rank STATE_TOGGLE_END = 1"
| "rc6_rank STATE_BODY_BIT_START = 0"
| "rc6_rank STATE_BODY_BIT_END = 1"
| "rc6_rank STATE_FINISHED = 0"

function rc6_again :: "dec_ctx \<Rightarrow> ir_raw_event \<Rightarrow> rc6_dec \<Rightarrow> int \<times> rc6_dec \<times> report list" where
  "rc6_again c ev data =
     (if \<not> geq_margin (duration ev) RC6_UNIT (RC6_UNIT div 2) then (0, data, [])
      else case state data of
        STATE_INACTIVE \<Rightarrow>
          if \<not> pulse ev then rc6_fail data
          else if \<not> eq_margin (duration ev) RC6_PREFIX_PULSE RC6_UNIT then rc6_fail data
          else (0, data\<lparr>state := STATE_PREFIX_SPACE, count := 0\<rparr>, [])
      | STATE_PREFIX_SPACE \<Rightarrow>
          if pulse ev then rc6_fail data
          else if \<not> eq_margin (duration ev) RC6_PREFIX_SPACE (RC6_UNIT div 2) then rc6_fail data
          else (0, data\<lparr>state := STATE_HEADER_BIT_START\<rparr>, [])
      | STATE_HEADER_BIT_START \<Rightarrow>
          if \<not> eq_margin (duration ev) RC6_BIT_START (RC6_UNIT div 2) then rc6_fail data
          else (0, data\<lparr>header := shift_in (header data) (pulse ev), count := (count data + 1) mod 2 ^ 32,
                         state := STATE_HEADER_BIT_END\<rparr>, [])
      | STATE_HEADER_BIT_END \<Rightarrow>
          if \<not> is_transition ev (prev_ev c) then rc6_fail data
          else if count data = RC6_HEADER_NBITS then
            rc6_again c (decrease_duration ev RC6_BIT_END) (data\<lparr>state := STATE_TOGGLE_START\<rparr>)
          else rc6_again c (decrease_duration ev RC6_BIT_END) (data\<lparr>state := STATE_HEADER_BIT_START\<rparr>)
      | STATE_TOGGLE_START \<Rightarrow>
          if \<not> eq_margin (duration ev) RC6_TOGGLE_START (RC6_UNIT div 2) then rc6_fail data
          else (0, data\<lparr>toggle := pulse ev, state := STATE_TOGGLE_END\<rparr>, [])
      | STATE_TOGGLE_END \<Rightarrow>
          if \<not> is_transition ev (prev_ev c) \<or> \<not> geq_margin (duration ev) RC6_TOGGLE_END (RC6_UNIT div 2) then rc6_fail data
          else if header data AND RC6_STARTBIT_MASK = 0 then rc6_fail data
          else (case rc6_body_bits (decrease_duration ev RC6_TOGGLE_END) data of
            None \<Rightarrow> rc6_fail (data\<lparr>state := STATE_BODY_BIT_START, count := 0\<rparr>)
          | Some n \<Rightarrow> rc6_again c (decrease_duration ev RC6_TOGGLE_END)
              (data\<lparr>state := STATE_BODY_BIT_START, count := 0, wanted_bits := n\<rparr>))
      | STATE_BODY_BIT_START \<Rightarrow>
          if \<not> eq_margin (duration ev) RC6_BIT_START (RC6_UNIT div 2) then rc6_fail data
          else (0, data\<lparr>body := shift_in (body data) (pulse ev), count := (count data + 1) mod 2 ^ 32,
                         state := STATE_BODY_BIT_END\<rparr>, [])
      | STATE_BODY_BIT_END \<Rightarrow>
          if \<not> is_transition ev (prev_ev c) then rc6_fail data
          else if count data = wanted_bits data then
            rc6_again c (decrease_duration ev RC6_BIT_END) (data\<lparr>state := STATE_FINISHED\<rparr>)
          else rc6_again c (decrease_duration ev RC6_BIT_END) (data\<lparr>state := STATE_BODY_BIT_START\<rparr>)
      | STATE_FINISHED \<Rightarrow>
          if pulse ev then rc6_fail data
          else (case rc6_report data of
            None \<Rightarrow> rc6_fail data
          | Some r \<Rightarrow> (0, data\<lparr>state := STATE_INACTIVE\<rparr>, [r])))"
  by pat_completeness auto
termination
  by (relation "measure (\<lambda>(c, ev, data). rc6_rank (state data))") auto

declare rc6_again.simps [simp del]

definition ir_rc6_decode :: "rc6_dec decoder" where
  "ir_rc6_decode c ev data =
     (if enabled_protocols c AND RC_TYPE_RC6 = 0 then (0, data, [])
      else if \<not> is_timing_event ev then (0, if ev_reset ev then data\<lparr>state := STATE_INACTIVE\<rparr> else data, [])
      else if \<not> geq_margin (duration ev) RC6_UNIT (RC6_UNIT div 2) then rc6_fail data
      else rc6_again c ev data)"

section \<open>Tolerances\<close>

lemma rc6_prefix_margin: "eq_margin d 2666664 444444 \<longleftrightarrow> 2222220 < unat d \<and> unat d < 3111108"
  by (simp add: eq_margin_nat)

lemmas rc6_margins = eq_margin_unit [of 1 RC6_UNIT, simplified] eq_margin_unit [of 2 RC6_UNIT, simplified]
  geq_margin_unit [of 1 RC6_UNIT, simplified] geq_margin_unit [of 2 RC6_UNIT, simplified] rc6_prefix_margin decrease_nat

lemmas rc6_step_defs = ir_rc6_decode_def rc6_again.simps pulse_ev_def rc6_margins near_def is_transition_def

section \<open>Bits\<close>

text \<open>The signal from the middle of a bit \<open>b\<close> to the middle of a bit \<open>b'\<close> is that of RC-5 for the inverted bits.\<close>

lemma rc6_header_step:
  assumes "state s = STATE_HEADER_BIT_END" "pulse prev = b" "count s < RC6_HEADER_NBITS"
    and "manch 444444 (\<not> b) [\<not> b'] (map snd evs)" "en AND RC_TYPE_RC6 \<noteq> 0"
  shows "\<exists>prev'. run_decoder ir_rc6_decode en prev (evs @ rest) s
      = run_decoder ir_rc6_decode en prev' rest (s\<lparr>header := shift_in (header s) b', count := count s + 1\<rparr>) \<and> pulse prev' = b'"
proof -
  have st: "s\<lparr>header := w, count := n\<rparr> = s\<lparr>header := w, count := n, state := STATE_HEADER_BIT_END\<rparr>" for w n
    using assms(1) by (cases s) simp
  show ?thesis
  proof (cases "b = b'")
    case True
    then obtain k1 e1 k2 e2 where "evs = [(k1, e1), (k2, e2)]" "pulse_ev (\<not> b) 444444 1 e1" "pulse_ev b 444444 1 e2"
      using assms(4) unfolding manch_single by auto
    then show ?thesis using assms True by (subst st, intro exI [of _ e2]) (auto simp: rc6_step_defs case_prod_unfold)
  next
    case False
    then obtain k e where "evs = [(k, e)]" "pulse_ev (\<not> b) 444444 2 e" using assms(4) unfolding manch_single by auto
    then show ?thesis using assms False by (subst st, intro exI [of _ e]) (auto simp: rc6_step_defs case_prod_unfold)
  qed
qed

lemma rc6_body_step:
  assumes "state s = STATE_BODY_BIT_END" "pulse prev = b" "count s < wanted_bits s" "wanted_bits s \<le> 32"
    and "manch 444444 (\<not> b) [\<not> b'] (map snd evs)" "en AND RC_TYPE_RC6 \<noteq> 0"
  shows "\<exists>prev'. run_decoder ir_rc6_decode en prev (evs @ rest) s
      = run_decoder ir_rc6_decode en prev' rest (s\<lparr>body := shift_in (body s) b', count := count s + 1\<rparr>) \<and> pulse prev' = b'"
proof -
  have st: "s\<lparr>body := w, count := n\<rparr> = s\<lparr>body := w, count := n, state := STATE_BODY_BIT_END\<rparr>" for w n
    using assms(1) by (cases s) simp
  show ?thesis
  proof (cases "b = b'")
    case True
    then obtain k1 e1 k2 e2 where "evs = [(k1, e1), (k2, e2)]" "pulse_ev (\<not> b) 444444 1 e1" "pulse_ev b 444444 1 e2"
      using assms(5) unfolding manch_single by auto
    then show ?thesis using assms True by (subst st, intro exI [of _ e2]) (auto simp: rc6_step_defs case_prod_unfold)
  next
    case False
    then obtain k e where "evs = [(k, e)]" "pulse_ev (\<not> b) 444444 2 e" using assms(5) unfolding manch_single by auto
    then show ?thesis using assms False by (subst st, intro exI [of _ e]) (auto simp: rc6_step_defs case_prod_unfold)
  qed
qed

lemma rc6_header_run:
  assumes "manch 444444 (\<not> b) (map Not bs) (map snd evs)" "state s = STATE_HEADER_BIT_END" "pulse prev = b"
    and "count s + length bs \<le> RC6_HEADER_NBITS" "en AND RC_TYPE_RC6 \<noteq> 0"
  shows "\<exists>prev'. run_decoder ir_rc6_decode en prev (evs @ rest) s
      = run_decoder ir_rc6_decode en prev' rest (s\<lparr>header := foldl shift_in (header s) bs, count := count s + length bs\<rparr>)
    \<and> pulse prev' = last (b # bs)"
  using assms(1-4)
proof (induction bs arbitrary: b evs prev s)
  case (Cons b' bs)
  obtain es es' where es: "evs = es @ es'" "manch 444444 (\<not> b) [\<not> b'] (map snd es)" "manch 444444 (\<not> b') (map Not bs) (map snd es')"
    using manch_Cons [of 444444 "\<not> b" "\<not> b'" "map Not bs" evs] Cons.prems(1) by auto
  have "count s < RC6_HEADER_NBITS" using Cons.prems(4) by auto
  from rc6_header_step [OF Cons.prems(2,3) this es(2) assms(5), of "es' @ rest"]
  obtain prev1 where s1: "run_decoder ir_rc6_decode en prev (evs @ rest) s
      = run_decoder ir_rc6_decode en prev1 (es' @ rest) (s\<lparr>header := shift_in (header s) b', count := count s + 1\<rparr>)" "pulse prev1 = b'"
    unfolding es(1) by auto
  show ?case unfolding s1(1)
    using Cons.IH [OF es(3), of "s\<lparr>header := shift_in (header s) b', count := count s + 1\<rparr>" prev1] s1(2) Cons.prems(2,4) by simp
qed auto

lemma rc6_body_run:
  assumes "manch 444444 (\<not> b) (map Not bs) (map snd evs)" "state s = STATE_BODY_BIT_END" "pulse prev = b"
    and "count s + length bs \<le> wanted_bits s" "wanted_bits s \<le> 32" "en AND RC_TYPE_RC6 \<noteq> 0"
  shows "\<exists>prev'. run_decoder ir_rc6_decode en prev (evs @ rest) s
      = run_decoder ir_rc6_decode en prev' rest (s\<lparr>body := foldl shift_in (body s) bs, count := count s + length bs\<rparr>)
    \<and> pulse prev' = last (b # bs)"
  using assms(1-5)
proof (induction bs arbitrary: b evs prev s)
  case (Cons b' bs)
  obtain es es' where es: "evs = es @ es'" "manch 444444 (\<not> b) [\<not> b'] (map snd es)" "manch 444444 (\<not> b') (map Not bs) (map snd es')"
    using manch_Cons [of 444444 "\<not> b" "\<not> b'" "map Not bs" evs] Cons.prems(1) by auto
  have "count s < wanted_bits s" using Cons.prems(4) by auto
  from rc6_body_step [OF Cons.prems(2,3) this Cons.prems(5) es(2) assms(6), of "es' @ rest"]
  obtain prev1 where s1: "run_decoder ir_rc6_decode en prev (evs @ rest) s
      = run_decoder ir_rc6_decode en prev1 (es' @ rest) (s\<lparr>body := shift_in (body s) b', count := count s + 1\<rparr>)" "pulse prev1 = b'"
    unfolding es(1) by auto
  show ?case unfolding s1(1)
    using Cons.IH [OF es(3), of "s\<lparr>body := shift_in (body s) b', count := count s + 1\<rparr>" prev1] s1(2) Cons.prems(2,4,5) by simp
qed auto

lemma rc6_finish:
  assumes "state s = STATE_BODY_BIT_END" "count s = wanted_bits s" "pulse prev = b" "manch_tail 444444 (\<not> b) (map snd evs)"
    and "en AND RC_TYPE_RC6 \<noteq> 0" "rc6_report (s\<lparr>state := STATE_FINISHED\<rparr>) = Some r"
  shows "\<exists>s'. run_decoder ir_rc6_decode en prev evs s = (s', [r]) \<and> state s' = STATE_INACTIVE"
proof (cases b)
  case False
  then obtain k1 p k2 e where "evs = [(k1, p), (k2, e)]" "pulse_ev True 444444 1 p" "is_timing_event e" "\<not> pulse e"
    "222222 < unat (duration e)"
    using assms(4) by (auto simp: manch_tail_map)
  then show ?thesis using assms False by (auto simp: rc6_step_defs)
next
  case True
  then obtain k e where "evs = [(k, e)]" "is_timing_event e" "\<not> pulse e" "666666 < unat (duration e)"
    using assms(4) by (auto simp: manch_tail_map)
  then show ?thesis using assms True by (auto simp: rc6_step_defs)
qed

section \<open>The parts of a frame\<close>

text \<open>A level held for \<open>k1\<close> units and another one for \<open>k2\<close> units, as one event if they are the same.\<close>

definition halves :: "bool \<Rightarrow> nat \<Rightarrow> bool \<Rightarrow> nat \<Rightarrow> ir_raw_event list \<Rightarrow> bool" where
  "halves l1 k1 l2 k2 evs \<longleftrightarrow>
     (if l1 = l2 then \<exists>e. evs = [e] \<and> pulse_ev l1 444444 (k1 + k2) e
      else \<exists>e1 e2. evs = [e1, e2] \<and> pulse_ev l1 444444 k1 e1 \<and> pulse_ev l2 444444 k2 e2)"

lemma halves_map:
  "halves l1 k1 l2 k2 (map snd evs) \<longleftrightarrow>
     (if l1 = l2 then \<exists>k e. evs = [(k, e)] \<and> pulse_ev l1 444444 (k1 + k2) e
      else \<exists>k e1 k' e2. evs = [(k, e1), (k', e2)] \<and> pulse_ev l1 444444 k1 e1 \<and> pulse_ev l2 444444 k2 e2)"
  by (auto simp: halves_def map_eq_Cons_conv)

lemma rc6_prefix_run:
  assumes "state s = STATE_INACTIVE" "en AND RC_TYPE_RC6 \<noteq> 0" "is_timing_event p" "pulse p"
    and "2222220 < unat (duration p)" "unat (duration p) < 3111108" "pulse_ev False 444444 2 e" "pulse_ev True 444444 1 h"
  shows "run_decoder ir_rc6_decode en prev ((k1, p) # (k2, e) # (k3, h) # rest) s
    = run_decoder ir_rc6_decode en h rest (s\<lparr>header := shift_in (header s) True, count := 1, state := STATE_HEADER_BIT_END\<rparr>)"
  using assms by (auto simp: rc6_step_defs case_prod_unfold)

lemma rc6_toggle_run:
  assumes "state s = STATE_HEADER_BIT_END" "count s = RC6_HEADER_NBITS" "pulse prev = b" "halves (\<not> b) 1 t 2 (map snd evs)"
    and "en AND RC_TYPE_RC6 \<noteq> 0"
  shows "\<exists>prev'. run_decoder ir_rc6_decode en prev (evs @ rest) s
      = run_decoder ir_rc6_decode en prev' rest (s\<lparr>toggle := t, state := STATE_TOGGLE_END\<rparr>) \<and> pulse prev' = t"
proof (cases "b = t")
  case True
  then obtain k1 e1 k2 e2 where "evs = [(k1, e1), (k2, e2)]" "pulse_ev (\<not> b) 444444 1 e1" "pulse_ev t 444444 2 e2"
    using assms(4) by (auto simp: halves_map)
  then show ?thesis using assms True by (intro exI [of _ e2]) (auto simp: rc6_step_defs case_prod_unfold)
next
  case False
  then obtain k e where "evs = [(k, e)]" "pulse_ev t 444444 3 e" using assms(4) by (auto simp: halves_map numeral_3_eq_3)
  then show ?thesis using assms False by (intro exI [of _ e]) (auto simp: rc6_step_defs case_prod_unfold)
qed

definition rc6_wanted :: "rc6_dec \<Rightarrow> bool \<Rightarrow> nat option" where
  "rc6_wanted data b0 = (case rc6_mode data of RC6_MODE_0 \<Rightarrow> Some RC6_0_NBITS
     | RC6_MODE_6A \<Rightarrow> Some (if b0 then RC6_6A_LARGE_NBITS else RC6_6A_SMALL_NBITS) | RC6_MODE_UNKNOWN \<Rightarrow> None)"

lemma rc6_body_bits_wanted:
  assumes "pulse ev = (\<not> toggle data)" "geq_margin (duration ev) RC6_UNIT (RC6_UNIT div 2) \<longleftrightarrow> (\<not> toggle data) = b0"
  shows "rc6_body_bits ev data = rc6_wanted data b0"
  using assms by (auto simp: rc6_body_bits_def rc6_wanted_def rc6_mode_def split: rc6_mode_t.splits if_splits)

lemma rc6_toggle_end_run:
  assumes "state s = STATE_TOGGLE_END" "pulse prev = toggle s" "halves (\<not> toggle s) 2 b0 1 (map snd evs)"
    and "en AND RC_TYPE_RC6 \<noteq> 0" "header s AND RC6_STARTBIT_MASK \<noteq> 0" "rc6_wanted s b0 = Some n"
  shows "\<exists>prev'. run_decoder ir_rc6_decode en prev (evs @ rest) s
      = run_decoder ir_rc6_decode en prev' rest (s\<lparr>wanted_bits := n, body := shift_in (body s) b0, count := 1, state := STATE_BODY_BIT_END\<rparr>)
    \<and> pulse prev' = b0"
proof (cases "toggle s = b0")
  case True
  then obtain k1 e1 k2 e2 where evs: "evs = [(k1, e1), (k2, e2)]" "pulse_ev (\<not> toggle s) 444444 2 e1" "pulse_ev b0 444444 1 e2"
    using assms(3) by (auto simp: halves_map)
  have "rc6_body_bits (decrease_duration e1 888888) s = Some n"
    unfolding assms(6) [symmetric] using evs(2) True
    by (intro rc6_body_bits_wanted) (auto simp: pulse_ev_def rc6_margins near_def)
  then show ?thesis using assms evs True by (intro exI [of _ e2]) (auto simp: rc6_step_defs case_prod_unfold)
next
  case False
  then obtain k e where evs: "evs = [(k, e)]" "pulse_ev b0 444444 3 e" using assms(3) by (auto simp: halves_map)
  have "rc6_body_bits (decrease_duration e 888888) s = Some n"
    unfolding assms(6) [symmetric] using evs(2) False
    by (intro rc6_body_bits_wanted) (auto simp: pulse_ev_def rc6_margins near_def)
  then show ?thesis using assms evs False by (intro exI [of _ e]) (auto simp: rc6_step_defs case_prod_unfold)
qed

section \<open>Frames\<close>

text \<open>A frame with three mode bits, a toggle bit and the body: the first part reaches to the middle of the toggle bit.\<close>

definition rc6_head :: "bool list \<Rightarrow> bool \<Rightarrow> ir_raw_event list \<Rightarrow> bool" where
  "rc6_head ms t evs \<longleftrightarrow> (\<exists>p e h es es'. evs = [p, e, h] @ es @ es' \<and> length ms = 3
     \<and> is_timing_event p \<and> pulse p \<and> 2222220 < unat (duration p) \<and> unat (duration p) < 3111108
     \<and> pulse_ev False 444444 2 e \<and> pulse_ev True 444444 1 h
     \<and> manch 444444 (\<not> True) (map Not ms) es \<and> halves (\<not> last ms) 1 t 2 es')"

definition rc6_rest :: "bool \<Rightarrow> bool list \<Rightarrow> ir_raw_event list \<Rightarrow> bool" where
  "rc6_rest t bs evs \<longleftrightarrow> (\<exists>b bs' es es' es''. evs = es @ es' @ es'' \<and> bs = b # bs'
     \<and> halves (\<not> t) 2 b 1 es \<and> manch 444444 (\<not> b) (map Not bs') es' \<and> manch_tail 444444 (\<not> last bs) es'')"

definition rc6_frame :: "bool list \<Rightarrow> bool \<Rightarrow> bool list \<Rightarrow> ir_raw_event list \<Rightarrow> bool" where
  "rc6_frame ms t bs evs \<longleftrightarrow> (\<exists>es es'. evs = es @ es' \<and> rc6_head ms t es \<and> rc6_rest t bs es')"

lemma rc6_head_run:
  assumes "rc6_head ms t (map snd evs)" "state s = STATE_INACTIVE" "en AND RC_TYPE_RC6 \<noteq> 0"
  shows "\<exists>s' prev'. run_decoder ir_rc6_decode en prev (evs @ rest) s = run_decoder ir_rc6_decode en prev' rest s'
    \<and> pulse prev' = t \<and> state s' = STATE_TOGGLE_END \<and> toggle s' = t \<and> header s' = foldl shift_in (header s) (True # ms)"
proof -
  obtain p e h es es' where m: "map snd evs = [p, e, h] @ es @ es'" "length ms = 3"
    and p: "is_timing_event p" "pulse p" "2222220 < unat (duration p)" "unat (duration p) < 3111108"
    "pulse_ev False 444444 2 e" "pulse_ev True 444444 1 h"
    and es: "manch 444444 (\<not> True) (map Not ms) es" "halves (\<not> last ms) 1 t 2 es'"
    using assms(1) unfolding rc6_head_def by blast
  from m(1) obtain k1 k2 k3 hs ts where evs: "evs = (k1, p) # (k2, e) # (k3, h) # hs @ ts" "es = map snd hs" "es' = map snd ts"
    by (auto simp: map_eq_append_conv append_eq_map_conv map_eq_Cons_conv Cons_eq_map_conv)
  define s1 where "s1 = s\<lparr>header := shift_in (header s) True, count := 1, state := STATE_HEADER_BIT_END\<rparr>"
  define s2 where "s2 = s1\<lparr>header := foldl shift_in (header s1) ms, count := 4\<rparr>"
  have r1: "run_decoder ir_rc6_decode en prev (evs @ rest) s = run_decoder ir_rc6_decode en h (hs @ ts @ rest) s1"
    unfolding evs(1) s1_def append_Cons append_assoc by (rule rc6_prefix_run [OF assms(2,3) p])
  have s1: "state s1 = STATE_HEADER_BIT_END" "pulse h = True" "count s1 + length ms \<le> RC6_HEADER_NBITS" "count s1 + length ms = 4"
    "last (True # ms) = last ms"
    using p(6) m(2) by (auto simp: s1_def pulse_ev_def)
  from rc6_header_run [OF es(1) [unfolded evs(2)] s1(1-3) assms(3), of "ts @ rest"]
  obtain prev2 where r2: "run_decoder ir_rc6_decode en h (hs @ ts @ rest) s1 = run_decoder ir_rc6_decode en prev2 (ts @ rest) s2"
    "pulse prev2 = last ms"
    unfolding s1(4,5) s2_def by blast
  have s2: "state s2 = STATE_HEADER_BIT_END" "count s2 = RC6_HEADER_NBITS" by (simp_all add: s2_def s1_def)
  from rc6_toggle_run [OF s2 r2(2) es(2) [unfolded evs(3)] assms(3), of rest]
  obtain prev3 where r3: "run_decoder ir_rc6_decode en prev2 (ts @ rest) s2
      = run_decoder ir_rc6_decode en prev3 rest (s2\<lparr>toggle := t, state := STATE_TOGGLE_END\<rparr>)" "pulse prev3 = t" by blast
  show ?thesis unfolding r1 r2(1) r3(1) using r3(2)
    by (intro exI [of _ "s2\<lparr>toggle := t, state := STATE_TOGGLE_END\<rparr>"] exI [of _ prev3]) (simp add: s2_def s1_def)
qed

lemma rc6_rest_run:
  assumes "rc6_rest (toggle s) bs (map snd evs)" "state s = STATE_TOGGLE_END" "pulse prev = toggle s" "en AND RC_TYPE_RC6 \<noteq> 0"
    and "header s AND RC6_STARTBIT_MASK \<noteq> 0" "rc6_wanted s (hd bs) = Some (length bs)" "length bs \<le> 32"
    and "rc6_report (s\<lparr>wanted_bits := length bs, body := foldl shift_in (body s) bs, count := length bs, state := STATE_FINISHED\<rparr>) = Some r"
  shows "\<exists>s'. run_decoder ir_rc6_decode en prev evs s = (s', [r]) \<and> state s' = STATE_INACTIVE"
proof -
  obtain b bs' es es' es'' where m: "map snd evs = es @ es' @ es''" "bs = b # bs'"
    and es: "halves (\<not> toggle s) 2 b 1 es" "manch 444444 (\<not> b) (map Not bs') es'" "manch_tail 444444 (\<not> last bs) es''"
    using assms(1) unfolding rc6_rest_def by blast
  from m(1) obtain fs bd tl where evs: "evs = fs @ bd @ tl" "es = map snd fs" "es' = map snd bd" "es'' = map snd tl"
    by (auto simp: map_eq_append_conv append_eq_map_conv)
  have w: "rc6_wanted s b = Some (length bs)" using assms(6) m(2) by simp
  define s1 where "s1 = s\<lparr>wanted_bits := length bs, body := shift_in (body s) b, count := 1, state := STATE_BODY_BIT_END\<rparr>"
  define s2 where "s2 = s1\<lparr>body := foldl shift_in (body s1) bs', count := length bs\<rparr>"
  from rc6_toggle_end_run [OF assms(2,3) es(1) [unfolded evs(2)] assms(4,5) w, of "bd @ tl"]
  obtain prev1 where r1: "run_decoder ir_rc6_decode en prev evs s = run_decoder ir_rc6_decode en prev1 (bd @ tl) s1" "pulse prev1 = b"
    unfolding evs(1) s1_def by blast
  have s1: "state s1 = STATE_BODY_BIT_END" "count s1 + length bs' \<le> wanted_bits s1" "wanted_bits s1 \<le> 32" "count s1 + length bs' = length bs"
    using m(2) assms(7) by (simp_all add: s1_def)
  from rc6_body_run [OF es(2) [unfolded evs(3)] s1(1) r1(2) s1(2,3) assms(4), of tl]
  obtain prev2 where r2: "run_decoder ir_rc6_decode en prev1 (bd @ tl) s1 = run_decoder ir_rc6_decode en prev2 tl s2" "pulse prev2 = last bs"
    unfolding s1(4) s2_def m(2) [symmetric] by blast
  have s2: "state s2 = STATE_BODY_BIT_END" "count s2 = wanted_bits s2" "rc6_report (s2\<lparr>state := STATE_FINISHED\<rparr>) = Some r"
    using assms(8) by (simp_all add: s2_def s1_def m(2))
  show ?thesis unfolding r1(1) r2(1) by (rule rc6_finish [OF s2(1,2) r2(2) es(3) [unfolded evs(4)] assms(4) s2(3)])
qed

text \<open>What the header says, whatever it held before.\<close>

lemma rc6_header_bits:
  assumes "header s = foldl shift_in h (True # ms)" "length ms = 3"
  shows "header s AND RC6_STARTBIT_MASK \<noteq> 0"
    and "ms = [False, False, False] \<Longrightarrow> rc6_mode s = RC6_MODE_0"
    and "ms = [True, True, False] \<Longrightarrow> \<not> toggle s \<Longrightarrow> rc6_mode s = RC6_MODE_6A"
proof -
  have b: "bit (header s) i = (True # ms) ! (3 - i)" if "i < 4" for i
    using that assms bit_shifted [of i h "True # ms"] by simp
  show "header s AND RC6_STARTBIT_MASK \<noteq> 0" using b [of 3] and_exp_eq_0_iff_not_bit [of "header s" 3] by simp
  show "rc6_mode s = RC6_MODE_0" if "ms = [False, False, False]"
  proof -
    have "header s AND RC6_MODE_MASK = 0" by (rule byte_eqI; use that in \<open>simp add: bit_and_iff b\<close>)
    then show ?thesis by (simp add: rc6_mode_def)
  qed
  show "rc6_mode s = RC6_MODE_6A" if "ms = [True, True, False]" "\<not> toggle s"
  proof -
    have "header s AND RC6_MODE_MASK = 6" by (rule byte_eqI; use that in \<open>simp add: bit_and_iff b\<close>)
    then show ?thesis using that by (simp add: rc6_mode_def)
  qed
qed

lemma take_bit_shifted:
  fixes w :: u32
  shows "length bs \<le> 32 \<Longrightarrow> take_bit (length bs) (foldl shift_in w bs) = foldl shift_in 0 bs"
  by (rule bit_word_eqI) (auto simp: bit_take_bit_iff bit_shifted)

lemma and_low_bits: "w AND 0xffff = take_bit 16 w" "w AND 0xffffff = take_bit 24 w" for w :: u32
  by (simp_all add: take_bit_eq_mask mask_eq_decr_exp)

text \<open>The three kinds of frame: mode 0, mode 6A with 24 bits, which start with 0, and mode 6A with 32 bits, which start with 1 and have their
  toggle bit in the body.\<close>

datatype rc6_code = Mode_0 bool "bool list" | Mode_6A "bool list"

primrec rc6_sends :: "rc6_code \<Rightarrow> ir_raw_event list \<Rightarrow> bool" where
  "rc6_sends (Mode_0 t bs) evs \<longleftrightarrow> length bs = 16 \<and> rc6_frame [False, False, False] t bs evs"
| "rc6_sends (Mode_6A bs) evs \<longleftrightarrow> length bs = (if hd bs then 32 else 24) \<and> rc6_frame [True, True, False] False bs evs"

primrec rc6_reads :: "rc6_code \<Rightarrow> report" where
  "rc6_reads (Mode_0 t bs) = Keydown (foldl shift_in 0 bs) (of_bool t)"
| "rc6_reads (Mode_6A bs) =
     (if hd bs then Keydown (foldl shift_in 0 bs AND NOT RC6_6A_MCE_TOGGLE_MASK) (of_bool (bs ! 16)) else Keydown (foldl shift_in 0 bs) 0)"

lemma rc6_report_6A:
  assumes "rc6_mode s = RC6_MODE_6A" "wanted_bits s = length bs" "length bs = (if hd bs then 32 else 24)" "body s = foldl shift_in w bs"
  shows "rc6_report s = Some (rc6_reads (Mode_6A bs))"
proof (cases "hd bs")
  case True
  then have full: "foldl shift_in w bs = foldl shift_in 0 bs" using assms(3) by (intro shifted_full) simp
  have "foldl shift_in 0 bs AND (0x8000 :: u32) \<noteq> 0 \<longleftrightarrow> bs ! 16"
    using and_exp_eq_0_iff_not_bit [of "foldl shift_in (0 :: u32) bs" 15] assms(3) True by (simp add: bit_shifted)
  then show ?thesis using assms True full by (simp add: rc6_report_def)
next
  case False
  then show ?thesis using assms take_bit_shifted [of bs w] by (simp add: rc6_report_def and_low_bits)
qed

lemma rc6_sends_run:
  assumes "rc6_sends code (map snd evs)" "state s = STATE_INACTIVE" "en AND RC_TYPE_RC6 \<noteq> 0"
  shows "\<exists>s'. run_decoder ir_rc6_decode en prev evs s = (s', [rc6_reads code]) \<and> state s' = STATE_INACTIVE"
proof -
  obtain ms t bs where code: "code = Mode_0 t bs \<and> ms = [False, False, False] \<and> length bs = 16 \<or>
      code = Mode_6A bs \<and> ms = [True, True, False] \<and> \<not> t \<and> length bs = (if hd bs then 32 else 24)"
    and f: "rc6_frame ms t bs (map snd evs)" and ms: "length ms = 3"
    using assms(1) by (cases code) auto
  from f obtain hs rs where evs: "evs = hs @ rs" and hs: "rc6_head ms t (map snd hs)" and rs: "rc6_rest t bs (map snd rs)"
    unfolding rc6_frame_def by (auto simp: map_eq_append_conv)
  from rc6_head_run [OF hs assms(2,3), of prev rs] obtain s1 prev1 where
    r: "run_decoder ir_rc6_decode en prev evs s = run_decoder ir_rc6_decode en prev1 rs s1" and p: "pulse prev1 = toggle s1"
    and s1: "state s1 = STATE_TOGGLE_END" "toggle s1 = t" "header s1 = foldl shift_in (header s) (True # ms)"
    unfolding evs by auto
  note hb = rc6_header_bits [OF s1(3) ms]
  define sf where "sf = s1\<lparr>wanted_bits := length bs, body := foldl shift_in (body s1) bs, count := length bs, state := STATE_FINISHED\<rparr>"
  have m: "rc6_mode sf = rc6_mode s1" by (simp add: sf_def rc6_mode_def)
  have "rc6_wanted s1 (hd bs) = Some (length bs) \<and> rc6_report sf = Some (rc6_reads code) \<and> length bs \<le> 32"
    using code
  proof (elim disjE conjE)
    assume c: "code = Mode_0 t bs" "ms = [False, False, False]" "length bs = 16"
    then show ?thesis using hb(2) m s1(2) take_bit_shifted [of bs "body s1"]
      by (simp add: rc6_wanted_def rc6_report_def sf_def and_low_bits)
  next
    assume c: "code = Mode_6A bs" "ms = [True, True, False]" "\<not> t" "length bs = (if hd bs then 32 else 24)"
    then have "rc6_mode s1 = RC6_MODE_6A" using hb(3) s1(2) by simp
    then show ?thesis using c rc6_report_6A [of sf bs "body s1"] m by (auto simp: rc6_wanted_def sf_def)
  qed
  then show ?thesis unfolding r
    using rc6_rest_run [OF rs [folded s1(2)] s1(1) p assms(3) hb(1), of "rc6_reads code"] by (simp add: sf_def)
qed

definition rc6_means :: "ir_raw_event list \<Rightarrow> report \<Rightarrow> bool" where
  "rc6_means evs v \<longleftrightarrow> (\<exists>code. rc6_sends code evs \<and> v = rc6_reads code)"

definition rc6_idle :: "rc6_dec \<Rightarrow> bool" where
  "rc6_idle s \<longleftrightarrow> state s = STATE_INACTIVE"

text \<open>The counter never passes the four header bits, or the number of body bits wanted.\<close>

definition rc6_wf :: "rc6_dec \<Rightarrow> bool" where
  "rc6_wf s \<longleftrightarrow> (case state s of STATE_INACTIVE \<Rightarrow> True | STATE_PREFIX_SPACE \<Rightarrow> count s = 0
     | STATE_HEADER_BIT_START \<Rightarrow> count s < RC6_HEADER_NBITS | STATE_HEADER_BIT_END \<Rightarrow> count s \<le> RC6_HEADER_NBITS
     | STATE_TOGGLE_START \<Rightarrow> count s = RC6_HEADER_NBITS | STATE_TOGGLE_END \<Rightarrow> count s = RC6_HEADER_NBITS
     | STATE_BODY_BIT_START \<Rightarrow> count s < wanted_bits s \<and> wanted_bits s \<in> {RC6_0_NBITS, RC6_6A_SMALL_NBITS, RC6_6A_LARGE_NBITS}
     | STATE_BODY_BIT_END \<Rightarrow> count s \<le> wanted_bits s \<and> wanted_bits s \<in> {RC6_0_NBITS, RC6_6A_SMALL_NBITS, RC6_6A_LARGE_NBITS}
     | STATE_FINISHED \<Rightarrow> count s = wanted_bits s \<and> wanted_bits s \<in> {RC6_0_NBITS, RC6_6A_SMALL_NBITS, RC6_6A_LARGE_NBITS})"

lemma rc6_body_bits_cases: "rc6_body_bits ev data = Some n \<Longrightarrow> n = 16 \<or> n = 24 \<or> n = 32"
  by (auto simp: rc6_body_bits_def split: rc6_mode_t.splits if_splits)

interpretation rc6: ir_decoder ir_rc6_decode RC_TYPE_RC6 rc6_idle rc6_wf id rc6_means
proof
  show "ir_rc6_decode c ev s = (0, s, [])" if "enabled_protocols c AND RC_TYPE_RC6 = 0" for c ev s
    using that by (simp add: ir_rc6_decode_def)
  show "r = 0 \<and> rc6_idle s' \<and> out = []"
    if "ev_reset ev" "enabled_protocols c AND RC_TYPE_RC6 \<noteq> 0" "ir_rc6_decode c ev s = (r, s', out)" for ev c s r s' out
    using that by (auto simp: ir_rc6_decode_def is_timing_event_def rc6_idle_def)
  show "r = 0 \<or> r = - EINVAL \<and> rc6_idle s' \<and> out = []" if "ir_rc6_decode c ev s = (r, s', out)" for c ev s r s' out
    using that by (cases "state s")
      (auto simp: ir_rc6_decode_def rc6_again.simps rc6_fail_def rc6_idle_def split: if_splits option.splits)
  show "rc6_wf s'" if "rc6_wf s" "ir_rc6_decode c ev s = (r, s', out)" for s c ev r s' out
    using that by (cases "state s")
      (auto simp: ir_rc6_decode_def rc6_again.simps rc6_fail_def rc6_wf_def dest: rc6_body_bits_cases split: if_splits option.splits)
  show "\<exists>s' rep. run_decoder ir_rc6_decode en prev evs s = (s', [rep]) \<and> id rep = v \<and> rc6_idle s'"
    if "rc6_idle s" "rc6_means (map snd evs) v" "en AND RC_TYPE_RC6 \<noteq> 0" for s evs v en prev
    using that rc6_sends_run unfolding rc6_means_def rc6_idle_def id_def by blast
qed

text \<open>C14. RC-6 transmissions round trip. After a reset the decoder turns every transmission in mode 0 or in mode 6A, with every pulse and space
  within half a unit of its nominal length (a whole unit for the first pulse), into one key press with the bits of the body as its scancode and
  the toggle bit sent, in the order they were sent. In mode 6A the first bit of the body tells its length, and the toggle bit of the
  longer body is bit 15, which the scancode leaves out.\<close>

theorem rc6_round_trip:
  assumes "rc6_wf s" "ev_reset ev" "en AND RC_TYPE_RC6 \<noteq> 0" "list_all2 (\<lambda>evs code. rc6_sends code (map snd evs)) fs codes"
  shows "snd (run_decoder ir_rc6_decode en prev (noise @ (k, ev) # concat fs) s)
    = snd (run_decoder ir_rc6_decode en prev noise s) @ map rc6_reads codes"
proof -
  have "list_all2 (\<lambda>evs r. rc6_means (map snd evs) r) fs (map rc6_reads codes)"
    unfolding list_all2_map2 by (intro list_all2_mono [OF assms(4)]) (auto simp: rc6_means_def)
  then show ?thesis using rc6.resync [OF assms(1,2) _ assms(3)] by fastforce
qed

definition rc6_start :: rc6_dec where
  "rc6_start = \<lparr>state = STATE_INACTIVE, header = 0, body = 0, toggle = False, count = 0, wanted_bits = 0\<rparr>"

definition halves_tx :: "bool \<Rightarrow> u32 \<Rightarrow> bool \<Rightarrow> u32 \<Rightarrow> ir_raw_event list" where
  "halves_tx l1 k1 l2 k2 = (if l1 = l2 then [timed l1 ((k1 + k2) * 444444)] else [timed l1 (k1 * 444444), timed l2 (k2 * 444444)])"

definition rc6_tx :: "bool list \<Rightarrow> bool \<Rightarrow> bool list \<Rightarrow> ir_raw_event list" where
  "rc6_tx ms t bs = ([timed True 2666664, timed False 888888, timed True 444444] @ manch_tx 444444 False (map Not ms)
       @ halves_tx (\<not> last ms) 1 t 2)
     @ halves_tx (\<not> t) 2 (hd bs) 1 @ manch_tx 444444 (\<not> hd bs) (map Not (tl bs)) @ manch_tail_tx 444444 (\<not> last bs)"

lemma rc6_frame_tx:
  assumes "length ms = 3" "bs \<noteq> []"
  shows "rc6_frame ms t bs (rc6_tx ms t bs)"
proof -
  have h: "halves l1 1 l2 2 (halves_tx l1 1 l2 2)" "halves l1 2 l2 1 (halves_tx l1 2 l2 1)" for l1 l2
    by (auto simp: halves_def halves_tx_def pulse_ev_def timed_def is_timing_event_def near_def)
  have m: "manch 444444 b xs (manch_tx 444444 b xs)" "manch_tail 444444 b (manch_tail_tx 444444 b)" for b xs
    using manch_tx_ok [of 444444] by simp_all
  have "rc6_head ms t ([timed True 2666664, timed False 888888, timed True 444444] @ manch_tx 444444 False (map Not ms)
       @ halves_tx (\<not> last ms) 1 t 2)"
    unfolding rc6_head_def using assms(1) h m(1) [of False]
    by (intro exI [of _ "timed True 2666664"] exI [of _ "timed False 888888"] exI [of _ "timed True 444444"]
      exI [of _ "manch_tx 444444 False (map Not ms)"] exI [of _ "halves_tx (\<not> last ms) 1 t 2"])
      (simp, simp add: pulse_ev_def timed_def is_timing_event_def near_def)
  moreover have "rc6_rest t bs (halves_tx (\<not> t) 2 (hd bs) 1 @ manch_tx 444444 (\<not> hd bs) (map Not (tl bs)) @ manch_tail_tx 444444 (\<not> last bs))"
    unfolding rc6_rest_def using assms(2) h m
    by (intro exI [of _ "hd bs"] exI [of _ "tl bs"] exI [of _ "halves_tx (\<not> t) 2 (hd bs) 1"]
      exI [of _ "manch_tx 444444 (\<not> hd bs) (map Not (tl bs))"] exI [of _ "manch_tail_tx 444444 (\<not> last bs)"]) simp
  ultimately show ?thesis unfolding rc6_frame_def rc6_tx_def by blast
qed

theorem rc6_round_trip_witness:
  "snd (run_decoder ir_rc6_decode RC_TYPE_RC6 (timed False 0) ([(False, timed True 2666664)] @ (False, (timed False 0)\<lparr>ev_reset := True\<rparr>)
     # concat [map (Pair False) (rc6_tx [False, False, False] True (msb_first 8 4 @ msb_first 8 0x0C)),
               map (Pair False) (rc6_tx [True, True, False] False (msb_first 8 0x80 @ msb_first 8 0x0F @ msb_first 8 0x84 @ msb_first 8 0x1E))])
     rc6_start)
   = snd (run_decoder ir_rc6_decode RC_TYPE_RC6 (timed False 0) [(False, timed True 2666664)] rc6_start)
     @ map rc6_reads [Mode_0 True (msb_first 8 4 @ msb_first 8 0x0C),
         Mode_6A (msb_first 8 0x80 @ msb_first 8 0x0F @ msb_first 8 0x84 @ msb_first 8 0x1E)]"
proof (rule rc6_round_trip)
  have n: "msb_first 8 w \<noteq> []" "hd (msb_first 8 w @ bs) = bit w 7" for w bs
    by (simp_all add: msb_first_def hd_append upt_rec)
  show "list_all2 (\<lambda>evs code. rc6_sends code (map snd evs))
    [map (Pair False) (rc6_tx [False, False, False] True (msb_first 8 4 @ msb_first 8 0x0C)),
     map (Pair False) (rc6_tx [True, True, False] False (msb_first 8 0x80 @ msb_first 8 0x0F @ msb_first 8 0x84 @ msb_first 8 0x1E))]
    [Mode_0 True (msb_first 8 4 @ msb_first 8 0x0C), Mode_6A (msb_first 8 0x80 @ msb_first 8 0x0F @ msb_first 8 0x84 @ msb_first 8 0x1E)]"
    by (simp add: comp_def rc6_frame_tx n)
qed (simp_all add: rc6_wf_def rc6_start_def)

end
