(* ===== verification/Ir_Raw.thy ===== *)
theory Ir_Raw
  imports Rc_Main Ir_Nec Ir_Jvc Ir_Sony Ir_Rc5 Ir_Rc5_Sz Ir_Rc6
begin

text \<open>
  The raw event layer (\<open>ir-raw.c\<close>): drivers store pulses and spaces in a queue, a thread takes them out and hands each to every registered
  decoder, and what the decoders report becomes key events. The queue is the kernel's \<open>kfifo\<close>, a parameter with its documented
  behaviour: it holds bytes, \<open>kfifo_in\<close> copies as many as fit and says how many, \<open>kfifo_out\<close> takes out as many as there are up to the
  number asked for. A run of the thread is taken with one value of the tick counter and with no store, stop or timer between its rounds; releasing the control structure and
  clearing the pointer to it are one step. A handler is a decode function and the protocols it is for; the modules for keyboards and for LIRC, whose decode functions are not
  modelled, are not among the six decoders below.
\<close>

section \<open>State\<close>

text \<open>A byte of a stored event, written as the event and the position of the byte in it.\<close>

type_synonym piece = "ir_raw_event \<times> nat"

abbreviation (input) sizeof_ev :: nat where "sizeof_ev \<equiv> 12"

definition pieces :: "ir_raw_event \<Rightarrow> piece list" where
  "pieces ev = map (Pair ev) [0..<sizeof_ev]"

record 'f kfifo_ops =
  kfifo_in :: "'f \<Rightarrow> piece list \<Rightarrow> nat \<times> 'f"
  kfifo_out :: "'f \<Rightarrow> nat \<Rightarrow> piece list \<times> 'f"

definition kfifo_laws :: "'f kfifo_ops \<Rightarrow> ('f \<Rightarrow> piece list) \<Rightarrow> ('f \<Rightarrow> nat) \<Rightarrow> bool" where
  "kfifo_laws K held cap \<longleftrightarrow>
     (\<forall>f bs. let n = min (length bs) (cap f - length (held f)) in
        fst (kfifo_in K f bs) = n \<and> held (snd (kfifo_in K f bs)) = held f @ take n bs \<and> cap (snd (kfifo_in K f bs)) = cap f)
   \<and> (\<forall>f n. fst (kfifo_out K f n) = take n (held f) \<and> held (snd (kfifo_out K f n)) = drop n (held f) \<and> cap (snd (kfifo_out K f n)) = cap f)"

text \<open>The state of the decoders, which the control structure of a device embeds.\<close>

record decoders =
  d_nec :: nec_dec
  d_rc5 :: rc5_dec
  d_rc6 :: rc6_dec
  d_sony :: sony_dec
  d_jvc :: jvc_dec
  d_rc5_sz :: rc5_sz_dec

record 'f ir_raw_event_ctrl =
  kfifo :: 'f
  last_event :: int
  last_type :: u32
  raw_enabled :: u64
  raw_prev :: ir_raw_event
  this_ev :: ir_raw_event
  decs :: decoders

record 'f ir_dev =
  raw :: "'f ir_raw_event_ctrl option"
  idle :: bool
  timeout :: u32
  has_s_idle :: bool
  idle_calls :: "bool list"
  wakeups :: nat

definition init_ir_raw_event :: ir_raw_event where
  "init_ir_raw_event = \<lparr>duration = 0, pulse = False, ev_reset = False, ev_timeout = False, carrier_report = False\<rparr>"

section \<open>Storing events\<close>

definition ir_raw_event_store :: "'f kfifo_ops \<Rightarrow> ir_raw_event \<Rightarrow> 'f ir_dev \<Rightarrow> int \<times> 'f ir_dev" where
  "ir_raw_event_store K ev dev = (case raw dev of
     None \<Rightarrow> (- EINVAL, dev)
   | Some r \<Rightarrow>
       let (n, f) = kfifo_in K (kfifo r) (pieces ev);
           dev = dev\<lparr>raw := Some (r\<lparr>kfifo := f\<rparr>)\<rparr>
       in if n \<noteq> sizeof_ev then (- ENOMEM, dev) else (0, dev))"

definition ir_raw_event_handle :: "'f ir_dev \<Rightarrow> 'f ir_dev" where
  "ir_raw_event_handle dev = (case raw dev of None \<Rightarrow> dev | Some r \<Rightarrow> dev\<lparr>wakeups := wakeups dev + 1\<rparr>)"

definition ir_raw_event_reset :: "'f kfifo_ops \<Rightarrow> 'f ir_dev \<Rightarrow> 'f ir_dev" where
  "ir_raw_event_reset K dev = ir_raw_event_handle (snd (ir_raw_event_store K (init_ir_raw_event\<lparr>ev_reset := True\<rparr>) dev))"

definition ir_raw_event_set_idle :: "'f kfifo_ops \<Rightarrow> bool \<Rightarrow> 'f ir_dev \<Rightarrow> 'f ir_dev" where
  "ir_raw_event_set_idle K b dev = (case raw dev of
     None \<Rightarrow> dev
   | Some r \<Rightarrow>
       let dev = (if b then
             let ev = (this_ev r)\<lparr>ev_timeout := True\<rparr>;
                 dev = snd (ir_raw_event_store K ev (dev\<lparr>raw := Some (r\<lparr>this_ev := ev\<rparr>)\<rparr>))
             in dev\<lparr>raw := map_option (\<lambda>r. r\<lparr>this_ev := init_ir_raw_event\<rparr>) (raw dev)\<rparr>
           else dev);
           dev = (if has_s_idle dev then dev\<lparr>idle_calls := idle_calls dev @ [b]\<rparr> else dev)
       in dev\<lparr>idle := b\<rparr>)"

definition set_this_ev :: "ir_raw_event \<Rightarrow> 'f ir_dev \<Rightarrow> 'f ir_dev" where
  "set_this_ev ev dev = dev\<lparr>raw := map_option (\<lambda>r. r\<lparr>this_ev := ev\<rparr>) (raw dev)\<rparr>"

definition ir_raw_event_store_with_filter :: "'f kfifo_ops \<Rightarrow> ir_raw_event \<Rightarrow> 'f ir_dev \<Rightarrow> int \<times> 'f ir_dev" where
  "ir_raw_event_store_with_filter K ev dev = (case raw dev of
     None \<Rightarrow> (- EINVAL, dev)
   | Some r \<Rightarrow>
       if idle dev \<and> \<not> pulse ev then (0, dev)
       else
         let dev = (if idle dev then ir_raw_event_set_idle K False dev else dev);
             this = this_ev r;
             dev = (if duration this = 0 then set_this_ev ev dev
                    else if pulse ev = pulse this then set_this_ev (this\<lparr>duration := duration this + duration ev\<rparr>) dev
                    else set_this_ev ev (snd (ir_raw_event_store K this dev)));
             merged = (case raw dev of None \<Rightarrow> ev | Some r \<Rightarrow> this_ev r)
         in (0, if \<not> pulse ev \<and> timeout dev \<noteq> 0 \<and> duration merged \<ge> timeout dev then ir_raw_event_set_idle K True dev else dev))"

abbreviation (input) IR_SPACE :: u32 where "IR_SPACE \<equiv> 1"
abbreviation (input) IR_PULSE :: u32 where "IR_PULSE \<equiv> 2"
abbreviation (input) IR_START_EVENT :: u32 where "IR_START_EVENT \<equiv> 4"
abbreviation (input) IR_STOP_EVENT :: u32 where "IR_STOP_EVENT \<equiv> 8"

text \<open>\<open>now\<close> is the monotonic clock in nanoseconds and \<open>rep_delay\<close> the delay before autorepeat of the input device in milliseconds, whose
  conversion overflows the type \<open>int\<close> above 2147 milliseconds.\<close>

definition ir_raw_event_store_edge :: "'f kfifo_ops \<Rightarrow> int \<Rightarrow> int \<Rightarrow> u32 \<Rightarrow> 'f ir_dev \<Rightarrow> (int \<times> 'f ir_dev) option" where
  "ir_raw_event_store_edge K now rep_delay etype dev = (case raw dev of
     None \<Rightarrow> Some (- EINVAL, dev)
   | Some r \<Rightarrow>
       let delta = now - last_event r;
           delay = rep_delay * 1000 * 1000
       in if delay \<notin> {- (2 ^ 31)..<2 ^ 31} then None
          else
            let start = delta > delay \<or> last_type r = 0;
                etype = (if start then etype OR IR_START_EVENT else etype);
                ev = init_ir_raw_event\<lparr>duration := if start then 0 else word_of_int delta\<rparr>;
                done = (\<lambda>(rc, dev). (rc, dev\<lparr>raw := map_option (\<lambda>r. r\<lparr>last_event := now, last_type := etype\<rparr>) (raw dev)\<rparr>))
            in Some (if etype AND IR_START_EVENT \<noteq> 0 then done (0, ir_raw_event_reset K dev)
                     else if last_type r AND IR_SPACE \<noteq> 0 then done (ir_raw_event_store K (ev\<lparr>pulse := False\<rparr>) dev)
                     else if last_type r AND IR_PULSE \<noteq> 0 then done (ir_raw_event_store K (ev\<lparr>pulse := True\<rparr>) dev)
                     else (0, dev)))"

section \<open>Handlers\<close>

text \<open>A decoder with the protocols it decodes. Of the hooks for devices that come and go, only the calls are recorded.\<close>

record ir_raw_handler =
  handler_id :: nat
  protocols :: u64
  decode :: "decoders decoder"
  has_register :: bool
  has_unregister :: bool

datatype hook = Raw_Register nat nat | Raw_Unregister nat nat

record ir_raw_globals =
  ir_raw_handler_list :: "ir_raw_handler list"
  ir_raw_client_list :: "nat list"
  available_protocols :: u64
  hooks :: "hook list"
  fifos :: nat

definition ir_raw_get_allowed_protocols :: "ir_raw_globals \<Rightarrow> u64" where
  "ir_raw_get_allowed_protocols g = available_protocols g"

definition ir_raw_handler_register :: "ir_raw_handler \<Rightarrow> ir_raw_globals \<Rightarrow> int \<times> ir_raw_globals" where
  "ir_raw_handler_register h g =
     (0, g\<lparr>ir_raw_handler_list := ir_raw_handler_list g @ [h],
           hooks := hooks g @ (if has_register h then map (Raw_Register (handler_id h)) (ir_raw_client_list g) else []),
           available_protocols := available_protocols g OR protocols h\<rparr>)"

text \<open>Taking an element out of a list it is not in is a fault.\<close>

definition ir_raw_handler_unregister :: "ir_raw_handler \<Rightarrow> ir_raw_globals \<Rightarrow> ir_raw_globals option" where
  "ir_raw_handler_unregister h g =
     (if handler_id h \<notin> handler_id ` set (ir_raw_handler_list g) then None
      else Some (g\<lparr>ir_raw_handler_list := filter (\<lambda>h'. handler_id h' \<noteq> handler_id h) (ir_raw_handler_list g),
                   hooks := hooks g @ (if has_unregister h then map (Raw_Unregister (handler_id h)) (ir_raw_client_list g) else []),
                   available_protocols := available_protocols g AND NOT (protocols h)\<rparr>))"

definition nec_handler :: ir_raw_handler where
  "nec_handler = \<lparr>handler_id = 0, protocols = RC_TYPE_NEC,
     decode = (\<lambda>c ev d. let (r, x, out) = ir_nec_decode c ev (d_nec d) in (r, d\<lparr>d_nec := x\<rparr>, out)),
     has_register = False, has_unregister = False\<rparr>"

definition rc5_handler :: ir_raw_handler where
  "rc5_handler = \<lparr>handler_id = 1, protocols = RC_TYPE_RC5,
     decode = (\<lambda>c ev d. let (r, x, out) = ir_rc5_decode c ev (d_rc5 d) in (r, d\<lparr>d_rc5 := x\<rparr>, out)),
     has_register = False, has_unregister = False\<rparr>"

definition rc6_handler :: ir_raw_handler where
  "rc6_handler = \<lparr>handler_id = 2, protocols = RC_TYPE_RC6,
     decode = (\<lambda>c ev d. let (r, x, out) = ir_rc6_decode c ev (d_rc6 d) in (r, d\<lparr>d_rc6 := x\<rparr>, out)),
     has_register = False, has_unregister = False\<rparr>"

definition jvc_handler :: ir_raw_handler where
  "jvc_handler = \<lparr>handler_id = 3, protocols = RC_TYPE_JVC,
     decode = (\<lambda>c ev d. let (r, x, out) = ir_jvc_decode c ev (d_jvc d) in (r, d\<lparr>d_jvc := x\<rparr>, out)),
     has_register = False, has_unregister = False\<rparr>"

definition sony_handler :: ir_raw_handler where
  "sony_handler = \<lparr>handler_id = 4, protocols = RC_TYPE_SONY,
     decode = (\<lambda>c ev d. let (r, x, out) = ir_sony_decode c ev (d_sony d) in (r, d\<lparr>d_sony := x\<rparr>, out)),
     has_register = False, has_unregister = False\<rparr>"

definition rc5_sz_handler :: ir_raw_handler where
  "rc5_sz_handler = \<lparr>handler_id = 5, protocols = RC_TYPE_RC5_SZ,
     decode = (\<lambda>c ev d. let (r, x, out) = ir_rc5_sz_decode c ev (d_rc5_sz d) in (r, d\<lparr>d_rc5_sz := x\<rparr>, out)),
     has_register = False, has_unregister = False\<rparr>"

text \<open>The six decoders, in the order in which \<open>init_decoders\<close> requests the modules of the first five; the module of the last, which it does not
  request, has to be loaded by hand.\<close>

definition ir_decoders :: "ir_raw_handler list" where
  "ir_decoders = [nec_handler, rc5_handler, rc6_handler, jvc_handler, sony_handler, rc5_sz_handler]"

section \<open>The thread\<close>

text \<open>What a decoder reports is passed on to the key handling at once.\<close>

primrec apply_report :: "u64 \<Rightarrow> u64 \<Rightarrow> report \<Rightarrow> rc_dev \<Rightarrow> rc_dev option" where
  "apply_report to j (Keydown code t) dev = rc_keydown to j code t dev"
| "apply_report to j Repeat dev = Some (rc_repeat to j dev)"

fun apply_reports :: "u64 \<Rightarrow> u64 \<Rightarrow> report list \<Rightarrow> rc_dev \<Rightarrow> rc_dev option" where
  "apply_reports to j [] dev = Some dev"
| "apply_reports to j (r # rs) dev = do { dev \<leftarrow> apply_report to j r dev; apply_reports to j rs dev }"

fun run_handlers :: "ir_raw_handler list \<Rightarrow> u64 \<Rightarrow> u64 \<Rightarrow> u64 \<Rightarrow> ir_raw_event \<Rightarrow> ir_raw_event \<Rightarrow> decoders \<Rightarrow> rc_dev \<Rightarrow> (decoders \<times> rc_dev) option" where
  "run_handlers [] to j en prev ev d dev = Some (d, dev)"
| "run_handlers (h # hs) to j en prev ev d dev = do {
     let (r, d, out) = decode h \<lparr>enabled_protocols = en, prev_ev = prev, key_held = keypressed dev\<rparr> ev d;
     dev \<leftarrow> apply_reports to j out dev;
     run_handlers hs to j en prev ev d dev }"

definition decode_event :: "ir_raw_handler list \<Rightarrow> u64 \<Rightarrow> u64 \<Rightarrow> ir_raw_event \<Rightarrow> 'f ir_raw_event_ctrl \<Rightarrow> rc_dev \<Rightarrow> ('f ir_raw_event_ctrl \<times> rc_dev) option" where
  "decode_event hs to j ev r dev = do {
     (d, dev) \<leftarrow> run_handlers hs to j (raw_enabled r) (raw_prev r) ev (decs r) dev;
     Some (r\<lparr>decs := d, raw_prev := ev\<rparr>, dev) }"

text \<open>The event in the bytes taken out: bytes that are not those of one event in order are some other event, given by \<open>mix\<close>.\<close>

definition event_of :: "(piece list \<Rightarrow> ir_raw_event) \<Rightarrow> piece list \<Rightarrow> ir_raw_event" where
  "event_of mix ps = (if ps = pieces (fst (hd ps)) then fst (hd ps) else mix ps)"

text \<open>The loop of the thread, up to the point where it sleeps because the queue is empty. \<open>Bug\<close> is the failure of its assertion,
  \<open>Fault\<close> one in the key handling, and \<open>Running\<close> means that it has not come to an end within the number of rounds.\<close>

datatype 'a outcome = Sleeps 'a | Bug | Fault | Running 'a

fun ir_raw_event_thread :: "'f kfifo_ops \<Rightarrow> (piece list \<Rightarrow> ir_raw_event) \<Rightarrow> ir_raw_handler list \<Rightarrow> u64 \<Rightarrow> u64 \<Rightarrow> nat
    \<Rightarrow> 'f ir_raw_event_ctrl \<times> rc_dev \<Rightarrow> ('f ir_raw_event_ctrl \<times> rc_dev) outcome" where
  "ir_raw_event_thread K mix hs to j 0 (r, dev) = Running (r, dev)"
| "ir_raw_event_thread K mix hs to j (Suc n) (r, dev) =
     (let (bs, f) = kfifo_out K (kfifo r) sizeof_ev;
          r = r\<lparr>kfifo := f\<rparr>
      in if bs = [] then Sleeps (r, dev)
         else if length bs \<noteq> sizeof_ev then Bug
         else case decode_event hs to j (event_of mix bs) r dev of
             None \<Rightarrow> Fault
           | Some st \<Rightarrow> ir_raw_event_thread K mix hs to j n st)"

section \<open>Devices\<close>

definition decoders_init :: decoders where
  "decoders_init = \<lparr>d_nec = nec_start, d_rc5 = rc5_dec_start, d_rc6 = rc6_start, d_sony = sony_start, d_jvc = jvc_start,
     d_rc5_sz = rc5_sz_start\<rparr>"

definition ctrl_init :: "'f \<Rightarrow> 'f ir_raw_event_ctrl" where
  "ctrl_init f = \<lparr>kfifo = f, last_event = 0, last_type = 0, raw_enabled = NOT 0, raw_prev = init_ir_raw_event,
     this_ev = init_ir_raw_event, decs = decoders_init\<rparr>"

text \<open>The results of the allocations are arguments: whether the control structure could be allocated, the result of \<open>kfifo_alloc\<close> with the queue, and the
  result of starting the thread. \<open>fifos\<close> counts the queues that are allocated.\<close>

definition ir_raw_event_register :: "bool \<Rightarrow> int \<Rightarrow> 'f \<Rightarrow> int \<Rightarrow> nat \<Rightarrow> ir_raw_globals \<Rightarrow> 'f ir_dev option \<Rightarrow> int \<times> ir_raw_globals \<times> 'f ir_dev option" where
  "ir_raw_event_register kzalloc kfifo_alloc f kthread_run devno g dev = (case dev of
     None \<Rightarrow> (- EINVAL, g, None)
   | Some dev \<Rightarrow>
       if \<not> kzalloc then (- ENOMEM, g, Some (dev\<lparr>raw := None\<rparr>))
       else if kfifo_alloc < 0 then (kfifo_alloc, g, Some (dev\<lparr>raw := None\<rparr>))
       else let g = g\<lparr>fifos := fifos g + 1\<rparr>
            in if kthread_run < 0 then (kthread_run, g, Some (dev\<lparr>raw := None\<rparr>))
               else (0, g\<lparr>ir_raw_client_list := ir_raw_client_list g @ [devno],
                          hooks := hooks g @ map (\<lambda>h. Raw_Register (handler_id h) devno) (filter has_register (ir_raw_handler_list g))\<rparr>,
                     Some (dev\<lparr>raw := Some (ctrl_init f)\<rparr>)))"

definition ir_raw_event_unregister :: "nat \<Rightarrow> ir_raw_globals \<Rightarrow> 'f ir_dev option \<Rightarrow> ir_raw_globals \<times> 'f ir_dev option" where
  "ir_raw_event_unregister devno g dev = (case dev of
     None \<Rightarrow> (g, None)
   | Some dev \<Rightarrow>
       if raw dev = None then (g, Some dev)
       else (g\<lparr>ir_raw_client_list := remove1 devno (ir_raw_client_list g),
               hooks := hooks g @ map (\<lambda>h. Raw_Unregister (handler_id h) devno) (filter has_unregister (ir_raw_handler_list g)),
               fifos := fifos g - 1\<rparr>,
             Some (dev\<lparr>raw := None\<rparr>)))"

section \<open>Nothing faults in the key handling\<close>

lemma length_pieces [simp]: "length (pieces ev) = 12"
  by (simp add: pieces_def)

lemma event_of_pieces [simp]: "event_of mix (pieces ev) = ev"
proof -
  have "fst (hd (pieces ev)) = ev" by (simp add: pieces_def upt_rec)
  then show ?thesis by (simp add: event_of_def)
qed

lemma rc_keydown_total: "dev_ok (mdev dev) \<Longrightarrow> \<exists>dev'. rc_keydown to j code t dev = Some dev' \<and> mdev dev' = mdev dev"
  by (simp add: rc_keydown_def dev_ok_def keycode_lookup Let_def)

lemma apply_reports_total: "dev_ok (mdev dev) \<Longrightarrow> \<exists>dev'. apply_reports to j rs dev = Some dev' \<and> mdev dev' = mdev dev"
proof (induction rs arbitrary: dev)
  case (Cons r rs)
  obtain dev1 where "apply_report to j r dev = Some dev1" "mdev dev1 = mdev dev"
    using rc_keydown_total [OF Cons.prems, of to j] by (cases r) (metis apply_report.simps(1), auto)
  then show ?case using Cons.IH [of dev1] Cons.prems by auto
qed simp

lemma apply_reports_append: "apply_reports to j (xs @ ys) dev = apply_reports to j xs dev \<bind> apply_reports to j ys"
  by (induction xs arbitrary: dev) (auto split: bind_splits)

lemma run_handlers_total:
  "dev_ok (mdev dev) \<Longrightarrow> \<exists>d' dev'. run_handlers hs to j en prev ev d dev = Some (d', dev') \<and> mdev dev' = mdev dev"
proof (induction hs arbitrary: d dev)
  case (Cons h hs)
  obtain r d1 out where d1: "decode h \<lparr>enabled_protocols = en, prev_ev = prev, key_held = keypressed dev\<rparr> ev d = (r, d1, out)"
    by (metis prod_cases3)
  obtain dev1 where "apply_reports to j out dev = Some dev1" "mdev dev1 = mdev dev" using apply_reports_total [OF Cons.prems] by blast
  then show ?case using Cons.IH [of dev1 d1] Cons.prems d1 by auto
qed simp

section \<open>Draining the queue\<close>

text \<open>All events decoded in order.\<close>

fun decode_events :: "ir_raw_handler list \<Rightarrow> u64 \<Rightarrow> u64 \<Rightarrow> ir_raw_event list \<Rightarrow> 'f ir_raw_event_ctrl \<Rightarrow> rc_dev \<Rightarrow> ('f ir_raw_event_ctrl \<times> rc_dev) option" where
  "decode_events hs to j [] r dev = Some (r, dev)"
| "decode_events hs to j (ev # evs) r dev = do { (r, dev) \<leftarrow> decode_event hs to j ev r dev; decode_events hs to j evs r dev }"

lemma decode_event_total:
  assumes "dev_ok (mdev dev)"
  shows "\<exists>d' dev'. decode_event hs to j ev r dev = Some (r\<lparr>decs := d', raw_prev := ev\<rparr>, dev') \<and> mdev dev' = mdev dev"
  using run_handlers_total [OF assms, of hs to j "raw_enabled r" "raw_prev r" ev "decs r"] by (auto simp: decode_event_def)

lemma decode_event_kfifo: "decode_event hs to j ev (r\<lparr>kfifo := f\<rparr>) dev = map_option (\<lambda>(r, dev). (r\<lparr>kfifo := f\<rparr>, dev)) (decode_event hs to j ev r dev)"
  by (auto simp: decode_event_def map_option_bind split: bind_splits)

lemma decode_events_kfifo:
  "decode_events hs to j evs (r\<lparr>kfifo := f\<rparr>) dev = map_option (\<lambda>(r, dev). (r\<lparr>kfifo := f\<rparr>, dev)) (decode_events hs to j evs r dev)"
proof (induction evs arbitrary: r dev)
  case (Cons ev evs)
  then show ?case by (cases "decode_event hs to j ev r dev") (auto simp: decode_event_kfifo)
qed simp

lemma kfifo_outD:
  "kfifo_laws K held cap \<Longrightarrow> \<exists>f'. kfifo_out K f n = (take n (held f), f') \<and> held f' = drop n (held f) \<and> cap f' = cap f"
  unfolding kfifo_laws_def by (metis prod.collapse)

lemma kfifo_inD:
  "kfifo_laws K held cap \<Longrightarrow> \<exists>f'. kfifo_in K f bs = (min (length bs) (cap f - length (held f)), f')
     \<and> held f' = held f @ take (cap f - length (held f)) bs \<and> cap f' = cap f"
  unfolding kfifo_laws_def Let_def by (metis prod.collapse min_def take_all order_refl nle_le)

lemma thread_drains_aux:
  assumes "kfifo_laws K held cap" "dev_ok (mdev dev)" "held (kfifo r) = concat (map pieces evs) @ rest" "length rest < 12" "length evs < n"
  shows "\<exists>r' dev' f. decode_events hs to j evs r dev = Some (r', dev') \<and> held f = []
    \<and> ir_raw_event_thread K mix hs to j n (r, dev) = (if rest = [] then Sleeps (r'\<lparr>kfifo := f\<rparr>, dev') else Bug)"
  using assms(2,3,5)
proof (induction evs arbitrary: r dev n)
  case Nil
  then obtain m where n: "n = Suc m" by (cases n) auto
  obtain f where "kfifo_out K (kfifo r) 12 = (rest, f)" "held f = []"
    using kfifo_outD [OF assms(1), of "kfifo r" 12] Nil assms(4) by auto
  then show ?case using assms(4) by (intro exI [of _ r] exI [of _ dev] exI [of _ f]) (auto simp: n)
next
  case (Cons ev evs)
  obtain m where n: "n = Suc m" "length evs < m" using Cons.prems(3) by (cases n) auto
  obtain f where f: "kfifo_out K (kfifo r) 12 = (pieces ev, f)" "held f = concat (map pieces evs) @ rest"
    using kfifo_outD [OF assms(1), of "kfifo r" 12] Cons.prems(2) by auto
  obtain d dev1 where d: "decode_event hs to j ev r dev = Some (r\<lparr>decs := d, raw_prev := ev\<rparr>, dev1)" "mdev dev1 = mdev dev"
    using decode_event_total [OF Cons.prems(1)] by blast
  define r1 where "r1 = r\<lparr>decs := d, raw_prev := ev\<rparr>"
  have "dev_ok (mdev dev1)" "held (kfifo (r1\<lparr>kfifo := f\<rparr>)) = concat (map pieces evs) @ rest" using Cons.prems(1) d(2) f(2) by simp_all
  from Cons.IH [OF this n(2)] obtain r2 dev2 f2 where i: "decode_events hs to j evs (r1\<lparr>kfifo := f\<rparr>) dev1 = Some (r2, dev2)" "held f2 = []"
    "ir_raw_event_thread K mix hs to j m (r1\<lparr>kfifo := f\<rparr>, dev1) = (if rest = [] then Sleeps (r2\<lparr>kfifo := f2\<rparr>, dev2) else Bug)" by blast
  from i(1) obtain r3 where r3: "decode_events hs to j evs r1 dev1 = Some (r3, dev2)" "r2 = r3\<lparr>kfifo := f\<rparr>"
    by (auto simp: decode_events_kfifo)
  have "pieces ev \<noteq> []" by (simp add: pieces_def)
  then have t: "ir_raw_event_thread K mix hs to j n (r, dev) = ir_raw_event_thread K mix hs to j m (r1\<lparr>kfifo := f\<rparr>, dev1)"
    using d(1) by (simp add: n f(1) decode_event_kfifo r1_def)
  show ?case unfolding t i(3) using d(1) r3 i(2)
    by (intro exI [of _ r3] exI [of _ dev2] exI [of _ f2]) (simp add: r1_def)
qed

fun store_events :: "'f kfifo_ops \<Rightarrow> ir_raw_event list \<Rightarrow> 'f ir_dev \<Rightarrow> int list \<times> 'f ir_dev" where
  "store_events K [] dev = ([], dev)"
| "store_events K (ev # evs) dev =
     (let (rc, dev) = ir_raw_event_store K ev dev; (rcs, dev) = store_events K evs dev in (rc # rcs, dev))"

lemma store_events_append:
  "store_events K (xs @ ys) dev = (let (rcs, dev) = store_events K xs dev; (rcs', dev) = store_events K ys dev in (rcs @ rcs', dev))"
  by (induction xs arbitrary: dev) (auto simp: Let_def split: prod.splits)

lemma store_event_fits:
  assumes "kfifo_laws K held cap" "raw dev = Some r"
  shows "\<exists>f. ir_raw_event_store K ev dev = (if length (held (kfifo r)) + 12 \<le> cap (kfifo r) then 0 else - ENOMEM, dev\<lparr>raw := Some (r\<lparr>kfifo := f\<rparr>)\<rparr>)
    \<and> held f = held (kfifo r) @ take (cap (kfifo r) - length (held (kfifo r))) (pieces ev) \<and> cap f = cap (kfifo r)"
proof -
  obtain f where "kfifo_in K (kfifo r) (pieces ev) = (min 12 (cap (kfifo r) - length (held (kfifo r))), f)"
    "held f = held (kfifo r) @ take (cap (kfifo r) - length (held (kfifo r))) (pieces ev)" "cap f = cap (kfifo r)"
    using kfifo_inD [OF assms(1), of "kfifo r" "pieces ev"] by auto
  then show ?thesis using assms(2) by (intro exI [of _ f]) (auto simp: ir_raw_event_store_def min_def)
qed

lemma store_events_fit:
  assumes "kfifo_laws K held cap" "raw dev = Some r" "length (held (kfifo r)) + 12 * length evs \<le> cap (kfifo r)"
  shows "\<exists>f. store_events K evs dev = (replicate (length evs) 0, dev\<lparr>raw := Some (r\<lparr>kfifo := f\<rparr>)\<rparr>)
    \<and> held f = held (kfifo r) @ concat (map pieces evs) \<and> cap f = cap (kfifo r)"
  using assms(2,3)
proof (induction evs arbitrary: dev r)
  case Nil
  have "dev\<lparr>raw := Some r\<rparr> = dev" using Nil.prems(1) by (cases dev) simp
  then show ?case by (intro exI [of _ "kfifo r"]) simp
next
  case (Cons ev evs)
  obtain f where f: "ir_raw_event_store K ev dev = (0, dev\<lparr>raw := Some (r\<lparr>kfifo := f\<rparr>)\<rparr>)" "held f = held (kfifo r) @ pieces ev" "cap f = cap (kfifo r)"
    using store_event_fits [OF assms(1) Cons.prems(1), of ev] Cons.prems(2) by auto
  from Cons.IH [of "dev\<lparr>raw := Some (r\<lparr>kfifo := f\<rparr>)\<rparr>" "r\<lparr>kfifo := f\<rparr>"] f Cons.prems(2)
  obtain f' where "store_events K evs (dev\<lparr>raw := Some (r\<lparr>kfifo := f\<rparr>)\<rparr>) = (replicate (length evs) 0, dev\<lparr>raw := Some (r\<lparr>kfifo := f'\<rparr>)\<rparr>)"
    "held f' = held f @ concat (map pieces evs)" "cap f' = cap f" by auto
  then show ?case using f by (intro exI [of _ f']) simp
qed

text \<open>C9. The thread ends and loses nothing. Events stored while the queue has room for all of them are taken out and decoded one after the other,
  each by every registered decoder, after which the queue is empty and the thread sleeps; one round for each event and a last one that
  finds the queue empty are enough.\<close>

theorem thread_drains:
  assumes "kfifo_laws K held cap" "raw dev = Some r" "held (kfifo r) = []" "12 * length evs \<le> cap (kfifo r)"
    and "dev_ok (mdev kd)" "length evs < n"
  shows "\<exists>r0 r1 kd' f. store_events K evs dev = (replicate (length evs) 0, dev\<lparr>raw := Some r0\<rparr>)
    \<and> decode_events hs to j evs r kd = Some (r1, kd')
    \<and> ir_raw_event_thread K mix hs to j n (r0, kd) = Sleeps (r1\<lparr>kfifo := f\<rparr>, kd') \<and> held f = []"
proof -
  obtain f where f: "store_events K evs dev = (replicate (length evs) 0, dev\<lparr>raw := Some (r\<lparr>kfifo := f\<rparr>)\<rparr>)" "held f = concat (map pieces evs)"
    using store_events_fit [OF assms(1,2)] assms(3,4) by fastforce
  obtain r1 kd' f' where t: "decode_events hs to j evs (r\<lparr>kfifo := f\<rparr>) kd = Some (r1, kd')" "held f' = []"
    "ir_raw_event_thread K mix hs to j n (r\<lparr>kfifo := f\<rparr>, kd) = Sleeps (r1\<lparr>kfifo := f'\<rparr>, kd')"
    using thread_drains_aux [OF assms(1,5), of "r\<lparr>kfifo := f\<rparr>" evs "[]" n hs to j mix] f(2) assms(6) by auto
  from t(1) obtain r2 where "decode_events hs to j evs r kd = Some (r2, kd')" "r1 = r2\<lparr>kfifo := f\<rparr>"
    by (auto simp: decode_events_kfifo)
  then show ?thesis using f(1) t(2,3) by fastforce
qed

text \<open>C33. A full queue stops the kernel. If the size of the queue is not a multiple of the size of an event, the first event that does not fit is
  reported as lost, but its first bytes stay in the queue, and the thread that empties the queue then fails its assertion that it has taken out a
  whole event.\<close>

theorem overflow_fails_assertion:
  assumes "kfifo_laws K held cap" "raw dev = Some r" "held (kfifo r) = []" "cap (kfifo r) mod 12 \<noteq> 0"
    and "length evs = cap (kfifo r) div 12 + 1" "dev_ok (mdev kd)" "cap (kfifo r) div 12 < n"
  shows "\<exists>r0. store_events K evs dev = (replicate (cap (kfifo r) div 12) 0 @ [- ENOMEM], dev\<lparr>raw := Some r0\<rparr>)
    \<and> ir_raw_event_thread K mix hs to j n (r0, kd) = Bug"
proof -
  define c where "c = cap (kfifo r)"
  obtain es ev where evs: "evs = es @ [ev]" "length es = c div 12" using assms(5) by (cases evs rule: rev_cases) (auto simp: c_def)
  obtain f where f: "store_events K es dev = (replicate (c div 12) 0, dev\<lparr>raw := Some (r\<lparr>kfifo := f\<rparr>)\<rparr>)" "held f = concat (map pieces es)"
    "cap f = c"
    using store_events_fit [OF assms(1,2), of es] assms(3) evs(2) by (auto simp: c_def)
  have l: "length (held f) = 12 * (c div 12)" using evs(2) by (simp add: f(2) length_concat comp_def sum_list_triv)
  define rest where "rest = take (c mod 12) (pieces ev)"
  have "c - 12 * (c div 12) = c mod 12" "\<not> 12 * (c div 12) + 12 \<le> c" by (simp_all add: minus_mult_div_eq_mod)
  then obtain g where g: "ir_raw_event_store K ev (dev\<lparr>raw := Some (r\<lparr>kfifo := f\<rparr>)\<rparr>) = (- ENOMEM, dev\<lparr>raw := Some (r\<lparr>kfifo := g\<rparr>)\<rparr>)"
    "held g = concat (map pieces es) @ rest"
    using store_event_fits [OF assms(1), of "dev\<lparr>raw := Some (r\<lparr>kfifo := f\<rparr>)\<rparr>" "r\<lparr>kfifo := f\<rparr>" ev] f(3) l by (auto simp: rest_def f(2))
  have "length rest < 12" "rest \<noteq> []" using assms(4) by (auto simp: rest_def c_def min_def pieces_def)
  then have "ir_raw_event_thread K mix hs to j n (r\<lparr>kfifo := g\<rparr>, kd) = Bug"
    using thread_drains_aux [OF assms(1,6), of "r\<lparr>kfifo := g\<rparr>" es rest n hs to j mix] g(2) evs(2) assms(7) by (auto simp: c_def)
  then show ?thesis using f(1) g(1) evs(1) by (intro exI [of _ "r\<lparr>kfifo := g\<rparr>"]) (simp add: store_events_append c_def)
qed

section \<open>The decoders together\<close>

definition decoders_wf :: "decoders \<Rightarrow> bool" where
  "decoders_wf d \<longleftrightarrow> nec_wf (d_nec d) \<and> rc5_wf (d_rc5 d) \<and> rc6_wf (d_rc6 d) \<and> sony_wf (d_sony d) \<and> jvc_wf (d_jvc d)
     \<and> rc5_sz_wf (d_rc5_sz d)"

lemmas handler_defs = nec_handler_def rc5_handler_def rc6_handler_def jvc_handler_def sony_handler_def rc5_sz_handler_def

lemma handler_keeps_wf:
  assumes "h \<in> set ir_decoders" "decode h c ev d = (r, d', out)" "decoders_wf d"
  shows "decoders_wf d'"
  using assms nec.keep_wf [of "d_nec d" c ev] rc5.keep_wf [of "d_rc5 d" c ev] rc6.keep_wf [of "d_rc6 d" c ev]
    sony.keep_wf [of "d_sony d" c ev] jvc.keep_wf [of "d_jvc d" c ev] rc5_sz.keep_wf [of "d_rc5_sz d" c ev]
  unfolding ir_decoders_def decoders_wf_def by (auto simp: handler_defs split: prod.splits)

lemma run_handlers_keeps_wf:
  "\<lbrakk>set hs \<subseteq> set ir_decoders; run_handlers hs to j en prev ev d dev = Some (d', dev'); decoders_wf d\<rbrakk> \<Longrightarrow> decoders_wf d'"
proof (induction hs arbitrary: d dev)
  case (Cons h hs)
  obtain r d1 out where d1: "decode h \<lparr>enabled_protocols = en, prev_ev = prev, key_held = keypressed dev\<rparr> ev d = (r, d1, out)"
    by (metis prod_cases3)
  then have "decoders_wf d1" using handler_keeps_wf [OF _ d1] Cons.prems by simp
  then show ?case using Cons d1 by (auto split: bind_splits)
qed simp

text \<open>C29. The state of the decoders stays within its types. Whatever is received, by any selection of the decoders, each decoder's state remains
  one in which its bit counter is within the limit of its state: no decoder shifts more bits in than a frame has, and (the Sony decoder apart,
  which counts on until the end of the frame) no counter can wrap around.\<close>

theorem decoders_stay_within_limits:
  assumes "set hs \<subseteq> set ir_decoders" "decoders_wf (decs r)" "decode_events hs to j evs r dev = Some (r', dev')"
  shows "decoders_wf (decs r')"
  using assms(2,3)
proof (induction evs arbitrary: r dev)
  case (Cons ev evs)
  then obtain d dev1 where d: "run_handlers hs to j (raw_enabled r) (raw_prev r) ev (decs r) dev = Some (d, dev1)"
    "decode_events hs to j evs (r\<lparr>decs := d, raw_prev := ev\<rparr>) dev1 = Some (r', dev')"
    by (auto simp: decode_event_def bind_eq_Some_conv)
  from Cons.IH [OF _ d(2)] show ?case using run_handlers_keeps_wf [OF assms(1) d(1) Cons.prems(1)] by simp
qed simp

text \<open>With only the NEC protocol enabled the other decoders are silent.\<close>

lemma run_handlers_nec:
  "run_handlers ir_decoders to j RC_TYPE_NEC prev ev d dev =
     (let (r, x, out) = ir_nec_decode \<lparr>enabled_protocols = RC_TYPE_NEC, prev_ev = prev, key_held = keypressed dev\<rparr> ev (d_nec d)
      in map_option (Pair (d\<lparr>d_nec := x\<rparr>)) (apply_reports to j out dev))"
proof -
  have "ir_rc5_decode c ev s = (0, s, [])" "ir_rc6_decode c ev s2 = (0, s2, [])" "ir_jvc_decode c ev s3 = (0, s3, [])"
    "ir_sony_decode c ev s4 = (0, s4, [])" "ir_rc5_sz_decode c ev s5 = (0, s5, [])"
    if "enabled_protocols c = RC_TYPE_NEC" for c ev s s2 s3 s4 s5
    using that by (simp_all add: rc5.disabled rc6.disabled jvc.disabled sony.disabled rc5_sz.disabled)
  then show ?thesis by (auto simp: ir_decoders_def handler_defs Let_def split: prod.splits bind_splits)
qed

lemma decode_events_nec:
  assumes "decode_events ir_decoders to j evs r dev = Some (r', dev')" "raw_enabled r = RC_TYPE_NEC"
  shows "\<exists>flags out. length flags = length evs \<and> apply_reports to j out dev = Some dev'
    \<and> run_decoder ir_nec_decode RC_TYPE_NEC (raw_prev r) (zip flags evs) (d_nec (decs r)) = (d_nec (decs r'), out)"
  using assms
proof (induction evs arbitrary: r dev)
  case (Cons ev evs)
  obtain rc x o1 where d: "ir_nec_decode \<lparr>enabled_protocols = RC_TYPE_NEC, prev_ev = raw_prev r, key_held = keypressed dev\<rparr> ev (d_nec (decs r)) = (rc, x, o1)"
    by (metis prod_cases3)
  define r1 where "r1 = r\<lparr>decs := (decs r)\<lparr>d_nec := x\<rparr>, raw_prev := ev\<rparr>"
  obtain dev1 where dev1: "apply_reports to j o1 dev = Some dev1" "decode_events ir_decoders to j evs r1 dev1 = Some (r', dev')"
    using Cons.prems d by (auto simp: decode_event_def run_handlers_nec bind_eq_Some_conv r1_def)
  from Cons.IH [OF dev1(2)] Cons.prems(2) obtain flags out where "length flags = length evs" "apply_reports to j out dev1 = Some dev'"
    "run_decoder ir_nec_decode RC_TYPE_NEC ev (zip flags evs) x = (d_nec (decs r'), out)" by (auto simp: r1_def)
  then show ?case using d dev1(1)
    by (intro exI [of _ "keypressed dev # flags"] exI [of _ "o1 @ out"]) (simp add: apply_reports_append)
qed auto

lemma keydown_presses:
  assumes "dev_ok (mdev kd)" "entries (dmap (mdev kd)) code = Some key" "key \<noteq> KEY_RESERVED"
    and "\<not> (keypressed kd \<and> last_scancode kd = code \<and> last_toggle kd = t)" "rc_keydown to j code t kd = Some kd'"
  shows "calls kd' = calls kd @ (if keypressed kd then [Report_Key (last_keycode kd) False] else []) @ [Msc_Scan code, Report_Key key True, Sync]"
    and "keypressed kd'" "last_keycode kd' = key" "timer_keyup kd' = Some (j + to)"
proof -
  have "rc_g_keycode_from_table (dmap (mdev kd)) code = Some key"
    using keycode_lookup [of "dmap (mdev kd)" code] assms(1,2) by (simp add: dev_ok_def)
  then show "calls kd' = calls kd @ (if keypressed kd then [Report_Key (last_keycode kd) False] else []) @ [Msc_Scan code, Report_Key key True, Sync]"
    "keypressed kd'" "last_keycode kd' = key" "timer_keyup kd' = Some (j + to)"
    using assms(3-5) by (auto simp: rc_keydown_def ir_do_keydown_def ir_do_keyup_def Let_def emit_def arm_keyup_def split: if_splits)
qed

text \<open>C5. From the light to the key. The device has the NEC protocol as its only enabled one, its queue is empty and has room, and its keymap has a key for the
  scancode of an address and a command, which is not the scancode of a key that is held down. When a driver stores the pulses and spaces of the transmission of that address and
  command, within the tolerances of the protocol, and wakes the thread, then the input layer gets exactly this: the release of the key that was pressed, if one was,
  the scancode, the press of the key that the keymap has for it, and a synchronisation. The key then counts as pressed and its release timer runs, the thread sleeps,
  the queue is empty and the decoder is ready for the next transmission.\<close>

theorem nec_key_press:
  assumes "kfifo_laws K held cap" "raw dev = Some r" "held (kfifo r) = []" "12 * length evs \<le> cap (kfifo r)"
    and "raw_enabled r = RC_TYPE_NEC" "nec_idle (d_nec (decs r))" "dev_ok (mdev kd)" "length evs < n" "nec_frame (nec_key (a, c)) evs"
    and "code = push_bit 8 (ucast a) OR ucast c" "entries (dmap (mdev kd)) code = Some key" "key \<noteq> KEY_RESERVED"
    and "\<not> (keypressed kd \<and> last_scancode kd = code \<and> last_toggle kd = 0)"
  shows "\<exists>r0 r1 kd'. store_events K evs dev = (replicate (length evs) 0, dev\<lparr>raw := Some r0\<rparr>)
    \<and> ir_raw_event_thread K mix ir_decoders to j n (r0, kd) = Sleeps (r1, kd')
    \<and> calls kd' = calls kd @ (if keypressed kd then [Report_Key (last_keycode kd) False] else []) @ [Msc_Scan code, Report_Key key True, Sync]
    \<and> keypressed kd' \<and> last_keycode kd' = key \<and> timer_keyup kd' = Some (j + to) \<and> nec_idle (d_nec (decs r1)) \<and> held (kfifo r1) = []"
proof -
  obtain f where f: "store_events K evs dev = (replicate (length evs) 0, dev\<lparr>raw := Some (r\<lparr>kfifo := f\<rparr>)\<rparr>)" "held f = concat (map pieces evs)"
    using store_events_fit [OF assms(1,2)] assms(3,4) by fastforce
  obtain r1 kd' f' where t: "decode_events ir_decoders to j evs (r\<lparr>kfifo := f\<rparr>) kd = Some (r1, kd')" "held f' = []"
    "ir_raw_event_thread K mix ir_decoders to j n (r\<lparr>kfifo := f\<rparr>, kd) = Sleeps (r1\<lparr>kfifo := f'\<rparr>, kd')"
    using thread_drains_aux [OF assms(1,7), of "r\<lparr>kfifo := f\<rparr>" evs "[]" n ir_decoders to j mix] f(2) assms(8) by auto
  from decode_events_nec [OF t(1)] assms(5) obtain flags out where o: "length flags = length evs" "apply_reports to j out kd = Some kd'"
    "run_decoder ir_nec_decode RC_TYPE_NEC (raw_prev r) (zip flags evs) (d_nec (decs r)) = (d_nec (decs r1), out)" by auto
  have "nec_frame (nec_key (a, c)) (map snd (zip flags evs))" using assms(9) o(1) by simp
  from nec_frame_run [OF this _ , of "d_nec (decs r)" RC_TYPE_NEC "raw_prev r"] assms(6) o(3)
  have out: "out = [Keydown code 0]" "nec_idle (d_nec (decs r1))"
    by (simp_all add: nec_idle_def nec_key_def nec_scancode_bytes [simplified] assms(10))
  then have "rc_keydown to j code 0 kd = Some kd'" using o(2) by (simp split: bind_splits)
  from keydown_presses [OF assms(7,11-13) this] show ?thesis using f(1) t(2,3) out(2)
    by (intro exI [of _ "r\<lparr>kfifo := f\<rparr>"] exI [of _ "r1\<lparr>kfifo := f'\<rparr>"] exI [of _ kd']) simp
qed

section \<open>Registration\<close>

text \<open>The protocols on offer are those of the registered decoders, as long as no two of them share one.\<close>

definition handlers_ok :: "ir_raw_globals \<Rightarrow> bool" where
  "handlers_ok g \<longleftrightarrow>
     (\<forall>h \<in> set (ir_raw_handler_list g). \<forall>h' \<in> set (ir_raw_handler_list g). handler_id h \<noteq> handler_id h' \<longrightarrow> protocols h AND protocols h' = 0)
     \<and> (\<forall>h \<in> set (ir_raw_handler_list g). \<forall>h' \<in> set (ir_raw_handler_list g). handler_id h = handler_id h' \<longrightarrow> h = h')
     \<and> (\<forall>i. bit (available_protocols g) i \<longleftrightarrow> (\<exists>h \<in> set (ir_raw_handler_list g). bit (protocols h) i))"

lemma disjoint_bits: "a AND b = 0 \<longleftrightarrow> (\<forall>i. \<not> (bit a i \<and> bit b i))" for a b :: u64
proof
  show "\<forall>i. \<not> (bit a i \<and> bit b i)" if "a AND b = 0" using that by (metis bit_0_eq bit_and_iff bot_apply bot_bool_def)
  show "a AND b = 0" if "\<forall>i. \<not> (bit a i \<and> bit b i)" by (rule bit_word_eqI) (use that in \<open>simp add: bit_and_iff\<close>)
qed

lemma handler_register_ok:
  assumes "handlers_ok g" "\<forall>h' \<in> set (ir_raw_handler_list g). handler_id h' \<noteq> handler_id h \<and> protocols h' AND protocols h = 0"
  shows "handlers_ok (snd (ir_raw_handler_register h g))"
  using assms unfolding handlers_ok_def ir_raw_handler_register_def by (auto simp: bit_or_iff disjoint_bits)

lemma handler_unregister_ok:
  assumes "handlers_ok g" "h \<in> set (ir_raw_handler_list g)" "ir_raw_handler_unregister h g = Some g'"
  shows "handlers_ok g' \<and> h \<notin> set (ir_raw_handler_list g')"
proof -
  have g': "ir_raw_handler_list g' = filter (\<lambda>h'. handler_id h' \<noteq> handler_id h) (ir_raw_handler_list g)"
    "available_protocols g' = available_protocols g AND NOT (protocols h)"
    using assms(3) by (auto simp: ir_raw_handler_unregister_def split: if_splits)
  have "bit (available_protocols g') i \<longleftrightarrow> (\<exists>h' \<in> set (ir_raw_handler_list g'). bit (protocols h') i)" for i
  proof -
    have "\<not> bit (protocols h) i" if "h' \<in> set (ir_raw_handler_list g)" "handler_id h' \<noteq> handler_id h" "bit (protocols h') i" for h'
      using that assms(1,2) unfolding handlers_ok_def disjoint_bits by blast
    moreover have "h' = h" if "h' \<in> set (ir_raw_handler_list g)" "handler_id h' = handler_id h" for h'
      using that assms(1,2) unfolding handlers_ok_def by blast
    moreover have "i < 64" if "bit (available_protocols g) i" using that by (auto dest: bit_imp_le_length)
    ultimately show ?thesis using assms(1)
      unfolding g' handlers_ok_def by (auto simp: bit_and_iff bit_not_iff) 
  qed
  then show ?thesis using assms(1) unfolding g' handlers_ok_def by (auto simp: g')
qed

text \<open>When the thread cannot be started the control structure is freed but the queue is not.\<close>

lemma register_thread_failure_leaks:
  assumes "0 \<le> ka" "kt < 0"
  shows "\<exists>g' dev'. ir_raw_event_register True ka f kt devno g (Some dev) = (kt, g', Some dev') \<and> raw dev' = None \<and> fifos g' = fifos g + 1"
  using assms by (simp add: ir_raw_event_register_def)

section \<open>Witnesses\<close>

text \<open>A queue in a list, with its capacity.\<close>

definition list_kfifo :: "(nat \<times> piece list) kfifo_ops" where
  "list_kfifo = \<lparr>kfifo_in = (\<lambda>(c, xs) bs. (min (length bs) (c - length xs), (c, xs @ take (c - length xs) bs))),
     kfifo_out = (\<lambda>(c, xs) n. (take n xs, (c, drop n xs)))\<rparr>"

lemma list_kfifo_laws: "kfifo_laws list_kfifo snd fst"
  by (auto simp: kfifo_laws_def list_kfifo_def Let_def min_def)

definition raw_dev :: "nat \<Rightarrow> u64 \<Rightarrow> (nat \<times> piece list) ir_dev" where
  "raw_dev c en = \<lparr>raw = Some ((ctrl_init (c, []))\<lparr>raw_enabled := en\<rparr>), idle = False, timeout = 0, has_s_idle = False, idle_calls = [], wakeups = 0\<rparr>"

lemma raw_dev_simps [simp]:
  "raw (raw_dev c en) = Some ((ctrl_init (c, []))\<lparr>raw_enabled := en\<rparr>)" "kfifo (ctrl_init f) = f" "decs (ctrl_init f) = decoders_init"
  "nec_idle (d_nec decoders_init)"
  by (simp_all add: raw_dev_def ctrl_init_def decoders_init_def nec_idle_def nec_start_def)

lemma decoders_init_wf: "decoders_wf decoders_init"
  by (simp add: decoders_wf_def decoders_init_def nec_wf_def nec_start_def rc5_wf_def rc5_dec_start_def rc6_wf_def rc6_start_def
      sony_wf_def sony_start_def jvc_wf_def jvc_start_def rc5_sz_wf_def rc5_sz_start_def)

theorem thread_drains_witness:
  "\<exists>r0 r1 kd' f. store_events list_kfifo [timed True 9000000, timed False 4500000] (raw_dev 8192 (NOT 0))
      = (replicate (length [timed True 9000000, timed False 4500000]) 0, (raw_dev 8192 (NOT 0))\<lparr>raw := Some r0\<rparr>)
    \<and> decode_events ir_decoders 25 100 [timed True 9000000, timed False 4500000] ((ctrl_init (8192, []))\<lparr>raw_enabled := NOT 0\<rparr>) (idle_dev blank_dev)
      = Some (r1, kd')
    \<and> ir_raw_event_thread list_kfifo (\<lambda>_. timed False 0) ir_decoders 25 100 3 (r0, idle_dev blank_dev) = Sleeps (r1\<lparr>kfifo := f\<rparr>, kd') \<and> snd f = []"
  by (rule thread_drains [OF list_kfifo_laws]) (simp_all add: blank_dev_ok(1) idle_dev_def)

theorem overflow_fails_assertion_witness:
  "\<exists>r0. store_events list_kfifo (replicate 683 (timed True 562500)) (raw_dev 8192 (NOT 0))
      = (replicate (8192 div 12) 0 @ [- ENOMEM], (raw_dev 8192 (NOT 0))\<lparr>raw := Some r0\<rparr>)
    \<and> ir_raw_event_thread list_kfifo (\<lambda>_. timed False 0) ir_decoders 25 100 1000 (r0, idle_dev blank_dev) = Bug"
proof -
  have c: "fst (kfifo ((ctrl_init (8192, []))\<lparr>raw_enabled := NOT 0\<rparr>)) = (8192 :: nat)" by simp
  show ?thesis
    by (rule overflow_fails_assertion [OF list_kfifo_laws raw_dev_simps(1) [of 8192 "NOT 0"], unfolded c])
      (simp_all add: blank_dev_ok(1) idle_dev_def)
qed

theorem decoders_stay_within_limits_witness:
  "\<exists>r' dev'. decode_events ir_decoders 25 100 [timed True 9000000] (ctrl_init ()) (idle_dev blank_dev) = Some (r', dev')
    \<and> decoders_wf (decs r')"
proof -
  have "dev_ok (mdev (idle_dev blank_dev))" using blank_dev_ok(1) by (simp add: idle_dev_def)
  then obtain r' dev' where d: "decode_event ir_decoders 25 100 (timed True 9000000) (ctrl_init ()) (idle_dev blank_dev) = Some (r', dev')"
    using decode_event_total by blast
  then have d: "decode_events ir_decoders 25 100 [timed True 9000000] (ctrl_init ()) (idle_dev blank_dev) = Some (r', dev')" by simp
  have "decoders_wf (decs r')" by (rule decoders_stay_within_limits [OF subset_refl _ d]) (simp add: decoders_init_wf)
  then show ?thesis using d by blast
qed

theorem nec_key_press_witness:
  "\<exists>m r0 r1 kd'. set_scancode 0x0408 103 blank_dev m
    \<and> store_events list_kfifo (nec_tx (nec_key (4, 8))) (raw_dev 8192 RC_TYPE_NEC)
      = (replicate (length (nec_tx (nec_key (4, 8)))) 0, (raw_dev 8192 RC_TYPE_NEC)\<lparr>raw := Some r0\<rparr>)
    \<and> ir_raw_event_thread list_kfifo (\<lambda>_. timed False 0) ir_decoders 25 100 100 (r0, idle_dev m) = Sleeps (r1, kd')
    \<and> calls kd' = [Msc_Scan 0x0408, Report_Key 103 True, Sync] \<and> keypressed kd' \<and> last_keycode kd' = 103 \<and> timer_keyup kd' = Some 125
    \<and> nec_idle (d_nec (decs r1)) \<and> snd (kfifo r1) = []"
proof -
  have l: "length (nec_tx (nec_key (4, 8))) = 68" by (simp add: nec_tx_def nec_key_def distance_tx_def length_concat comp_def sum_list_triv)
  have f: "nec_frame (nec_key (4, 8)) (nec_tx (nec_key (4, 8)))" by (rule nec_frame_tx) (simp add: nec_key_def)
  obtain m where m: "set_scancode 0x0408 103 blank_dev m" "dev_ok m"
    using set_scancode_possible [OF blank_dev_ok(1) _ blank_dev_ok(2), of 103 "0x0408"] by auto
  have e: "entries (dmap m) 0x0408 = Some 103"
    using tab.assign_content [OF blank_dev_ok(1) m(1)] by (simp add: blank_dev_ok(3) assigned_def)
  have "\<exists>r0 r1 kd'. store_events list_kfifo (nec_tx (nec_key (4, 8))) (raw_dev 8192 RC_TYPE_NEC)
      = (replicate (length (nec_tx (nec_key (4, 8)))) 0, (raw_dev 8192 RC_TYPE_NEC)\<lparr>raw := Some r0\<rparr>)
    \<and> ir_raw_event_thread list_kfifo (\<lambda>_. timed False 0) ir_decoders 25 100 100 (r0, idle_dev m) = Sleeps (r1, kd')
    \<and> calls kd' = calls (idle_dev m) @ (if keypressed (idle_dev m) then [Report_Key (last_keycode (idle_dev m)) False] else [])
      @ [Msc_Scan 0x0408, Report_Key 103 True, Sync]
    \<and> keypressed kd' \<and> last_keycode kd' = 103 \<and> timer_keyup kd' = Some (100 + 25) \<and> nec_idle (d_nec (decs r1)) \<and> snd (kfifo r1) = []"
    by (rule nec_key_press [OF list_kfifo_laws raw_dev_simps(1) _ _ _ _ _ _ f]) (simp_all add: l m(2) e idle_dev_def)
  then show ?thesis using m(1) by (auto simp: idle_dev_def)
qed

section \<open>Merging samples\<close>

text \<open>The signal that a list of events stands for, nanosecond by nanosecond.\<close>

definition signal :: "ir_raw_event list \<Rightarrow> bool list" where
  "signal evs = concat (map (\<lambda>ev. replicate (unat (duration ev)) (pulse ev)) evs)"

definition filter_events :: "'f kfifo_ops \<Rightarrow> ir_raw_event list \<Rightarrow> 'f ir_dev \<Rightarrow> 'f ir_dev" where
  "filter_events K evs dev = foldl (\<lambda>dev ev. snd (ir_raw_event_store_with_filter K ev dev)) dev evs"

lemma signal_append [simp]: "signal (xs @ ys) = signal xs @ signal ys"
  by (simp add: signal_def)

lemma signal_simps [simp]: "signal [] = []" "signal (ev # evs) = replicate (unat (duration ev)) (pulse ev) @ signal evs"
  by (simp_all add: signal_def)

lemma length_signal: "length (signal evs) = sum_list (map (unat \<circ> duration) evs)"
  by (simp add: signal_def length_concat comp_def)

text \<open>What a device hears of its samples, told without the queue and the merging: a space that has lasted for the timeout puts the device to sleep, and
  while it sleeps spaces are not heard. The state is the samples heard, whether the device sleeps, and how long the present space lasts.\<close>

definition hear :: "u32 \<Rightarrow> ir_raw_event list \<times> bool \<times> nat \<Rightarrow> ir_raw_event \<Rightarrow> ir_raw_event list \<times> bool \<times> nat" where
  "hear to s ev = (case s of (hs, asleep, gap) \<Rightarrow>
     if pulse ev then (hs @ [ev], False, 0)
     else if asleep then s
     else (hs @ [ev], to \<noteq> 0 \<and> unat to \<le> gap + unat (duration ev), gap + unat (duration ev)))"

definition heard :: "u32 \<Rightarrow> bool \<Rightarrow> ir_raw_event list \<Rightarrow> ir_raw_event list \<times> bool \<times> nat" where
  "heard to asleep evs = foldl (hear to) ([], asleep, 0) evs"

text \<open>No pulse and no space lasts for the \<open>2 ^ 32\<close> nanoseconds, more than four seconds, that a duration cannot hold.\<close>

definition short_runs :: "ir_raw_event list \<Rightarrow> bool" where
  "short_runs hs \<longleftrightarrow> (\<forall>xs ys zs p. hs = xs @ ys @ zs \<longrightarrow> (\<forall>ev \<in> set ys. pulse ev = p) \<longrightarrow> length (signal ys) < 2 ^ 32)"

lemma short_runs_total: "length (signal hs) < 2 ^ 32 \<Longrightarrow> short_runs hs"
  by (auto simp: short_runs_def)

lemma short_runs_prefix: "short_runs (xs @ ys) \<Longrightarrow> short_runs xs"
  by (simp add: short_runs_def) (metis append.assoc)

text \<open>The event being merged, if there is one.\<close>

definition pending :: "'f ir_raw_event_ctrl \<Rightarrow> ir_raw_event list" where
  "pending r = (if duration (this_ev r) = 0 then [] else [this_ev r])"

definition long_gap :: "u32 \<Rightarrow> ir_raw_event \<Rightarrow> bool" where
  "long_gap to ev \<longleftrightarrow> \<not> pulse ev \<and> to \<noteq> 0 \<and> to \<le> duration ev"

text \<open>One call of the filter: the sample is merged or replaces the event that was being merged, which is stored, and then a space may reach the timeout.\<close>

definition merge_one :: "ir_raw_event \<Rightarrow> ir_raw_event \<Rightarrow> ir_raw_event" where
  "merge_one t ev = (if duration t \<noteq> 0 \<and> pulse ev = pulse t then t\<lparr>duration := duration t + duration ev\<rparr> else ev)"

lemma idle_stores:
  assumes "kfifo_laws K held cap" "raw dev = Some r" "length (held (kfifo r)) + 12 \<le> cap (kfifo r)"
  shows "\<exists>f. raw (ir_raw_event_set_idle K True dev) = Some (r\<lparr>kfifo := f, this_ev := init_ir_raw_event\<rparr>)
    \<and> idle (ir_raw_event_set_idle K True dev) \<and> timeout (ir_raw_event_set_idle K True dev) = timeout dev
    \<and> held f = held (kfifo r) @ pieces ((this_ev r)\<lparr>ev_timeout := True\<rparr>) \<and> cap f = cap (kfifo r)"
proof -
  let ?r = "r\<lparr>this_ev := (this_ev r)\<lparr>ev_timeout := True\<rparr>\<rparr>"
  obtain f where f: "ir_raw_event_store K ((this_ev r)\<lparr>ev_timeout := True\<rparr>) (dev\<lparr>raw := Some ?r\<rparr>) = (0, dev\<lparr>raw := Some (?r\<lparr>kfifo := f\<rparr>)\<rparr>)"
    "held f = held (kfifo r) @ pieces ((this_ev r)\<lparr>ev_timeout := True\<rparr>)" "cap f = cap (kfifo r)"
    using store_event_fits [OF assms(1), of "dev\<lparr>raw := Some ?r\<rparr>" ?r "(this_ev r)\<lparr>ev_timeout := True\<rparr>"] assms(3) by auto
  then show ?thesis using assms(2)
    by (intro exI [of _ f]) (simp add: ir_raw_event_set_idle_def Let_def)
qed

lemma wakes: "raw dev = Some r \<Longrightarrow> raw (ir_raw_event_set_idle K False dev) = Some r \<and> timeout (ir_raw_event_set_idle K False dev) = timeout dev
    \<and> \<not> idle (ir_raw_event_set_idle K False dev)"
  by (simp add: ir_raw_event_set_idle_def Let_def)

text \<open>The device before the timeout is looked at.\<close>

lemma filter_awake:
  assumes "kfifo_laws K held cap" "raw dev = Some r" "\<not> (idle dev \<and> \<not> pulse ev)" "length (held (kfifo r)) + 12 * length (pending r) \<le> cap (kfifo r)"
  shows "\<exists>dev1 f. raw dev1 = Some (r\<lparr>kfifo := f, this_ev := merge_one (this_ev r) ev\<rparr>) \<and> timeout dev1 = timeout dev \<and> \<not> idle dev1
    \<and> held f = held (kfifo r) @ (if duration (this_ev r) \<noteq> 0 \<and> pulse ev \<noteq> pulse (this_ev r) then pieces (this_ev r) else []) \<and> cap f = cap (kfifo r)
    \<and> snd (ir_raw_event_store_with_filter K ev dev)
      = (if long_gap (timeout dev) (merge_one (this_ev r) ev) then ir_raw_event_set_idle K True dev1 else dev1)"
proof -
  define dev0 where "dev0 = (if idle dev then ir_raw_event_set_idle K False dev else dev)"
  have d0: "raw dev0 = Some r" "timeout dev0 = timeout dev" "\<not> idle dev0" using wakes [OF assms(2), of K] assms(2) by (simp_all add: dev0_def)
  have eq: "snd (ir_raw_event_store_with_filter K ev dev) =
      (let d = (if duration (this_ev r) = 0 then set_this_ev ev dev0
             else if pulse ev = pulse (this_ev r) then set_this_ev ((this_ev r)\<lparr>duration := duration (this_ev r) + duration ev\<rparr>) dev0
             else set_this_ev ev (snd (ir_raw_event_store K (this_ev r) dev0)))
       in if \<not> pulse ev \<and> timeout d \<noteq> 0 \<and> duration (case raw d of None \<Rightarrow> ev | Some r \<Rightarrow> this_ev r) \<ge> timeout d then ir_raw_event_set_idle K True d else d)"
    unfolding dev0_def using assms(2,3) by (simp add: ir_raw_event_store_with_filter_def Let_def)
  have p: "pulse (merge_one (this_ev r) ev) = pulse ev" by (simp add: merge_one_def)
  show ?thesis
  proof (cases "duration (this_ev r) \<noteq> 0 \<and> pulse ev \<noteq> pulse (this_ev r)")
    case True
    then obtain f where f: "ir_raw_event_store K (this_ev r) dev0 = (0, dev0\<lparr>raw := Some (r\<lparr>kfifo := f\<rparr>)\<rparr>)" "held f = held (kfifo r) @ pieces (this_ev r)"
      "cap f = cap (kfifo r)"
      using store_event_fits [OF assms(1) d0(1), of "this_ev r"] assms(4) by (auto simp: pending_def)
    show ?thesis using f d0 True assms(2,3) p
      by (intro exI [of _ "dev0\<lparr>raw := Some (r\<lparr>kfifo := f, this_ev := ev\<rparr>)\<rparr>"] exI [of _ f])
        (auto simp: eq Let_def set_this_ev_def merge_one_def long_gap_def)
  next
    case False
    then show ?thesis using d0 assms(2,3) p
      by (intro exI [of _ "dev0\<lparr>raw := Some (r\<lparr>this_ev := merge_one (this_ev r) ev\<rparr>)\<rparr>"] exI [of _ "kfifo r"])
        (auto simp: eq Let_def set_this_ev_def merge_one_def long_gap_def)
  qed
qed

text \<open>After some samples: what has been stored and what is being merged.\<close>

definition merging :: "('f \<Rightarrow> piece list) \<Rightarrow> ('f \<Rightarrow> nat) \<Rightarrow> nat \<Rightarrow> u32 \<Rightarrow> ir_raw_event list \<times> bool \<times> nat \<Rightarrow> 'f ir_dev \<Rightarrow> ir_raw_event list \<Rightarrow> 'f ir_raw_event_ctrl \<Rightarrow> bool" where
  "merging held cap c to s dev st r \<longleftrightarrow> (case s of (hs, asleep, gap) \<Rightarrow>
     raw dev = Some r \<and> idle dev = asleep \<and> timeout dev = to \<and> held (kfifo r) = concat (map pieces st) \<and> cap (kfifo r) = c
     \<and> signal (st @ pending r) = signal hs \<and> successively (\<lambda>a b. pulse a \<noteq> pulse b) (st @ pending r) \<and> length (st @ pending r) \<le> length hs
     \<and> (\<forall>e \<in> set st. ev_timeout e \<longleftrightarrow> long_gap to e)
     \<and> (pending r = [] \<longrightarrow> (if asleep then st = [] \<or> \<not> pulse (last st) else st = [] \<and> gap = 0))
     \<and> (pending r \<noteq> [] \<longrightarrow> \<not> asleep \<and> \<not> ev_timeout (this_ev r) \<and> \<not> long_gap to (this_ev r)
          \<and> gap = (if pulse (this_ev r) then 0 else unat (duration (this_ev r)))
          \<and> (\<exists>xs ys. hs = xs @ ys \<and> (\<forall>ev \<in> set ys. pulse ev = pulse (this_ev r)) \<and> signal ys = signal [this_ev r])))"

lemma merging_asleep:
  assumes "merging held cap c to (hs, True, gap) dev st r" "\<not> pulse ev"
  shows "snd (ir_raw_event_store_with_filter K ev dev) = dev" "hear to (hs, True, gap) ev = (hs, True, gap)"
  using assms by (auto simp: merging_def ir_raw_event_store_with_filter_def hear_def)

text \<open>The sample is heard: the event that is then being merged.\<close>

lemma merging_this:
  assumes "merging held cap c to (hs, asleep, gap) dev st r" "\<not> (asleep \<and> \<not> pulse ev)" "duration ev \<noteq> 0" "\<not> ev_timeout ev" "short_runs (hs @ [ev])"
    and "t = merge_one (this_ev r) ev"
  shows "duration t \<noteq> 0" "\<not> ev_timeout t" "pulse t = pulse ev" "\<not> pulse ev \<Longrightarrow> gap + unat (duration ev) = unat (duration t)"
    and "\<exists>xs ys. hs @ [ev] = xs @ ys \<and> (\<forall>ev \<in> set ys. pulse ev = pulse t) \<and> signal ys = signal [t]"
    and "duration (this_ev r) \<noteq> 0 \<and> pulse ev = pulse (this_ev r) \<Longrightarrow> unat (duration t) = unat (duration (this_ev r)) + unat (duration ev)"
proof -
  have "duration t \<noteq> 0 \<and> \<not> ev_timeout t \<and> pulse t = pulse ev \<and> (\<not> pulse ev \<longrightarrow> gap + unat (duration ev) = unat (duration t))
    \<and> (\<exists>xs ys. hs @ [ev] = xs @ ys \<and> (\<forall>ev \<in> set ys. pulse ev = pulse t) \<and> signal ys = signal [t])
    \<and> (duration (this_ev r) \<noteq> 0 \<and> pulse ev = pulse (this_ev r) \<longrightarrow> unat (duration t) = unat (duration (this_ev r)) + unat (duration ev))"
  proof (cases "duration (this_ev r) \<noteq> 0 \<and> pulse ev = pulse (this_ev r)")
    case True
    then have t: "t = (this_ev r)\<lparr>duration := duration (this_ev r) + duration ev\<rparr>" using assms(6) by (simp add: merge_one_def)
    have m: "\<not> ev_timeout (this_ev r)" "gap = (if pulse (this_ev r) then 0 else unat (duration (this_ev r)))"
      using assms(1) True by (simp_all add: merging_def pending_def)
    obtain xs ys where ys: "hs = xs @ ys" "\<forall>ev \<in> set ys. pulse ev = pulse (this_ev r)" "signal ys = signal [this_ev r]"
      using assms(1) True by (auto simp: merging_def pending_def)
    have "length (signal (ys @ [ev])) < 2 ^ 32"
      using assms(5) [unfolded short_runs_def, rule_format, of xs "ys @ [ev]" "[]" "pulse ev"] ys(1,2) True by auto
    then have u: "unat (duration t) = unat (duration (this_ev r)) + unat (duration ev)"
      by (simp add: ys(3) t unat_word_ariths)
    then have nz: "duration t \<noteq> 0" using assms(3) by (metis add_is_0 unat_0 unat_eq_zero)
    have "hs @ [ev] = xs @ (ys @ [ev]) \<and> (\<forall>ev \<in> set (ys @ [ev]). pulse ev = pulse t) \<and> signal (ys @ [ev]) = signal [t]"
      using ys True u by (auto simp: t replicate_add)
    then have ex: "\<exists>xs ys. hs @ [ev] = xs @ ys \<and> (\<forall>ev \<in> set ys. pulse ev = pulse t) \<and> signal ys = signal [t]" by blast
    show ?thesis by (intro conjI nz ex) (use m u True in \<open>simp_all add: t\<close>)
  next
    case False
    then have t: "t = ev" using assms(6) by (auto simp: merge_one_def)
    have "\<not> pulse ev \<longrightarrow> gap = 0" using assms(1,2) False by (auto simp: merging_def pending_def split: if_splits)
    then show ?thesis using assms(3,4) False by (auto simp: t intro: exI [of _ hs] exI [of _ "[ev]"])
  qed
  then show "duration t \<noteq> 0" "\<not> ev_timeout t" "pulse t = pulse ev" "\<not> pulse ev \<Longrightarrow> gap + unat (duration ev) = unat (duration t)"
    "\<exists>xs ys. hs @ [ev] = xs @ ys \<and> (\<forall>ev \<in> set ys. pulse ev = pulse t) \<and> signal ys = signal [t]"
    "duration (this_ev r) \<noteq> 0 \<and> pulse ev = pulse (this_ev r) \<Longrightarrow> unat (duration t) = unat (duration (this_ev r)) + unat (duration ev)"
    by blast+
qed

text \<open>The sample is heard: what is then stored, before the timeout is looked at.\<close>

lemma merging_stored:
  assumes "merging held cap c to (hs, asleep, gap) dev st r" "\<not> (asleep \<and> \<not> pulse ev)" "duration ev \<noteq> 0" "\<not> ev_timeout ev" "short_runs (hs @ [ev])"
    and "t = merge_one (this_ev r) ev" "st1 = st @ (if duration (this_ev r) \<noteq> 0 \<and> pulse ev \<noteq> pulse (this_ev r) then [this_ev r] else [])"
  shows "signal (st1 @ [t]) = signal (hs @ [ev])" "successively (\<lambda>a b. pulse a \<noteq> pulse b) (st1 @ [t])" "length (st1 @ [t]) \<le> length (hs @ [ev])"
    "\<forall>e \<in> set st1. ev_timeout e \<longleftrightarrow> long_gap to e"
proof -
  have m: "signal (st @ pending r) = signal hs" "successively (\<lambda>a b. pulse a \<noteq> pulse b) (st @ pending r)" "length (st @ pending r) \<le> length hs"
    "\<forall>e \<in> set st. ev_timeout e \<longleftrightarrow> long_gap to e"
    "pending r = [] \<Longrightarrow> if asleep then st = [] \<or> \<not> pulse (last st) else st = []"
    "pending r \<noteq> [] \<Longrightarrow> \<not> ev_timeout (this_ev r) \<and> \<not> long_gap to (this_ev r)"
    using assms(1) by (auto simp: merging_def split: if_splits)
  note t = merging_this [OF assms(1-6)]
  show "\<forall>e \<in> set st1. ev_timeout e \<longleftrightarrow> long_gap to e" using m(4,6) by (auto simp: assms(7) pending_def)
  show "length (st1 @ [t]) \<le> length (hs @ [ev])" using m(3) by (auto simp: assms(7) pending_def split: if_splits)
  show "successively (\<lambda>a b. pulse a \<noteq> pulse b) (st1 @ [t])"
    using m(2,5) t(3) assms(2) by (auto simp: assms(7) pending_def successively_append_iff split: if_splits)
  show "signal (st1 @ [t]) = signal (hs @ [ev])"
  proof (cases "duration (this_ev r) \<noteq> 0 \<and> pulse ev = pulse (this_ev r)")
    case True
    then show ?thesis using m(1) t(3,6) by (auto simp: assms(7) pending_def replicate_add)
  next
    case False
    then have "t = ev" by (auto simp: assms(6) merge_one_def)
    then show ?thesis using m(1) False by (auto simp: assms(7) pending_def)
  qed
qed

lemma merging_step:
  assumes "kfifo_laws K held cap" "merging held cap c to s dev st r" "duration ev \<noteq> 0" "\<not> ev_timeout ev" "short_runs (fst (hear to s ev))"
    and "12 * length (fst (hear to s ev)) \<le> c"
  shows "\<exists>st' r'. merging held cap c to (hear to s ev) (snd (ir_raw_event_store_with_filter K ev dev)) st' r'"
proof -
  obtain hs asleep gap where s: "s = (hs, asleep, gap)" by (cases s)
  show ?thesis
  proof (cases "asleep \<and> \<not> pulse ev")
    case True
    then show ?thesis using merging_asleep [of held cap c to hs gap dev st r ev] assms(2) by (auto simp: s)
  next
    case False
    then have h: "fst (hear to s ev) = hs @ [ev]" by (auto simp: s hear_def)
    define t where "t = merge_one (this_ev r) ev"
    define st1 where "st1 = st @ (if duration (this_ev r) \<noteq> 0 \<and> pulse ev \<noteq> pulse (this_ev r) then [this_ev r] else [])"
    note t = merging_this [OF assms(2) [unfolded s] False assms(3,4) assms(5) [unfolded h] t_def]
    note st = merging_stored [OF assms(2) [unfolded s] False assms(3,4) assms(5) [unfolded h] t_def st1_def]
    have m: "raw dev = Some r" "idle dev = asleep" "timeout dev = to" "held (kfifo r) = concat (map pieces st)" "cap (kfifo r) = c"
      "length (st @ pending r) \<le> length hs" using assms(2) by (simp_all add: s merging_def)
    have l: "length (concat (map pieces xs)) = 12 * length xs" for xs by (simp add: length_concat comp_def sum_list_triv)
    have "\<not> (idle dev \<and> \<not> pulse ev)" "length (held (kfifo r)) + 12 * length (pending r) \<le> cap (kfifo r)"
      using False m(2,4-6) assms(6) by (auto simp: h l)
    note a = filter_awake [OF assms(1) m(1) this]
    have "held (kfifo r) @ (if duration (this_ev r) \<noteq> 0 \<and> pulse ev \<noteq> pulse (this_ev r) then pieces (this_ev r) else []) = concat (map pieces st1)"
      by (simp add: m(4) st1_def)
    from a [unfolded this m(3,5), folded t_def]
    obtain dev1 f where d: "raw dev1 = Some (r\<lparr>kfifo := f, this_ev := t\<rparr>)" "timeout dev1 = to" "\<not> idle dev1" "held f = concat (map pieces st1)" "cap f = c"
      "snd (ir_raw_event_store_with_filter K ev dev) = (if long_gap to t then ir_raw_event_set_idle K True dev1 else dev1)"
      by blast
    have g: "hear to s ev = (hs @ [ev], long_gap to t, if pulse ev then 0 else unat (duration t))"
      using False t(3,4) by (auto simp: s hear_def long_gap_def word_le_nat_alt)
    show ?thesis
    proof (cases "long_gap to t")
      case False
      then have "merging held cap c to (hear to s ev) dev1 st1 (r\<lparr>kfifo := f, this_ev := t\<rparr>)"
        using d t st by (simp add: merging_def g pending_def)
      then show ?thesis using d(6) False by auto
    next
      case True
      have "length (held f) + 12 \<le> cap f" using st(3) assms(6) d(4,5) by (simp add: h l)
      with idle_stores [OF assms(1) d(1)] obtain f' where f': "raw (ir_raw_event_set_idle K True dev1) = Some (r\<lparr>kfifo := f', this_ev := init_ir_raw_event\<rparr>)"
        "idle (ir_raw_event_set_idle K True dev1)" "timeout (ir_raw_event_set_idle K True dev1) = to"
        "held f' = concat (map pieces (st1 @ [t\<lparr>ev_timeout := True\<rparr>]))" "cap f' = c" using d(2,4,5) by auto
      have "merging held cap c to (hear to s ev) (ir_raw_event_set_idle K True dev1) (st1 @ [t\<lparr>ev_timeout := True\<rparr>]) (r\<lparr>kfifo := f', this_ev := init_ir_raw_event\<rparr>)"
        using True f' st by (auto simp: merging_def g pending_def init_ir_raw_event_def long_gap_def successively_append_iff)
      then show ?thesis using d(6) True by auto
    qed
  qed
qed

lemma hear_grows: "\<exists>ys. fst (hear to s ev) = fst s @ ys \<and> length ys \<le> 1"
  by (cases s) (auto simp: hear_def)

lemma heard_length: "length (fst (heard to asleep evs)) \<le> length evs"
proof (induction evs rule: rev_induct)
  case (snoc ev evs)
  then show ?case using hear_grows [of to "heard to asleep evs" ev] by (auto simp: heard_def)
qed (simp add: heard_def)

lemma merging_events:
  assumes "kfifo_laws K held cap" "merging held cap c to ([], asleep, 0) dev [] r" "\<forall>ev \<in> set evs. duration ev \<noteq> 0 \<and> \<not> ev_timeout ev"
    and "short_runs (fst (heard to asleep evs))" "12 * length evs \<le> c"
  shows "\<exists>st r'. merging held cap c to (heard to asleep evs) (filter_events K evs dev) st r'"
  using assms(3-5)
proof (induction evs rule: rev_induct)
  case Nil
  then show ?case using assms(2) by (auto simp: filter_events_def heard_def)
next
  case (snoc ev evs)
  have h: "heard to asleep (evs @ [ev]) = hear to (heard to asleep evs) ev" by (simp add: heard_def)
  have "short_runs (fst (heard to asleep evs))"
    using snoc.prems(2) hear_grows [of to "heard to asleep evs" ev] by (auto simp: h dest: short_runs_prefix)
  with snoc obtain st r' where m: "merging held cap c to (heard to asleep evs) (filter_events K evs dev) st r'" by auto
  have "12 * length (fst (hear to (heard to asleep evs) ev)) \<le> c" using heard_length [of to asleep "evs @ [ev]"] snoc.prems(3) by (simp add: h)
  from merging_step [OF assms(1) m _ _ snoc.prems(2) [unfolded h] this] snoc.prems(1) show ?case by (simp add: filter_events_def h)
qed



end
