(* ===== verification/Rc_Device.thy ===== *)
theory Rc_Device
  imports Ir_Raw
begin

text \<open>
  The rest of \<open>rc-main.c\<close>: the list of known keymaps, the file \<open>protocols\<close> through which programs read and change the enabled
  protocols, and the registration of a device with its cleanup on every error.
\<close>

section \<open>Keymaps\<close>

record rc_map_entry =
  entry_id :: nat
  entry_map :: rc_map

definition seek_rc_map :: "string \<Rightarrow> rc_map_entry list \<Rightarrow> rc_map option" where
  "seek_rc_map name maps = map_option entry_map (find (\<lambda>e. map_name (entry_map e) = name) maps)"

text \<open>Loading a module may register keymaps; \<open>request_module\<close> gives its result and the list after it.\<close>

definition rc_map_get :: "(string \<Rightarrow> rc_map_entry list \<Rightarrow> int \<times> rc_map_entry list) \<Rightarrow> string \<Rightarrow> rc_map_entry list \<Rightarrow> rc_map option \<times> rc_map_entry list" where
  "rc_map_get request_module name maps = (case seek_rc_map name maps of
     Some m \<Rightarrow> (Some m, maps)
   | None \<Rightarrow> let (rc, maps) = request_module name maps in if rc < 0 then (None, maps) else (seek_rc_map name maps, maps))"

definition rc_map_register :: "rc_map_entry \<Rightarrow> rc_map_entry list \<Rightarrow> int \<times> rc_map_entry list" where
  "rc_map_register e maps = (0, maps @ [e])"

definition rc_map_unregister :: "rc_map_entry \<Rightarrow> rc_map_entry list \<Rightarrow> rc_map_entry list option" where
  "rc_map_unregister e maps =
     (if entry_id e \<in> entry_id ` set maps then Some (filter (\<lambda>e'. entry_id e' \<noteq> entry_id e) maps) else None)"

abbreviation (input) RC_MAP_EMPTY :: string where "RC_MAP_EMPTY \<equiv> ''rc-empty''"
abbreviation (input) KEY_COFFEE :: u32 where "KEY_COFFEE \<equiv> 152"

definition empty_map :: rc_map_entry where
  "empty_map = \<lparr>entry_id = 0, entry_map = \<lparr>scan = Some [\<lparr>scancode = 0x2a, keycode = KEY_COFFEE\<rparr>], tab_size = 1, tab_len = 0, tab_alloc = 0,
     rc_type = 0, map_name = RC_MAP_EMPTY\<rparr>\<rparr>"

section \<open>The device\<close>

record 'f rc_device =
  kdev :: rc_dev
  irdev :: "'f ir_dev"
  keymap_name :: "string option"
  driver_raw :: bool
  allowed_protos :: u64
  has_input :: bool
  input_registered :: bool
  device_added :: bool
  locked :: bool
  devno :: nat
  rep_delay :: int
  rep_period :: int

abbreviation rc_map_of :: "'f rc_device \<Rightarrow> rc_map" where
  "rc_map_of dev \<equiv> dmap (mdev (kdev dev))"

definition set_map :: "rc_map \<Rightarrow> 'f rc_device \<Rightarrow> 'f rc_device" where
  "set_map m dev = dev\<lparr>kdev := (kdev dev)\<lparr>mdev := (mdev (kdev dev))\<lparr>dmap := m\<rparr>\<rparr>\<rparr>"

section \<open>Protocols\<close>

abbreviation (input) RC_TYPE_UNKNOWN :: u64 where "RC_TYPE_UNKNOWN \<equiv> 0"
abbreviation (input) RC_TYPE_MCE_KBD :: u64 where "RC_TYPE_MCE_KBD \<equiv> 0x20000000"
abbreviation (input) RC_TYPE_LIRC :: u64 where "RC_TYPE_LIRC \<equiv> 0x40000000"
abbreviation (input) RC_TYPE_OTHER :: u64 where "RC_TYPE_OTHER \<equiv> 0x80000000"

definition proto_names :: "(u64 \<times> string) list" where
  "proto_names = [(RC_TYPE_UNKNOWN, ''unknown''), (RC_TYPE_RC5, ''rc-5''), (RC_TYPE_NEC, ''nec''), (RC_TYPE_RC6, ''rc-6''), (RC_TYPE_JVC, ''jvc''),
     (RC_TYPE_SONY, ''sony''), (RC_TYPE_RC5_SZ, ''rc-5-sz''), (RC_TYPE_MCE_KBD, ''mce_kbd''), (RC_TYPE_LIRC, ''lirc''), (RC_TYPE_OTHER, ''other'')]"

abbreviation (input) PROTO_NONE :: string where "PROTO_NONE \<equiv> ''none''"
abbreviation (input) newline :: char where "newline \<equiv> CHR 0x0A"

definition show_text :: "u64 \<Rightarrow> u64 \<Rightarrow> string" where
  "show_text allowed enabled =
     (let out = concat (map (\<lambda>(t, name). if allowed AND enabled AND t \<noteq> 0 then ''['' @ name @ ''] ''
                                          else if allowed AND t \<noteq> 0 then name @ '' '' else []) proto_names)
      in (if out \<noteq> [] then butlast out else out) @ [newline])"

text \<open>\<open>raw_allowed\<close> are the protocols of the registered decoders. A raw device without control structure is a fault.\<close>

definition show_protocols :: "u64 \<Rightarrow> 'f rc_device option \<Rightarrow> (int \<times> string) option" where
  "show_protocols raw_allowed dev = (case dev of
     None \<Rightarrow> Some (- EINVAL, [])
   | Some dev \<Rightarrow> do {
       (enabled, allowed) \<leftarrow>
         (if \<not> driver_raw dev then Some (rc_type (rc_map_of dev), allowed_protos dev)
          else do { r \<leftarrow> raw (irdev dev); Some (raw_enabled r, raw_allowed) });
       let text = show_text allowed enabled;
       Some (int (length text), text) })"

text \<open>\<open>strsep\<close> with a space and a newline as separators: the text up to the first one and what is behind it.\<close>

fun strsep :: "string \<Rightarrow> string \<times> string option" where
  "strsep [] = ([], None)"
| "strsep (c # cs) = (if c = CHR '' '' \<or> c = newline then ([], Some cs) else let (t, rest) = strsep cs in (c # t, rest))"

lemma strsep_length: "strsep s = (t, Some rest) \<Longrightarrow> length rest < length s"
  by (induction s arbitrary: t) (auto split: if_splits prod.splits)

definition tolower :: "char \<Rightarrow> char" where
  "tolower c = (let n = of_char c :: nat in if 65 \<le> n \<and> n \<le> 90 then char_of (n + 32) else c)"

definition strcasecmp :: "string \<Rightarrow> string \<Rightarrow> bool" where
  "strcasecmp s t \<longleftrightarrow> map tolower s = map tolower t"

definition proto_of :: "string \<Rightarrow> u64 option" where
  "proto_of s = map_option fst (find (\<lambda>(t, name). strcasecmp s name) proto_names)"

text \<open>The loop over the words. An empty word ends it, an unknown name is an error.\<close>

function protocol_words :: "string option \<Rightarrow> u64 \<Rightarrow> nat \<Rightarrow> (u64 \<times> nat) option" where
  "protocol_words None type n = Some (type, n)"
| "protocol_words (Some data) type n =
     (let (tmp, rest) = strsep data
      in if tmp = [] then Some (type, n)
         else
           let enable = (hd tmp = CHR ''+''); disable = (hd tmp = CHR ''-'');
               tmp = (if enable \<or> disable then tl tmp else tmp);
               bits_m = (if \<not> enable \<and> \<not> disable \<and> strcasecmp tmp PROTO_NONE then Some 0 else proto_of tmp)
           in case bits_m of
                None \<Rightarrow> None
              | Some bits_m \<Rightarrow>
                  protocol_words rest (if enable then type OR bits_m else if disable then type AND NOT bits_m else bits_m) (n + 1))"
  by pat_completeness auto
termination
  by (relation "measure (\<lambda>(d, type, n). case d of None \<Rightarrow> 0 | Some s \<Rightarrow> Suc (length s))")
    (auto split: option.splits dest: strsep_length [OF sym])

declare protocol_words.simps [simp del]

definition store_protocols :: "(u64 \<Rightarrow> int) option \<Rightarrow> string \<Rightarrow> 'f rc_device option \<Rightarrow> int \<times> 'f rc_device option" where
  "store_protocols change_protocol data dev = (case dev of
     None \<Rightarrow> (- EINVAL, None)
   | Some dev \<Rightarrow>
       (case (if \<not> driver_raw dev then Some (rc_type (rc_map_of dev)) else map_option raw_enabled (raw (irdev dev))) of
          None \<Rightarrow> (- EINVAL, Some dev)
        | Some type \<Rightarrow>
            (case protocol_words (Some data) type 0 of
               None \<Rightarrow> (- EINVAL, Some dev)
             | Some (type, cnt) \<Rightarrow>
                 if cnt = 0 then (- EINVAL, Some dev)
                 else if (case change_protocol of None \<Rightarrow> False | Some f \<Rightarrow> f type < 0) then (- EINVAL, Some dev)
                 else (int (length data), Some (
                   if \<not> driver_raw dev then set_map ((rc_map_of dev)\<lparr>rc_type := type\<rparr>) dev
                   else dev\<lparr>irdev := (irdev dev)\<lparr>raw := map_option (\<lambda>r. r\<lparr>raw_enabled := type\<rparr>) (raw (irdev dev))\<rparr>\<rparr>)))))"

section \<open>Commands\<close>

text \<open>What a program writes: a word for each change, by the number of the protocol in the table.\<close>

datatype command = Only nat | Add nat | Remove nat | Nothing

abbreviation (input) proto_bits :: "nat \<Rightarrow> u64" where "proto_bits i \<equiv> fst (proto_names ! i)"
abbreviation (input) proto_name :: "nat \<Rightarrow> string" where "proto_name i \<equiv> snd (proto_names ! i)"

primrec valid :: "command \<Rightarrow> bool" where
  "valid (Only i) \<longleftrightarrow> i < length proto_names"
| "valid (Add i) \<longleftrightarrow> i < length proto_names"
| "valid (Remove i) \<longleftrightarrow> i < length proto_names"
| "valid Nothing \<longleftrightarrow> True"

primrec word_of :: "command \<Rightarrow> string" where
  "word_of (Only i) = proto_name i"
| "word_of (Add i) = CHR ''+'' # proto_name i"
| "word_of (Remove i) = CHR ''-'' # proto_name i"
| "word_of Nothing = PROTO_NONE"

primrec effect :: "command \<Rightarrow> u64 \<Rightarrow> u64" where
  "effect (Only i) t = proto_bits i"
| "effect (Add i) t = t OR proto_bits i"
| "effect (Remove i) t = t AND NOT (proto_bits i)"
| "effect Nothing t = 0"

fun text_of :: "command list \<Rightarrow> string" where
  "text_of [] = []"
| "text_of [c] = word_of c"
| "text_of (c # cs) = word_of c @ '' '' @ text_of cs"

definition name_ok :: "u64 \<times> string \<Rightarrow> bool" where
  "name_ok = (\<lambda>(t, w). w \<noteq> [] \<and> CHR '' '' \<notin> set w \<and> newline \<notin> set w \<and> hd w \<noteq> CHR ''+'' \<and> hd w \<noteq> CHR ''-''
     \<and> \<not> strcasecmp w PROTO_NONE \<and> proto_of w = Some t)"

lemma names_ok: "list_all name_ok proto_names"
  by code_simp

lemma name_chars:
  assumes "i < length proto_names"
  shows "proto_name i \<noteq> []" "CHR '' '' \<notin> set (proto_name i)" "newline \<notin> set (proto_name i)"
    "hd (proto_name i) \<noteq> CHR ''+''" "hd (proto_name i) \<noteq> CHR ''-''" "\<not> strcasecmp (proto_name i) PROTO_NONE"
    "proto_of (proto_name i) = Some (proto_bits i)"
  using names_ok assms unfolding list_all_length by (simp_all add: name_ok_def case_prod_unfold)

lemma strsep_word: "\<lbrakk>CHR '' '' \<notin> set w; newline \<notin> set w\<rbrakk> \<Longrightarrow> strsep (w @ s) = (let (t, rest) = strsep s in (w @ t, rest))"
  by (induction w) (auto split: prod.splits)

lemma word_step:
  assumes "valid c" "strsep s = ([], rest)"
  shows "protocol_words (Some (word_of c @ s)) type n = protocol_words rest (effect c type) (n + 1)"
proof -
  have w: "CHR '' '' \<notin> set (word_of c)" "newline \<notin> set (word_of c)" using assms(1) name_chars by (cases c; auto)+
  have "strsep (word_of c @ s) = (word_of c, rest)" by (simp add: strsep_word [OF w] assms(2))
  then show ?thesis using assms(1) name_chars
    by (cases c) (auto simp: protocol_words.simps(2) strcasecmp_def)
qed

lemma words_text:
  assumes "list_all valid cs" "cs \<noteq> []" "s = [] \<or> s = [newline]"
  shows "protocol_words (Some (text_of cs @ s)) type n = Some (fold effect cs type, n + length cs)"
  using assms(1,2)
proof (induction cs arbitrary: type n rule: text_of.induct)
  case (2 c)
  have "protocol_words (snd (strsep s)) t m = Some (t, m)" for t m
    using assms(3) by (auto simp: protocol_words.simps)
  then show ?case using word_step [of c s "snd (strsep s)" type n] 2 assms(3) by auto
next
  case (3 c c' cs)
  then show ?case using word_step [of c "'' '' @ text_of (c' # cs) @ s" "Some (text_of (c' # cs) @ s)" type n] by simp
qed simp

text \<open>C23. Writing the protocols. The words \<open>name\<close>, \<open>+name\<close>, \<open>-name\<close> and \<open>none\<close>, separated by spaces and with or without a newline at the end, change the
  enabled protocols one after the other as documented, for devices that give scancodes and for raw ones, and the length of the text is returned.\<close>

theorem store_protocols_commands:
  assumes "list_all valid cs" "cs \<noteq> []" "s = [] \<or> s = [newline]" "driver_raw dev \<Longrightarrow> raw (irdev dev) = Some r"
    and "type = (if driver_raw dev then raw_enabled r else rc_type (rc_map_of dev))"
    and "change_protocol = None \<or> (\<exists>f. change_protocol = Some f \<and> 0 \<le> f (fold effect cs type))"
  shows "\<exists>dev'. store_protocols change_protocol (text_of cs @ s) (Some dev) = (int (length (text_of cs @ s)), Some dev')
    \<and> (if driver_raw dev then map_option raw_enabled (raw (irdev dev')) = Some (fold effect cs type)
       else rc_type (rc_map_of dev') = fold effect cs type)"
  using words_text [OF assms(1-3), of type 0] assms(2,4-6) by (auto simp: store_protocols_def set_map_def)

definition rc_demo :: "'f ir_raw_event_ctrl option \<Rightarrow> 'f rc_device" where
  "rc_demo r = \<lparr>kdev = idle_dev blank_dev,
     irdev = \<lparr>raw = r, idle = False, timeout = 0, has_s_idle = False, idle_calls = [], wakeups = 0\<rparr>,
     keymap_name = Some RC_MAP_EMPTY, driver_raw = True, allowed_protos = 0, has_input = True, input_registered = False, device_added = False,
     locked = False, devno = 0, rep_delay = 0, rep_period = 0\<rparr>"

theorem store_protocols_commands_witness:
  "\<exists>dev'. store_protocols None (''none +nec +rc-5'' @ [newline]) (Some (rc_demo (Some (ctrl_init ()))))
      = (int (length (''none +nec +rc-5'' @ [newline])), Some dev')
    \<and> map_option raw_enabled (raw (irdev dev')) = Some 3"
  using store_protocols_commands [of "[Nothing, Add 2, Add 1]" "[newline]" "rc_demo (Some (ctrl_init ()))" "ctrl_init ()" "NOT 0" None]
  by (simp add: rc_demo_def ctrl_init_def proto_names_def)

section \<open>Allocation\<close>

text \<open>The variables of the module; \<open>input_devs\<close> counts the input devices that exist, \<open>module_refs\<close> the references to the module.\<close>

record rc_core =
  raw_globals :: ir_raw_globals
  rc_map_list :: "rc_map_entry list"
  next_devno :: nat
  input_devs :: nat
  module_refs :: nat

text \<open>Memory from \<open>kzalloc\<close> is zero. The fields that the driver sets afterwards, and \<open>scanmask\<close> and \<open>keybit\<close>, are clear as well.\<close>

definition zeroed :: "'f rc_device" where
  "zeroed = \<lparr>
     kdev = \<lparr>mdev = \<lparr>dmap = \<lparr>scan = None, tab_size = 0, tab_len = 0, tab_alloc = 0, rc_type = 0, map_name = []\<rparr>, scanmask = 0, keybit = replicate KEY_CNT False\<rparr>,
       keypressed = False, keyup_jiffies = 0, timer_keyup = None, last_keycode = 0, last_scancode = 0, last_toggle = 0, calls = []\<rparr>,
     irdev = \<lparr>raw = None, idle = False, timeout = 0, has_s_idle = False, idle_calls = [], wakeups = 0\<rparr>,
     keymap_name = None, driver_raw = False, allowed_protos = 0, has_input = False, input_registered = False, device_added = False,
     locked = False, devno = 0, rep_delay = 0, rep_period = 0\<rparr>"

definition rc_allocate_device :: "bool \<Rightarrow> bool \<Rightarrow> rc_core \<Rightarrow> rc_core \<times> 'f rc_device option" where
  "rc_allocate_device kzalloc input_allocate_device core =
     (if \<not> kzalloc then (core, None)
      else if \<not> input_allocate_device then (core, None)
      else (core\<lparr>input_devs := input_devs core + 1, module_refs := module_refs core + 1\<rparr>, Some (zeroed\<lparr>has_input := True\<rparr>)))"

definition rc_free_device :: "rc_core \<Rightarrow> 'f rc_device option \<Rightarrow> rc_core" where
  "rc_free_device core dev = (case dev of
     None \<Rightarrow> core
   | Some dev \<Rightarrow>
       let core = (if has_input dev then core\<lparr>input_devs := input_devs core - 1\<rparr> else core)
       in core\<lparr>module_refs := module_refs core - 1\<rparr>)"

section \<open>Registration\<close>

text \<open>What the kernel and the driver answer while a device is registered. A fault is \<open>None\<close>, as is waiting for a lock that the same thread holds.\<close>

record services =
  request_module :: "string \<Rightarrow> rc_map_entry list \<Rightarrow> int \<times> rc_map_entry list"
  device_add :: int
  table_kmalloc :: allocator
  table_kmallocs :: "nat \<Rightarrow> allocator"
  input_register_device :: int
  raw_kzalloc :: bool
  raw_kfifo_alloc :: int
  raw_kthread_run :: int
  change_protocol :: "(u64 \<Rightarrow> int) option"

text \<open>\<open>input_unregister_device\<close> also drops the last reference to the input device.\<close>

definition unregister_input :: "rc_core \<times> 'f rc_device \<Rightarrow> rc_core \<times> 'f rc_device" where
  "unregister_input = (\<lambda>(core, dev). (core\<lparr>input_devs := input_devs core - 1\<rparr>, dev\<lparr>input_registered := False, has_input := False\<rparr>))"

definition unregister_raw :: "rc_core \<times> 'f rc_device \<Rightarrow> rc_core \<times> 'f rc_device" where
  "unregister_raw = (\<lambda>(core, dev).
     if driver_raw dev then
       let (g, ir) = ir_raw_event_unregister (devno dev) (raw_globals core) (Some (irdev dev))
       in (core\<lparr>raw_globals := g\<rparr>, dev\<lparr>irdev := the ir\<rparr>)
     else (core, dev))"

definition free_table :: "rc_core \<times> 'f rc_device \<Rightarrow> rc_core \<times> 'f rc_device" where
  "free_table = (\<lambda>(core, dev). (core, set_map (ir_free_table (rc_map_of dev)) dev))"

definition device_del :: "rc_core \<times> 'f rc_device \<Rightarrow> rc_core \<times> 'f rc_device" where
  "device_del = (\<lambda>(core, dev). (core, dev\<lparr>device_added := False\<rparr>))"

definition mutex_unlock :: "rc_core \<times> 'f rc_device \<Rightarrow> rc_core \<times> 'f rc_device" where
  "mutex_unlock = (\<lambda>(core, dev). (core, dev\<lparr>locked := False\<rparr>))"

text \<open>The labels at the end of \<open>rc_register_device\<close>, each falling through to the next.\<close>

definition out_unlock :: "rc_core \<times> 'f rc_device \<Rightarrow> rc_core \<times> 'f rc_device" where "out_unlock = mutex_unlock"
definition out_dev :: "rc_core \<times> 'f rc_device \<Rightarrow> rc_core \<times> 'f rc_device" where "out_dev = out_unlock \<circ> device_del"
definition out_table :: "rc_core \<times> 'f rc_device \<Rightarrow> rc_core \<times> 'f rc_device" where "out_table = out_dev \<circ> free_table"
definition out_input :: "rc_core \<times> 'f rc_device \<Rightarrow> rc_core \<times> 'f rc_device" where "out_input = out_table \<circ> unregister_input"
definition out_raw :: "rc_core \<times> 'f rc_device \<Rightarrow> rc_core \<times> 'f rc_device" where "out_raw = out_input \<circ> unregister_raw"

text \<open>The end of the part under the lock, from the raw events on, and the whole of it, from \<open>device_add\<close> on.\<close>

definition register_raw :: "services \<Rightarrow> 'f \<Rightarrow> rc_map \<Rightarrow> rc_core \<times> 'f rc_device \<Rightarrow> int \<times> rc_core \<times> 'f rc_device" where
  "register_raw sv f rc_map = (\<lambda>(core, dev).
     let (rc, g, ir) = (if driver_raw dev
            then ir_raw_event_register (raw_kzalloc sv) (raw_kfifo_alloc sv) f (raw_kthread_run sv) (devno dev) (raw_globals core) (Some (irdev dev))
            else (0, raw_globals core, Some (irdev dev)));
         s = (core\<lparr>raw_globals := g\<rparr>, dev\<lparr>irdev := the ir\<rparr>)
     in if rc < 0 then (rc, out_input s)
        else case change_protocol sv of
               None \<Rightarrow> (0, mutex_unlock s)
             | Some change \<Rightarrow> let rc = change (rc_type rc_map) in if rc < 0 then (rc, out_raw s) else (0, mutex_unlock s))"

definition register_locked :: "services \<Rightarrow> 'f \<Rightarrow> rc_map \<Rightarrow> rc_core \<times> 'f rc_device \<Rightarrow> (int \<times> rc_core \<times> 'f rc_device) option" where
  "register_locked sv f rc_map = (\<lambda>(core, dev).
     if device_add sv \<noteq> 0 then Some (device_add sv, out_unlock (core, dev))
     else do {
       let dev = dev\<lparr>device_added := True\<rparr>;
       (rc, md) \<leftarrow> ir_setkeytable (table_kmalloc sv) (table_kmallocs sv) rc_map (mdev (kdev dev));
       let dev = dev\<lparr>kdev := (kdev dev)\<lparr>mdev := md\<rparr>\<rparr>;
       if rc \<noteq> 0 then Some (rc, out_dev (core, dev))
       else if input_register_device sv \<noteq> 0 then Some (input_register_device sv, out_table (core, dev))
       else Some (register_raw sv f rc_map (core, dev\<lparr>input_registered := True, rep_delay := 500, rep_period := 125\<rparr>)) })"

definition find_keymap :: "(string \<Rightarrow> rc_map_entry list \<Rightarrow> int \<times> rc_map_entry list) \<Rightarrow> string \<Rightarrow> rc_map_entry list \<Rightarrow> rc_map option \<times> rc_map_entry list" where
  "find_keymap request name maps =
     (let (m, maps) = rc_map_get request name maps
      in if m = None then rc_map_get request RC_MAP_EMPTY maps else (m, maps))"

definition rc_register_device :: "services \<Rightarrow> 'f \<Rightarrow> rc_core \<Rightarrow> 'f rc_device option \<Rightarrow> (int \<times> rc_core \<times> 'f rc_device option) option" where
  "rc_register_device sv f core dev = (case dev of
     None \<Rightarrow> Some (- EINVAL, core, None)
   | Some dev \<Rightarrow>
       (case keymap_name dev of
          None \<Rightarrow> Some (- EINVAL, core, Some dev)
        | Some name \<Rightarrow>
            (let (m, maps) = find_keymap (request_module sv) name (rc_map_list core);
                 core = core\<lparr>rc_map_list := maps\<rparr>
             in case m of
                  None \<Rightarrow> Some (- EINVAL, core, Some dev)
                | Some rc_map \<Rightarrow>
                    if scan rc_map = None \<or> tab_size rc_map = 0 then Some (- EINVAL, core, Some dev)
                    else if \<not> has_input dev \<or> locked dev then None
                    else do {
                      (rc, core, dev) \<leftarrow> register_locked sv f rc_map
                        (core\<lparr>next_devno := next_devno core + 1\<rparr>, dev\<lparr>locked := True, devno := next_devno core\<rparr>);
                      Some (rc, core, Some dev) })))"

text \<open>Unregistration, one function per statement: another thread may run between two of them.\<close>

definition del_timer :: "rc_core \<times> 'f rc_device \<Rightarrow> rc_core \<times> 'f rc_device" where
  "del_timer = (\<lambda>(core, dev). (core, dev\<lparr>kdev := (kdev dev)\<lparr>timer_keyup := None\<rparr>\<rparr>))"

definition unregister_steps :: "(rc_core \<times> 'f rc_device \<Rightarrow> rc_core \<times> 'f rc_device) list" where
  "unregister_steps = [del_timer, free_table, unregister_input, unregister_raw, device_del]"

definition rc_unregister_device :: "rc_core \<Rightarrow> 'f rc_device option \<Rightarrow> rc_core" where
  "rc_unregister_device core dev = (case dev of
     None \<Rightarrow> core
   | Some dev \<Rightarrow> let (core, dev) = fold (\<lambda>step s. step s) unregister_steps (core, dev) in rc_free_device core (Some dev))"

lemmas out_defs = out_raw_def out_input_def out_table_def out_dev_def out_unlock_def unregister_input_def unregister_raw_def free_table_def
  device_del_def mutex_unlock_def del_timer_def set_map_def

section \<open>The module and the input device\<close>

text \<open>\<open>ir_raw_init\<close> only schedules the loading of the decoder modules, which register themselves with \<open>ir_raw_handler_register\<close>.\<close>

definition rc_core_init :: "int \<Rightarrow> rc_core \<Rightarrow> int \<times> rc_core" where
  "rc_core_init class_register core =
     (if class_register \<noteq> 0 then (class_register, core) else (0, core\<lparr>rc_map_list := snd (rc_map_register empty_map (rc_map_list core))\<rparr>))"

definition rc_core_exit :: "rc_core \<Rightarrow> rc_core option" where
  "rc_core_exit core = map_option (\<lambda>maps. core\<lparr>rc_map_list := maps\<rparr>) (rc_map_unregister empty_map (rc_map_list core))"

text \<open>The variables a hotplug event is given; \<open>add\<close> is the result of adding each.\<close>

fun add_vars :: "(string \<Rightarrow> int) \<Rightarrow> string option list \<Rightarrow> int" where
  "add_vars add [] = 0"
| "add_vars add (None # vs) = add_vars add vs"
| "add_vars add (Some v # vs) = (if add v \<noteq> 0 then add v else add_vars add vs)"

definition rc_dev_uevent :: "(string \<Rightarrow> int) \<Rightarrow> string option \<Rightarrow> string option \<Rightarrow> 'f rc_device option \<Rightarrow> int" where
  "rc_dev_uevent add_uevent_var name driver_name dev = (case dev of
     None \<Rightarrow> - ENODEV
   | Some dev \<Rightarrow>
       if \<not> has_input dev then - ENODEV
       else add_vars add_uevent_var [map_option (\<lambda>s. ''NAME='' @ s) name, map_option (\<lambda>s. ''DRV_NAME='' @ s) driver_name])"

text \<open>Once the module is loaded there is a keymap for every name, the empty one if the modules know no better: loading a module only adds keymaps.\<close>

lemma seek_append: "seek_rc_map name (maps @ xs) = (case seek_rc_map name maps of None \<Rightarrow> seek_rc_map name xs | Some m \<Rightarrow> Some m)"
  by (induction maps) (simp_all add: seek_rc_map_def)

lemma keymap_found:
  assumes "rc_core_init 0 core = (0, core')" "\<And>name maps. \<exists>xs. snd (request name maps) = maps @ xs"
  shows "\<exists>m maps. find_keymap request name (rc_map_list core') = (Some m, maps)"
proof -
  have "seek_rc_map RC_MAP_EMPTY [empty_map] \<noteq> None" by (simp add: seek_rc_map_def empty_map_def)
  then have e: "seek_rc_map RC_MAP_EMPTY (rc_map_list core' @ xs) \<noteq> None" for xs
    using assms(1) by (auto simp: rc_core_init_def rc_map_register_def seek_append split: option.splits)
  obtain r xs where r: "request name (rc_map_list core') = (r, rc_map_list core' @ xs)" using assms(2) by (metis prod.collapse)
  show ?thesis using e [of "[]"] e [of xs] r
    by (auto simp: find_keymap_def rc_map_get_def split: option.splits)
qed

section \<open>Every outcome of a registration\<close>

definition keymap_ok :: "rc_map \<Rightarrow> bool" where
  "keymap_ok m \<longleftrightarrow> (case scan m of None \<Rightarrow> True
     | Some es \<Rightarrow> tab_size m = length es \<and> length es < 2 ^ 28 \<and> list_all (\<lambda>e. unat (keycode e) < KEY_CNT) es)"

lemma loop_total:
  assumes "dev_ok dev" "list_all (\<lambda>e. unat (keycode e) < KEY_CNT) es" "\<forall>i. allocates (kmallocs i)"
  shows "\<exists>rc dev'. setkeytable_loop kmallocs es dev = Some (rc, dev') \<and> (rc = 0 \<or> rc = - ENOMEM) \<and> dev_ok dev'"
  using assms
proof (induction es arbitrary: dev kmallocs)
  case (Cons e es)
  have al: "allocates (\<lambda>_. None)" by (simp add: allocates_def)
  obtain i d where d: "ir_establish_scancode (\<lambda>_. None) (scancode e) False dev = Some (i, d)" "dev_ok d"
    using establish_ok [OF Cons.prems(1) al] by blast
  show ?case
  proof (cases "i < tab_len (dmap d)")
    case True
    have k: "unat (keycode e) < KEY_CNT" using Cons.prems(2) by simp
    obtain old d2 where d2: "ir_update_mapping (kmallocs 0) i (keycode e) d = Some (old, d2)" "dev_ok d2"
      using update_mapping_entries [OF d(2) True k, of "kmallocs 0"] Cons.prems(3) by blast
    show ?thesis using Cons.IH [OF d2(2), of "\<lambda>i. kmallocs (Suc i)"] Cons.prems(2,3) d(1) d2(1) True by simp
  qed (use d in simp)
qed simp

lemma setkeytable_total:
  assumes "no_keys dev" "keymap_ok from" "scan from = Some es" "tab_size from \<noteq> 0" "allocates kmalloc" "\<forall>i. allocates (kmallocs i)"
  obtains rc dev' where "ir_setkeytable kmalloc kmallocs from dev = Some (rc, dev')" "rc = 0 \<and> dev_ok dev' \<or> rc = - ENOMEM \<and> scan (dmap dev') = None"
proof (cases "kmalloc (roundup_pow_of_two (length es * entry_size))")
  case None
  obtain k where k: "roundup_pow_of_two (length es * entry_size) = 8 * 2 ^ k" "k < 29"
    using roundup_bounds [of "length es"] assms(2-4) by (auto simp: keymap_ok_def)
  have "(2 :: nat) ^ k < 2 ^ 29" using k(2) by (intro power_strict_increasing) simp_all
  then show thesis using that None assms(2,3) k(1) by (auto simp: ir_setkeytable_def ir_create_table_def keymap_ok_def Let_def)
next
  case (Some tab)
  have es: "tab_size from = length es" "0 < length es" "length es < 2 ^ 28" using assms(2-4) by (simp_all add: keymap_ok_def)
  obtain m where m: "ir_create_table kmalloc (map_name from) (rc_type from) (length es) (dmap dev) = (0, m)" "dev_ok (dev\<lparr>dmap := m\<rparr>)"
    using create_table_ok [OF assms(1) es(2,3) Some assms(5)] .
  obtain rc dev' where "setkeytable_loop kmallocs es (dev\<lparr>dmap := m\<rparr>) = Some (rc, dev')" "rc = 0 \<or> rc = - ENOMEM" "dev_ok dev'"
    using loop_total [OF m(2) _ assms(6), of es] assms(2,3) by (auto simp: keymap_ok_def)
  then show thesis using that setkeytable_eq [OF m(1) [folded es(1)] assms(3) es(1), of kmallocs] by (auto simp: ir_free_table_def)
qed

text \<open>What the kernel promises, the device as a driver hands it over, and the two results: a device that is there, and one that is nowhere.\<close>

definition answers :: "services \<Rightarrow> bool" where
  "answers sv \<longleftrightarrow> device_add sv \<le> 0 \<and> input_register_device sv \<le> 0 \<and> allocates (table_kmalloc sv) \<and> (\<forall>i. allocates (table_kmallocs sv i))"

definition clean :: "'f rc_device \<Rightarrow> bool" where
  "clean dev \<longleftrightarrow> \<not> device_added dev \<and> \<not> input_registered dev \<and> \<not> locked dev \<and> raw (irdev dev) = None \<and> scan (rc_map_of dev) = None"

definition fresh :: "'f rc_device \<Rightarrow> bool" where
  "fresh dev \<longleftrightarrow> clean dev \<and> has_input dev \<and> no_keys (mdev (kdev dev))"

definition registered :: "'f rc_device \<Rightarrow> bool" where
  "registered dev \<longleftrightarrow> device_added dev \<and> input_registered dev \<and> has_input dev \<and> \<not> locked dev \<and> (raw (irdev dev) \<noteq> None \<longleftrightarrow> driver_raw dev)
     \<and> dev_ok (mdev (kdev dev)) \<and> rep_delay dev = 500 \<and> rep_period dev = 125"

text \<open>The numbers of the clients are those given out, and no input device is missing. \<open>held\<close> is what a device has of the core: its input device, an entry in
  the list of clients, and \<open>queues\<close> event queues.\<close>

definition core_ok :: "rc_core \<Rightarrow> bool" where
  "core_ok core \<longleftrightarrow> (\<forall>n\<in>set (ir_raw_client_list (raw_globals core)). n < next_devno core) \<and> 0 < input_devs core"

definition held :: "bool \<Rightarrow> nat \<Rightarrow> 'f rc_device \<Rightarrow> rc_core \<Rightarrow> rc_core \<Rightarrow> bool" where
  "held raws queues dev core core' \<longleftrightarrow> input_devs core' + (if has_input dev then 0 else 1) = input_devs core \<and> module_refs core' = module_refs core
     \<and> ir_raw_client_list (raw_globals core') = ir_raw_client_list (raw_globals core) @ (if raws then [devno dev] else [])
     \<and> fifos (raw_globals core') = fifos (raw_globals core) + queues
     \<and> (raws \<longrightarrow> devno dev \<notin> set (ir_raw_client_list (raw_globals core)))"

text \<open>The one thing that a failed registration can leave behind: when the input device had been registered (and is gone again), and the queue was there but the
  thread could not be started, the queue stays allocated.\<close>

definition no_thread :: "services \<Rightarrow> bool" where
  "no_thread sv \<longleftrightarrow> raw_kzalloc sv \<and> 0 \<le> raw_kfifo_alloc sv \<and> raw_kthread_run sv < 0"

definition leaked :: "services \<Rightarrow> 'f rc_device \<Rightarrow> nat" where
  "leaked sv dev = (if driver_raw dev \<and> \<not> has_input dev \<and> no_thread sv then 1 else 0)"

definition outcome_ok :: "services \<Rightarrow> bool \<Rightarrow> rc_core \<Rightarrow> int \<times> rc_core \<times> 'f rc_device \<Rightarrow> bool" where
  "outcome_ok sv b core = (\<lambda>(rc, core', dev'). driver_raw dev' = b \<and>
     (if rc = 0 then registered dev' \<and> held b (of_bool b) dev' core core'
      else rc < 0 \<and> clean dev' \<and> held False (leaked sv dev') dev' core core'))"

lemma register_raw_outcome:
  assumes "0 < input_devs core" "devno dev \<notin> set (ir_raw_client_list (raw_globals core))"
    and "device_added dev" "input_registered dev" "has_input dev" "raw (irdev dev) = None" "dev_ok (mdev (kdev dev))" "rep_delay dev = 500" "rep_period dev = 125"
  shows "outcome_ok sv (driver_raw dev) core (register_raw sv f m (core, dev))"
  using assms
  by (auto simp: outcome_ok_def register_raw_def ir_raw_event_register_def ir_raw_event_unregister_def out_defs clean_def registered_def held_def leaked_def no_thread_def ctrl_init_def
      ir_free_table_def remove1_append Let_def split: option.splits)

lemma register_locked_outcome:
  assumes "answers sv" "0 < input_devs core" "devno dev \<notin> set (ir_raw_client_list (raw_globals core))"
    and "fresh (dev\<lparr>locked := False\<rparr>)" "keymap_ok m" "scan m \<noteq> None" "tab_size m \<noteq> 0"
  obtains r where "register_locked sv f m (core, dev) = Some r" "outcome_ok sv (driver_raw dev) core r"
proof (cases "device_add sv = 0")
  case False
  then show thesis using assms(1,4) that by (auto simp: outcome_ok_def register_locked_def answers_def fresh_def out_defs clean_def held_def leaked_def)
next
  case True
  obtain es where es: "scan m = Some es" using assms(6) by blast
  have nk: "no_keys (mdev (kdev dev))" and al: "allocates (table_kmalloc sv)" "\<forall>i. allocates (table_kmallocs sv i)"
    using assms(1,4) by (simp_all add: fresh_def answers_def)
  obtain rc md where k: "ir_setkeytable (table_kmalloc sv) (table_kmallocs sv) m (mdev (kdev dev)) = Some (rc, md)"
    "rc = 0 \<and> dev_ok md \<or> rc = - ENOMEM \<and> scan (dmap md) = None"
    using setkeytable_total [OF nk assms(5) es assms(7) al] .
  let ?d = "dev\<lparr>device_added := True, kdev := (kdev dev)\<lparr>mdev := md\<rparr>\<rparr>"
  show thesis
  proof (cases "rc = 0 \<and> input_register_device sv = 0")
    case r: True
    let ?d' = "?d\<lparr>input_registered := True, rep_delay := 500, rep_period := 125\<rparr>"
    have "outcome_ok sv (driver_raw ?d') core (register_raw sv f m (core, ?d'))"
      using assms(1-4) k(2) r by (intro register_raw_outcome) (simp_all add: fresh_def clean_def)
    then show thesis using True k(1) r by (intro that) (simp_all add: register_locked_def)
  next
    case False
    then show thesis using True k assms(1,4) that
      by (auto simp: outcome_ok_def register_locked_def answers_def fresh_def out_defs clean_def held_def leaked_def ir_free_table_def)
  qed
qed

lemma held_core: "held raws q dev (core\<lparr>rc_map_list := maps, next_devno := n\<rparr>) core' = held raws q dev core core'"
  by (simp add: held_def)

lemma register_outcome:
  assumes "answers sv" "core_ok core" "fresh dev"
    and "\<And>m maps. find_keymap (request_module sv) name (rc_map_list core) = (Some m, maps) \<Longrightarrow> keymap_ok m"
  shows "\<exists>rc core' dev'. rc_register_device sv f core (Some (dev\<lparr>keymap_name := Some name\<rparr>)) = Some (rc, core', Some dev')
    \<and> outcome_ok sv (driver_raw dev) core (rc, core', dev')"
proof -
  obtain m maps where k: "find_keymap (request_module sv) name (rc_map_list core) = (m, maps)" by force
  show ?thesis
  proof (cases "\<exists>rc_map. m = Some rc_map \<and> scan rc_map \<noteq> None \<and> tab_size rc_map \<noteq> 0")
    case True
    then obtain r where r: "m = Some r" "scan r \<noteq> None" "tab_size r \<noteq> 0" by blast
    let ?core = "core\<lparr>rc_map_list := maps, next_devno := next_devno core + 1\<rparr>" and
      ?dev = "dev\<lparr>keymap_name := Some name, locked := True, devno := next_devno core\<rparr>"
    have *: "0 < input_devs ?core" "devno ?dev \<notin> set (ir_raw_client_list (raw_globals ?core))" "fresh (?dev\<lparr>locked := False\<rparr>)"
      "has_input dev" "\<not> locked dev"
      using assms(2,3) by (auto simp: core_ok_def fresh_def clean_def)
    obtain rc core' dev' where o: "register_locked sv f r (?core, ?dev) = Some (rc, core', dev')" "outcome_ok sv (driver_raw ?dev) ?core (rc, core', dev')"
      using register_locked_outcome [OF assms(1) *(1-3) assms(4) [OF k [unfolded r(1)]] r(2,3)] by (metis prod_cases3)
    have "rc_register_device sv f core (Some (dev\<lparr>keymap_name := Some name\<rparr>)) = Some (rc, core', Some dev')"
      using k r *(4,5) o(1) by (auto simp: rc_register_device_def Let_def)
    moreover have "outcome_ok sv (driver_raw dev) core (rc, core', dev')" using o(2) by (auto simp: outcome_ok_def held_core split: if_splits)
    ultimately show ?thesis by blast
  next
    case False
    have "rc_register_device sv f core (Some (dev\<lparr>keymap_name := Some name\<rparr>)) = Some (- EINVAL, core\<lparr>rc_map_list := maps\<rparr>, Some (dev\<lparr>keymap_name := Some name\<rparr>))"
      using k False by (auto simp: rc_register_device_def Let_def split: option.splits)
    moreover have "outcome_ok sv (driver_raw dev) core (- EINVAL, core\<lparr>rc_map_list := maps\<rparr>, dev\<lparr>keymap_name := Some name\<rparr>)"
      using assms(3) by (simp add: outcome_ok_def fresh_def clean_def held_def leaked_def)
    ultimately show ?thesis by blast
  qed
qed


text \<open>The life of a device as a driver runs it.\<close>

definition life :: "services \<Rightarrow> 'f \<Rightarrow> bool \<Rightarrow> bool \<Rightarrow> string \<Rightarrow> bool \<Rightarrow> rc_core \<Rightarrow> rc_core option" where
  "life sv f kzalloc input_allocate_device name raws core =
     (case rc_allocate_device kzalloc input_allocate_device core of
        (core, None) \<Rightarrow> Some core
      | (core, Some dev) \<Rightarrow> do {
          (rc, core, dev) \<leftarrow> rc_register_device sv f core (Some (dev\<lparr>driver_raw := raws, keymap_name := Some name\<rparr>));
          Some (if rc \<noteq> 0 then rc_free_device core dev else rc_unregister_device core dev) })"

lemma unregister_balanced:
  assumes "registered dev" "held (driver_raw dev) (of_bool (driver_raw dev)) dev core core'"
  shows "input_devs (rc_unregister_device core' (Some dev)) = input_devs core - 1" "module_refs (rc_unregister_device core' (Some dev)) = module_refs core - 1"
    "ir_raw_client_list (raw_globals (rc_unregister_device core' (Some dev))) = ir_raw_client_list (raw_globals core)"
    "fifos (raw_globals (rc_unregister_device core' (Some dev))) = fifos (raw_globals core)"
  using assms by (auto simp: rc_unregister_device_def unregister_steps_def rc_free_device_def out_defs registered_def held_def
      ir_raw_event_unregister_def remove1_append)

lemma free_balanced:
  "held False q dev core core' \<Longrightarrow> rc_free_device core' (Some dev) = core'\<lparr>input_devs := input_devs core - 1, module_refs := module_refs core - 1\<rparr>"
  by (auto simp: rc_free_device_def held_def)


text \<open>C34. Reading during the removal. While a device with raw events is unregistered there is a moment when it is still known to the system, so that a program
  can still read the file \<open>protocols\<close>, but its control structure is already gone: reading then follows a null pointer. After any earlier
  statement reading is safe.\<close>

theorem show_during_removal:
  assumes "registered dev" "driver_raw dev" "n \<le> 4"
  shows "device_added (snd (fold (\<lambda>step s. step s) (take n unregister_steps) (core, dev)))
    \<and> (show_protocols allowed (Some (snd (fold (\<lambda>step s. step s) (take n unregister_steps) (core, dev)))) = None \<longleftrightarrow> n = 4)"
proof -
  have "n = 0 \<or> n = 1 \<or> n = 2 \<or> n = 3 \<or> n = 4" using assms(3) by linarith
  then show ?thesis
    using assms(1,2) by (auto simp: unregister_steps_def out_defs registered_def show_protocols_def ir_raw_event_unregister_def Let_def)
qed

section \<open>Witnesses\<close>

definition demo_services :: "services" where
  "demo_services = \<lparr>request_module = (\<lambda>_ maps. (- 2, maps)), device_add = 0, table_kmalloc = any_memory, table_kmallocs = (\<lambda>_. any_memory),
     input_register_device = 0, raw_kzalloc = True, raw_kfifo_alloc = 0, raw_kthread_run = 0, change_protocol = Some (\<lambda>_. - 5)\<rparr>"

definition demo_core :: rc_core where
  "demo_core = \<lparr>raw_globals = \<lparr>ir_raw_handler_list = [], ir_raw_client_list = [0], available_protocols = 0, hooks = [], fifos = 1\<rparr>,
     rc_map_list = [empty_map], next_devno = 1, input_devs = 1, module_refs = 1\<rparr>"

definition demo_device :: "unit rc_device" where
  "demo_device = (rc_demo (Some (ctrl_init ())))\<lparr>input_registered := True, device_added := True, rep_delay := 500, rep_period := 125\<rparr>"

lemma demo_ok:
  "answers demo_services" "answers (demo_services\<lparr>change_protocol := None\<rparr>)" "core_ok demo_core" "fresh (zeroed\<lparr>has_input := True, driver_raw := True\<rparr>)"
  "find_keymap (\<lambda>_ maps. (- 2, maps)) ''none'' [empty_map] = (Some (entry_map empty_map), [empty_map])" "keymap_ok (entry_map empty_map)"
  by (simp_all add: answers_def demo_services_def core_ok_def demo_core_def fresh_def clean_def zeroed_def no_keys_def find_keymap_def rc_map_get_def
      seek_rc_map_def empty_map_def keymap_ok_def)



theorem show_during_removal_witness:
  "device_added (snd (fold (\<lambda>step s. step s) (take 4 unregister_steps) (demo_core, demo_device)))
    \<and> show_protocols 1 (Some (snd (fold (\<lambda>step s. step s) (take 4 unregister_steps) (demo_core, demo_device)))) = None"
proof -
  have "registered demo_device" "driver_raw demo_device"
    using blank_dev_ok by (simp_all add: registered_def demo_device_def rc_demo_def idle_dev_def)
  then show ?thesis using show_during_removal [of demo_device 4 demo_core 1] by simp
qed

end
