(* ===== verification/Spec2Isabelle.thy ===== *)
theory Spec2Isabelle
  imports Dvb_Ringbuffer Dvb_Demux_Reach Dvb_Math Rc_Device
begin

text \<open>
  This development models the hardware-independent parts of a tree of Linux media drivers: the DVB core (\<open>src/linux/drivers/media/dvb/dvb-core\<close>),
  which carries transport streams from a receiver to user programs, and the remote control core (\<open>src/linux/drivers/media/rc\<close>), which turns the light
  pulses of a remote control into key events.

  \<^bold>\<open>The parts and how they interact.\<close> A DVB receiver passes a stream of bytes to the software demultiplexer. The demultiplexer finds the packets of
  188 bytes in it, hands each packet to the feeds that ask for its PID, and reassembles sections, which go to the filters of the section feeds. What clients receive they keep in ring
  buffers. Frontends compute signal levels with fixed-point logarithms. An infrared receiver stores the lengths of pulses and spaces in a queue; a thread takes them out and gives
  each to all registered decoders; a decoder that has seen a whole frame reports its scancode; the key table of the device gives the keycode, and the input layer is told that
  the key is pressed, repeated or, by a timer, released.

  \<^bold>\<open>Conventions.\<close> A C structure is a record, an enumeration a datatype, a machine integer a word where its width matters and a natural number or integer where it does not. A fault
  (an access outside an object or through a null pointer) and a lock taken twice by one thread are the value \<open>None\<close>; an error that the code reports is a
  negative number in the result. A pointer is an index and a null pointer is \<open>None\<close>. What is not in the sources is a parameter: memory allocation, user-space copies, \<open>crc32_be\<close>, the clock,
  the \<open>kfifo\<close>, the driver's callbacks. Theorems that rely on such a parameter state the documented behaviour as hypotheses, and a witness shows them for a concrete one. Locks that the
  code takes around a whole function make that function one step; where the statements of two functions can interleave, they are separate steps.

  \<^bold>\<open>Theories.\<close>
  \<^item> \<open>Dvb_Prelude\<close>: words, error numbers, memory with bounds, general lemmas.
  \<^item> \<open>Dvb_Ringbuffer\<close> (\<open>dvb_ringbuffer.c\<close>): all functions. The byte level refines a FIFO queue for every sequence of calls (the locale \<open>byte_queue\<close>); packets that are written
    are read back; \<open>pkt_next\<close> and \<open>pkt_dispose\<close> are right under a condition on the position of the packets, and a packet is missed without it.
  \<^item> \<open>Dvb_Demux\<close> (\<open>dvb_demux.c\<close>, data path), \<open>Dvb_Demux_Sections\<close> and \<open>Dvb_Demux_Stream\<close>: sections that are cut into packets arrive complete and in order; after a gap nothing broken is
    delivered; a packet reaches exactly the feeds that want it; the result does not depend on how the stream is cut into buffers.
  \<^item> \<open>Dvb_Demux_Feeds\<close>, \<open>Dvb_Demux_Invariant\<close>, \<open>Dvb_Demux_Reach\<close> (\<open>dvb_demux.c\<close>, client interface): allocating, starting, stopping and releasing feeds and filters. An invariant of the lists of
    feeds and filters holds in every state that calls of both interfaces reach, in any order.
  \<^item> \<open>Dvb_Math\<close> (\<open>dvb_math.c\<close>): the distance of the integer logarithms from the real ones.
  \<^item> \<open>Rc_Map\<close>, \<open>Rc_Keytable\<close> (\<open>rc-main.c\<close>, scancode tables): the sorted array with binary search implements a finite map, and its bitmap of keys is the set of the values.
  \<^item> \<open>Rc_Main\<close> (\<open>rc-main.c\<close>, key events): presses and releases alternate, and a key that is no longer reported is released in time.
  \<^item> \<open>Ir_Event\<close>, \<open>Ir_Manchester\<close>: what the decoders share (\<open>rc-core-priv.h\<close>), and their contract, the locale \<open>ir_decoder\<close>: a decoder never leaves its well-formed states, a reset brings it back,
    and it reports every frame. \<open>Ir_Nec\<close>, \<open>Ir_Jvc\<close>, \<open>Ir_Sony\<close>, \<open>Ir_Rc5\<close>, \<open>Ir_Rc5_Sz\<close>, \<open>Ir_Rc6\<close>: the six decoders, each an interpretation of the locale; every
    transmission within the tolerances is decoded to the key that was sent.
  \<^item> \<open>Ir_Raw\<close> (\<open>ir-raw.c\<close>): the queue, the thread, the filter for receivers that cut pulses, registration of decoders. It joins decoders, key tables and key events: the theorem
    \<open>nec_key_press\<close> goes from the pulses of a transmission to the events of the input device.
  \<^item> \<open>Rc_Device\<close> (\<open>rc-main.c\<close>, the rest): keymaps, the file \<open>protocols\<close>, and the life of a device. Whatever fails during a registration, nothing is left behind.

  \<^bold>\<open>Bounds and termination.\<close> All loops of the code are recursive functions with a proof of termination, with these exceptions. The decoding thread of \<open>ir-raw.c\<close> runs forever, so its model
  takes the number of passes as an argument; \<open>thread_drains\<close> shows that one pass more than there are events is enough for it to sleep again. The loops over packets in a ring buffer (\<open>pkt_clean\<close>, \<open>pkt_search\<close>) and the walks along the
  lists of filters (\<open>section_filters\<close>, \<open>prepare_loop\<close>, \<open>filter_unlink\<close>) end only for well-formed data; they are partial functions, whose value is \<open>None\<close> if they do not end, and the theorems about
  them state that they return. The lengths of keymaps are below \<open>2 ^ 28\<close> entries, above which the size in bytes would not fit in 32 bits.

  \<^bold>\<open>Not modelled.\<close> The drivers of particular hardware (receivers, bridges, demodulators, tuners, capture cards, radios): what their register accesses mean is not in the sources. The
  device nodes, the frontend thread, the common interface and the network device of the DVB core, which mostly wait for the hardware or for user programs; the video framework; keymaps, which are tables of constants; firmware, object files
  without sources, and the build system. Messages for debugging are left out everywhere. Of the branches for different kernel versions, those for recent kernels are modelled.
\<close>

end
